(* ===== verification/Prelude.thy ===== *)
theory Prelude
  imports Main "HOL-Library.Word"
begin

text \<open>
  Vocabulary shared by every component of the model.

  The C++ of the repository fails in ways that a total HOL function would hide: it reads
  arrays out of range, pops from empty strings, shifts by too much, throws standard
  exceptions and calls \<^verbatim>\<open>exit\<close>.  Every operation that can do so returns a value of
  \<open>'a res\<close>, a sum of a \<open>fault\<close> and the result, and \<open>rbind\<close> sequences such operations
  the way consecutive C++ statements run: the first fault ends the computation.
\<close>

section \<open>Faults and results\<close>

datatype fault =
    Null_Deref            \<comment> \<open>a null \<open>FILE *\<close> or \<open>char *\<close> is used\<close>
  | Out_Of_Bounds         \<comment> \<open>an array, string or vector is indexed out of range\<close>
  | Uninitialised         \<comment> \<open>memory from \<open>new char[n]\<close> is read before it was written\<close>
  | Empty_Pop             \<comment> \<open>\<open>pop_back\<close> on an empty string\<close>
  | Shift_Too_Wide        \<comment> \<open>an \<open>int\<close> is shifted by 32 or more\<close>
  | Div_By_Zero           \<comment> \<open>integer \<open>%\<close> or \<open>/\<close> by 0\<close>
  | Int_Overflow          \<comment> \<open>a signed \<open>int\<close> leaves its range\<close>
  | Throws_Out_Of_Range   \<comment> \<open>\<open>std::out_of_range\<close>\<close>
  | Throws_Invalid_Argument \<comment> \<open>\<open>std::invalid_argument\<close>\<close>
  | Throws_Length_Error   \<comment> \<open>\<open>std::length_error\<close>\<close>
  | Throws_Bad_Alloc      \<comment> \<open>the allocator of the shared segment has no room\<close>
  | Stack_Overflow        \<comment> \<open>the recursion is deeper than the bound of the model\<close>
  | Exits int             \<comment> \<open>\<open>exit(code)\<close>\<close>

type_synonym 'a res = "fault + 'a"

definition rbind :: "'a res \<Rightarrow> ('a \<Rightarrow> 'b res) \<Rightarrow> 'b res" where
  "rbind m f = (case m of Inl e \<Rightarrow> Inl e | Inr x \<Rightarrow> f x)"

lemma rbind_simps [simp]:
  "rbind (Inl e) f = Inl e"
  "rbind (Inr x) f = f x"
  by (simp_all add: rbind_def)

lemma rbind_cong [fundef_cong]:
  "m = m' \<Longrightarrow> (\<And>x. m' = Inr x \<Longrightarrow> f x = f' x) \<Longrightarrow> rbind m f = rbind m' f'"
  by (cases m') simp_all

lemma rbind_Inr_iff: "rbind m f = Inr y \<longleftrightarrow> (\<exists>x. m = Inr x \<and> f x = Inr y)"
  by (cases m) simp_all

lemma rbind_Inl_iff: "rbind m f = Inl e \<longleftrightarrow> m = Inl e \<or> (\<exists>x. m = Inr x \<and> f x = Inl e)"
  by (cases m) simp_all

lemma rbind_assoc: "rbind (rbind m f) g = rbind m (\<lambda>x. rbind (f x) g)"
  by (cases m) simp_all

text \<open>
  \<open>check e P\<close> is a run-time condition: the fault \<open>e\<close> when \<open>P\<close> does not hold.
\<close>

definition check :: "fault \<Rightarrow> bool \<Rightarrow> unit res" where
  "check e P = (if P then Inr () else Inl e)"

lemma check_simps [simp]:
  "check e True = Inr ()"
  "check e False = Inl e"
  "check e P = Inr u \<longleftrightarrow> P"
  "check e P = Inl e' \<longleftrightarrow> \<not> P \<and> e' = e"
  by (auto simp: check_def)

section \<open>Indexing\<close>

text \<open>
  \<open>at xs i\<close> is \<open>xs[i]\<close> on a vector, string or array of known extent; unlike \<open>xs ! i\<close> it
  says when the index is out of range.
\<close>

definition at :: "'a list \<Rightarrow> nat \<Rightarrow> 'a res" where
  "at xs i = (if i < length xs then Inr (xs ! i) else Inl Out_Of_Bounds)"

lemma at_in [simp]: "i < length xs \<Longrightarrow> at xs i = Inr (xs ! i)"
  by (simp add: at_def)

lemma at_out [simp]: "length xs \<le> i \<Longrightarrow> at xs i = Inl Out_Of_Bounds"
  by (simp add: at_def)

lemma at_Inr_iff: "at xs i = Inr x \<longleftrightarrow> i < length xs \<and> xs ! i = x"
  by (auto simp: at_def)

text \<open>\<open>s.pop_back()\<close> on a \<open>std::string\<close>.\<close>

definition pop_back :: "'a list \<Rightarrow> 'a list res" where
  "pop_back s = (if s = [] then Inl Empty_Pop else Inr (butlast s))"

lemma pop_back_snoc [simp]: "pop_back (xs @ [x]) = Inr xs"
  by (simp add: pop_back_def)

lemma pop_back_Nil [simp]: "pop_back [] = Inl Empty_Pop"
  by (simp add: pop_back_def)

lemma drop_Cons_nth: "drop n xs = y # ys \<Longrightarrow> n < length xs \<and> xs ! n = y \<and> drop (Suc n) xs = ys"
  by (metis drop_eq_Nil2 linorder_not_less list.discI list.inject Cons_nth_drop_Suc)

text \<open>
  \<open>cstr_at s i\<close> is \<open>p[i]\<close> for a \<open>const char *p\<close> that points to the characters of \<open>s\<close>
  followed by the terminating zero byte.
\<close>

definition cstr_at :: "string \<Rightarrow> nat \<Rightarrow> char res" where
  "cstr_at s i =
     (if i < length s then Inr (s ! i)
      else if i = length s then Inr (CHR 0x00) else Inl Out_Of_Bounds)"

lemma cstr_at_Inr: "cstr_at s i = Inr c \<Longrightarrow> i \<le> length s"
  by (auto simp: cstr_at_def split: if_splits)

lemma cstr_at_drop: "drop i s = c # cs \<Longrightarrow> cstr_at s i = Inr c"
  using drop_Cons_nth [of i s c cs] by (simp add: cstr_at_def)

text \<open>A \<open>char\<close> as the \<open>int\<close> it is promoted to; \<open>char\<close> is signed on the target (x86-64).\<close>

definition char_int :: "char \<Rightarrow> int" where
  "char_int c = (let n = int (of_char c) in if n < 128 then n else n - 256)"

section \<open>Bits of the column masks\<close>

unbundle bit_operations_syntax

text \<open>
  \<open>1 << i\<close> at type \<open>int\<close> (32 bits).  Shifting by the width or more is undefined in C++.
\<close>

definition shl_one :: "nat \<Rightarrow> 32 word res" where
  "shl_one i = (if i < 32 then Inr (push_bit i 1) else Inl Shift_Too_Wide)"

text \<open>
  The test \<open>((1 << i) & mask) != 0\<close> on a \<open>uint16_t\<close> mask, which the integer promotions
  widen to \<open>int\<close>.
\<close>

definition mask_bit :: "16 word \<Rightarrow> nat \<Rightarrow> bool res" where
  "mask_bit m i = rbind (shl_one i) (\<lambda>b. Inr (b AND ucast m \<noteq> 0))"

lemma push_bit_one_and_zero_iff:
  "push_bit i 1 AND (w :: 32 word) = 0 \<longleftrightarrow> \<not> bit w i"
  by (simp add: push_bit_of_1 and.commute and_exp_eq_0_iff_not_bit)

lemma mask_bit_eq: "i < 32 \<Longrightarrow> mask_bit m i = Inr (bit m i)"
  using push_bit_one_and_zero_iff [of i "ucast m"]
  by (simp add: mask_bit_def shl_one_def bit_ucast_iff push_bit_of_1)

lemma mask_bit_wide: "32 \<le> i \<Longrightarrow> mask_bit m i = Inl Shift_Too_Wide"
  by (simp add: mask_bit_def shl_one_def)

section \<open>Lists\<close>

lemma takeWhile_sep:
  "\<forall>c\<in>set v. \<not> P c \<Longrightarrow> P x \<Longrightarrow> takeWhile (\<lambda>c. \<not> P c) (v @ x # xs) = v"
  by (induction v) auto

lemma dropWhile_sep:
  "\<forall>c\<in>set v. \<not> P c \<Longrightarrow> P x \<Longrightarrow> dropWhile (\<lambda>c. \<not> P c) (v @ x # xs) = x # xs"
  by (induction v) auto

text \<open>Pieces of text with a separator between them.\<close>

fun join :: "string \<Rightarrow> string list \<Rightarrow> string" where
  "join sep [] = []"
| "join sep [x] = x"
| "join sep (x # y # xs) = x @ sep @ join sep (y # xs)"

lemma concat_map_sep: "xs \<noteq> [] \<Longrightarrow> concat (map (\<lambda>x. f x @ sep) xs) = join sep (map f xs) @ sep"
  by (induction xs rule: induct_list012) simp_all

end
