(* ===== verification/Buffered_Reader.thy ===== *)
theory Buffered_Reader
  imports Prelude
begin

text \<open>
  \<^verbatim>\<open>src/buffered_reader.h\<close> and \<^verbatim>\<open>src/buffered_reader.cpp\<close>: class \<open>BufferedReader\<close>, which
  reads the comma- and newline-separated values of a CSV file through a 4 MiB buffer.

  A \<open>FILE *\<close> on a regular file that nobody writes is its contents and a position;
  \<open>None\<close> is the null pointer \<open>fopen\<close> returns when it fails.  The heap block
  \<open>read_buffer\<close> maps an index to the byte stored there, \<open>None\<close> as long as nothing has
  been stored (\<open>new char[n]\<close> does not initialise).
\<close>

section \<open>Files\<close>

record c_file =
  f_contents :: "char list"
  f_pos :: nat

text \<open>
  \<open>fread(buf, 1, n, fd)\<close> delivers the next \<open>n\<close> bytes, fewer only at the end of the
  file; \<open>fseek(fd, offset, SEEK_SET)\<close> fails on a negative offset and leaves the
  position alone (the code ignores its result).
\<close>

definition fread :: "nat \<Rightarrow> c_file \<Rightarrow> char list \<times> c_file" where
  "fread n f =
     (let bytes = take n (drop (f_pos f) (f_contents f))
      in (bytes, f\<lparr>f_pos := f_pos f + length bytes\<rparr>))"

definition fseek_set :: "int \<Rightarrow> c_file \<Rightarrow> c_file" where
  "fseek_set off f = (if 0 \<le> off then f\<lparr>f_pos := nat off\<rparr> else f)"

section \<open>The class\<close>

record reader =
  fd :: "c_file option"
  read_buffer :: "nat \<Rightarrow> char option"
  BUFFER_SIZE :: nat
  buf_end :: nat
  read_idx :: nat
  offset' :: int

text \<open>\<open>EOF\<close> is the \<open>int\<close> -1; \<open>peek\<close> returns it as a \<open>char\<close>, which keeps its low byte.\<close>

definition EOF_char :: char where
  "EOF_char = char_of (255 :: nat)"

text \<open>The constructor, given what \<open>fopen(path, "rb")\<close> returned.\<close>

definition BufferedReader :: "c_file option \<Rightarrow> reader" where
  "BufferedReader opened =
     \<lparr>fd = opened, read_buffer = (\<lambda>_. None), BUFFER_SIZE = 4 * 1024 * 1024,
      buf_end = 4 * 1024 * 1024, read_idx = 4 * 1024 * 1024, offset' = 0\<rparr>"

definition read_buf :: "reader \<Rightarrow> nat \<Rightarrow> char res" where
  "read_buf s i =
     (if i < BUFFER_SIZE s
      then (case read_buffer s i of Some c \<Rightarrow> Inr c | None \<Rightarrow> Inl Uninitialised)
      else Inl Out_Of_Bounds)"

definition store_bytes :: "char list \<Rightarrow> (nat \<Rightarrow> char option) \<Rightarrow> nat \<Rightarrow> char option" where
  "store_bytes bs mem = (\<lambda>i. if i < length bs then Some (bs ! i) else mem i)"

definition refill :: "reader \<Rightarrow> reader res" where
  "refill s =
     (case fd s of
        None \<Rightarrow> Inl Null_Deref
      | Some f \<Rightarrow>
          (let (bytes, f') = fread (BUFFER_SIZE s) f
           in Inr (s\<lparr>fd := Some f', read_buffer := store_bytes bytes (read_buffer s),
                     buf_end := length bytes, read_idx := 0\<rparr>)))"

definition peek :: "reader \<Rightarrow> (char \<times> reader) res" where
  "peek s =
     (if read_idx s = buf_end s then
        if buf_end s = BUFFER_SIZE s then
          rbind (refill s) (\<lambda>s'.
            if buf_end s' = 0 then Inr (EOF_char, s')
            else rbind (read_buf s' (read_idx s')) (\<lambda>c. Inr (c, s')))
        else Inr (EOF_char, s)
      else rbind (read_buf s (read_idx s)) (\<lambda>c. Inr (c, s)))"

definition seek :: "int \<Rightarrow> reader \<Rightarrow> reader res" where
  "seek off s =
     (case fd s of
        None \<Rightarrow> Inl Null_Deref
      | Some f \<Rightarrow> Inr (s\<lparr>fd := Some (fseek_set off f), offset' := off,
                         read_idx := BUFFER_SIZE s, buf_end := BUFFER_SIZE s\<rparr>))"

definition offset :: "reader \<Rightarrow> int" where
  "offset s = offset' s"

definition is_sep :: "char \<Rightarrow> bool" where
  "is_sep c \<longleftrightarrow> c = CHR '','' \<or> c = CHR 0x0A"

text \<open>
  One iteration of the loop of \<open>get_value\<close> up to the test of the byte: refill through
  \<open>peek\<close> when the buffer is used up (its result is ignored), then read and advance.
\<close>

definition next_char :: "reader \<Rightarrow> (char \<times> reader) res" where
  "next_char s =
     rbind (if read_idx s = buf_end s then rbind (peek s) (\<lambda>(_, s'). Inr s') else Inr s)
       (\<lambda>s'. rbind (read_buf s' (read_idx s')) (\<lambda>c.
          Inr (c, s'\<lparr>read_idx := read_idx s' + 1, offset' := offset' s' + 1\<rparr>)))"

text \<open>
  The loop ends: each iteration consumes bytes of the file, or stops the refilling for
  good, or moves the index towards the end of the buffer.
\<close>

definition unread :: "reader \<Rightarrow> nat" where
  "unread s = (case fd s of None \<Rightarrow> 0 | Some f \<Rightarrow> length (f_contents f) - f_pos f)"

definition may_refill :: "reader \<Rightarrow> nat" where
  "may_refill s = (if buf_end s = BUFFER_SIZE s then 1 else 0)"

lemma refill_Inr:
  assumes "refill s = Inr s'"
  obtains f bytes where "fd s = Some f"
    and "bytes = take (BUFFER_SIZE s) (drop (f_pos f) (f_contents f))"
    and "s' = s\<lparr>fd := Some (f\<lparr>f_pos := f_pos f + length bytes\<rparr>),
                 read_buffer := store_bytes bytes (read_buffer s),
                 buf_end := length bytes, read_idx := 0\<rparr>"
  using assms by (auto simp: refill_def fread_def Let_def split: option.splits)

lemma refill_decreases:
  assumes "refill s = Inr s'" and "buf_end s = BUFFER_SIZE s" and "0 < BUFFER_SIZE s"
  shows "unread s' < unread s \<or> unread s' = unread s \<and> may_refill s' < may_refill s"
  using assms(1)
proof (rule refill_Inr)
  fix f bytes
  assume f: "fd s = Some f"
    and b: "bytes = take (BUFFER_SIZE s) (drop (f_pos f) (f_contents f))"
    and s': "s' = s\<lparr>fd := Some (f\<lparr>f_pos := f_pos f + length bytes\<rparr>),
                 read_buffer := store_bytes bytes (read_buffer s),
                 buf_end := length bytes, read_idx := 0\<rparr>"
  show ?thesis
  proof (cases "bytes = []")
    case True
    with s' f assms(2,3) show ?thesis by (simp add: unread_def may_refill_def)
  next
    case False
    with b have "f_pos f < length (f_contents f)" "0 < length bytes"
      by (cases "f_pos f < length (f_contents f)"; simp)+
    moreover have "unread s' = length (f_contents f) - (f_pos f + length bytes)"
      "unread s = length (f_contents f) - f_pos f"
      using s' f by (simp_all add: unread_def)
    ultimately show ?thesis by linarith
  qed
qed

lemma peek_at_end:
  assumes "peek s = Inr (c, s')" and "read_idx s = buf_end s"
  shows "s' = s \<and> buf_end s \<noteq> BUFFER_SIZE s \<or> refill s = Inr s' \<and> buf_end s = BUFFER_SIZE s"
  using assms by (auto simp: peek_def rbind_Inr_iff split: if_splits)

lemma read_buf_Inr: "read_buf s i = Inr c \<longleftrightarrow> i < BUFFER_SIZE s \<and> read_buffer s i = Some c"
  by (auto simp: read_buf_def split: option.splits)

lemma refill_BUFFER_SIZE: "refill s = Inr s' \<Longrightarrow> BUFFER_SIZE s' = BUFFER_SIZE s"
  by (auto elim: refill_Inr)

lemma next_char_cases:
  assumes "next_char s = Inr (c, s')"
  obtains t where "t = s \<or> refill s = Inr t \<and> buf_end s = BUFFER_SIZE s"
    and "read_idx t < BUFFER_SIZE t" "read_buffer t (read_idx t) = Some c"
    and "s' = t\<lparr>read_idx := read_idx t + 1, offset' := offset' t + 1\<rparr>"
proof -
  from assms obtain t where t: "(if read_idx s = buf_end s then rbind (peek s) (\<lambda>(_, s'). Inr s')
      else Inr s) = Inr t" and r: "read_buf t (read_idx t) = Inr c"
    and s': "s' = t\<lparr>read_idx := read_idx t + 1, offset' := offset' t + 1\<rparr>"
    by (auto simp: next_char_def rbind_Inr_iff)
  have "t = s \<or> refill s = Inr t \<and> buf_end s = BUFFER_SIZE s"
    using t by (auto simp: rbind_Inr_iff dest: peek_at_end split: if_splits)
  with r s' that show thesis by (auto simp: read_buf_Inr)
qed

lemma next_char_decreases:
  assumes "next_char s = Inr (c, s')"
  shows "(s', s) \<in> measures [unread, may_refill, \<lambda>s. BUFFER_SIZE s - read_idx s]"
  using assms
proof (rule next_char_cases)
  fix t
  assume t: "t = s \<or> refill s = Inr t \<and> buf_end s = BUFFER_SIZE s"
    and "read_idx t < BUFFER_SIZE t"
    and s': "s' = t\<lparr>read_idx := read_idx t + 1, offset' := offset' t + 1\<rparr>"
  moreover have "unread s' = unread t" "may_refill s' = may_refill t"
    using s' by (simp_all add: unread_def may_refill_def)
  moreover have "BUFFER_SIZE s' = BUFFER_SIZE t" "read_idx s' = Suc (read_idx t)"
    using s' by simp_all
  moreover have "refill s = Inr t \<Longrightarrow> BUFFER_SIZE t = BUFFER_SIZE s"
    by (rule refill_BUFFER_SIZE)
  ultimately show ?thesis using refill_decreases [of s t] by (elim disjE) auto
qed

function get_value_loop :: "string \<Rightarrow> reader \<Rightarrow> (string \<times> reader) res" where
  "get_value_loop ret s =
     rbind (next_char s) (\<lambda>(c, s').
       if is_sep c then Inr (ret, s') else get_value_loop (ret @ [c]) s')"
  by pat_completeness auto
termination
  by (relation "inv_image (measures [unread, may_refill, \<lambda>s. BUFFER_SIZE s - read_idx s]) snd")
     (auto dest: next_char_decreases simp del: in_measures)

declare get_value_loop.simps [simp del]

definition get_value :: "reader \<Rightarrow> (string \<times> reader) res" where
  "get_value s = get_value_loop [] s"

section \<open>What a reader promises\<close>

text \<open>
  The file of a reader as a whole, and the part of it that \<open>get_value\<close> has not delivered:
  everything from \<open>offset()\<close> on.
\<close>

definition contents :: "reader \<Rightarrow> char list" where
  "contents s = (case fd s of None \<Rightarrow> [] | Some f \<Rightarrow> f_contents f)"

definition pending :: "reader \<Rightarrow> char list" where
  "pending s = drop (nat (offset s)) (contents s)"

text \<open>
  The invariant between the buffer, its two indices, the position of the file and
  \<open>offset'\<close>: the buffered bytes are the ones of the file just before its position,
  and a buffer that is not full means that the file is used up.
\<close>

definition reader_ok :: "reader \<Rightarrow> bool" where
  "reader_ok s \<longleftrightarrow>
     (\<exists>f. fd s = Some f \<and> 0 < BUFFER_SIZE s \<and> 0 \<le> offset' s \<and>
        read_idx s \<le> buf_end s \<and> buf_end s \<le> BUFFER_SIZE s \<and>
        f_pos f = nat (offset' s) + (buf_end s - read_idx s) \<and>
        (buf_end s < BUFFER_SIZE s \<longrightarrow> length (f_contents f) \<le> f_pos f) \<and>
        (\<forall>i<buf_end s - read_idx s.
           nat (offset' s) + i < length (f_contents f) \<and>
           read_buffer s (read_idx s + i) = Some (f_contents f ! (nat (offset' s) + i))))"

lemma pending_offset: "pending s = drop (nat (offset' s)) (contents s)"
  by (simp add: pending_def offset_def)

lemma reader_ok_new: "f_pos f = 0 \<Longrightarrow> reader_ok (BufferedReader (Some f))"
  by (simp add: reader_ok_def BufferedReader_def)

lemma seek_ok:
  assumes "reader_ok s" "0 \<le> off"
  obtains s' where "seek off s = Inr s'" "reader_ok s'" "offset s' = off"
    "contents s' = contents s" "BUFFER_SIZE s' = BUFFER_SIZE s"
    "read_buffer s' = read_buffer s" "read_idx s' = BUFFER_SIZE s" "buf_end s' = BUFFER_SIZE s"
  using assms by (auto simp: reader_ok_def seek_def fseek_set_def offset_def contents_def)

lemma refill_ok:
  assumes ok: "reader_ok s" and full: "read_idx s = buf_end s" "buf_end s = BUFFER_SIZE s"
  obtains s' where "refill s = Inr s'" "reader_ok s'" "offset' s' = offset' s"
    "contents s' = contents s" "BUFFER_SIZE s' = BUFFER_SIZE s" "read_idx s' = 0"
    "buf_end s' = min (BUFFER_SIZE s) (length (pending s))"
    "read_buffer s' = store_bytes (take (BUFFER_SIZE s) (pending s)) (read_buffer s)"
proof -
  from ok full obtain f where f: "fd s = Some f" "f_pos f = nat (offset' s)" "0 \<le> offset' s"
    "0 < BUFFER_SIZE s" by (auto simp: reader_ok_def)
  define bytes where "bytes = take (BUFFER_SIZE s) (drop (f_pos f) (f_contents f))"
  define s' where "s' = s\<lparr>fd := Some (f\<lparr>f_pos := f_pos f + length bytes\<rparr>),
    read_buffer := store_bytes bytes (read_buffer s), buf_end := length bytes, read_idx := 0\<rparr>"
  have r: "refill s = Inr s'"
    using f by (simp add: refill_def fread_def bytes_def s'_def Let_def)
  have p: "pending s = drop (f_pos f) (f_contents f)"
    using f by (simp add: pending_offset contents_def)
  have "reader_ok s'"
    unfolding reader_ok_def using f
    by (auto simp: s'_def bytes_def store_bytes_def min_def)
  with r f p that show thesis
    by (auto simp: s'_def bytes_def contents_def min.commute)
qed

lemma reader_ok_buffered:
  assumes "reader_ok s" "read_idx s < buf_end s"
  shows "\<exists>c cs. pending s = c # cs \<and> read_buf s (read_idx s) = Inr c"
proof -
  from assms obtain f where f: "fd s = Some f" "buf_end s \<le> BUFFER_SIZE s"
    and b: "nat (offset' s) < length (f_contents f)"
      "read_buffer s (read_idx s) = Some (f_contents f ! nat (offset' s))"
    unfolding reader_ok_def by (metis add.right_neutral zero_less_diff)
  have "pending s = f_contents f ! nat (offset' s) # drop (Suc (nat (offset' s))) (f_contents f)"
    using f b by (simp add: pending_offset contents_def Cons_nth_drop_Suc)
  with f b assms(2) show ?thesis by (simp add: read_buf_def)
qed

lemma reader_ok_used_up:
  assumes "reader_ok s" "read_idx s = buf_end s" "buf_end s \<noteq> BUFFER_SIZE s"
  shows "pending s = []"
  using assms by (auto simp: reader_ok_def pending_offset contents_def)

lemma reader_ok_nonempty:
  assumes ok: "reader_ok s" and p: "pending s = c # cs" and i: "read_idx s < buf_end s"
  shows "read_buf s (read_idx s) = Inr c"
  using reader_ok_buffered [OF ok i] p
proof -
  from ok i obtain f where f: "fd s = Some f" "buf_end s \<le> BUFFER_SIZE s"
    and b: "nat (offset' s) < length (f_contents f)"
      "read_buffer s (read_idx s) = Some (f_contents f ! nat (offset' s))"
    unfolding reader_ok_def by (metis add.right_neutral zero_less_diff)
  from p f b have "c = f_contents f ! nat (offset' s)"
    by (simp add: pending_offset contents_def Cons_nth_drop_Suc [symmetric])
  with f b i show ?thesis by (simp add: read_buf_def)
qed

text \<open>
  \<open>peek()\<close> answers the byte that comes next, \<open>EOF\<close> at the end of the file, and
  consumes nothing.
\<close>

definition next_byte :: "char list \<Rightarrow> char" where
  "next_byte cs = (case cs of [] \<Rightarrow> EOF_char | c # _ \<Rightarrow> c)"

lemma peek_ok:
  assumes ok: "reader_ok s"
  obtains s' where "peek s = Inr (next_byte (pending s), s')" "reader_ok s'"
    "offset' s' = offset' s" "contents s' = contents s" "BUFFER_SIZE s' = BUFFER_SIZE s"
    "pending s \<noteq> [] \<Longrightarrow> read_idx s' < buf_end s'"
proof (cases "read_idx s = buf_end s")
  case False
  with ok have i: "read_idx s < buf_end s" by (auto simp: reader_ok_def)
  from reader_ok_buffered [OF ok this] obtain c cs
    where "pending s = c # cs" "read_buf s (read_idx s) = Inr c" by auto
  with False i ok that [of s] show thesis by (simp add: peek_def next_byte_def)
next
  case used: True
  show thesis
  proof (cases "buf_end s = BUFFER_SIZE s")
    case False
    with used ok have "pending s = []" by (intro reader_ok_used_up)
    with used False ok that [of s] show thesis by (simp add: peek_def next_byte_def)
  next
    case True
    from refill_ok [OF ok used True] obtain s' where s': "refill s = Inr s'" "reader_ok s'"
      "offset' s' = offset' s" "contents s' = contents s" "BUFFER_SIZE s' = BUFFER_SIZE s"
      "read_idx s' = 0" "buf_end s' = min (BUFFER_SIZE s) (length (pending s))"
      by blast
    have bs: "0 < BUFFER_SIZE s" using ok by (auto simp: reader_ok_def)
    have p: "pending s' = pending s" using s' by (simp add: pending_offset)
    show thesis
    proof (cases "pending s")
      case Nil
      with s' used True that [of s'] show thesis by (simp add: peek_def next_byte_def)
    next
      case (Cons c cs)
      with s' bs have lt: "read_idx s' < buf_end s'" by simp
      with reader_ok_nonempty [OF s'(2)] Cons p have "read_buf s' (read_idx s') = Inr c"
        by simp
      with lt s'(1) used True have "peek s = Inr (c, s')" by (simp add: peek_def)
      with lt s'(2-5) Cons that [of s'] show thesis by (simp add: next_byte_def)
    qed
  qed
qed

lemma advance_ok:
  assumes ok: "reader_ok s" and i: "read_idx s < buf_end s"
  shows "reader_ok (s\<lparr>read_idx := read_idx s + 1, offset' := offset' s + 1\<rparr>)"
proof -
  from ok obtain f where f: "fd s = Some f" and r: "0 < BUFFER_SIZE s" "0 \<le> offset' s"
    "buf_end s \<le> BUFFER_SIZE s" "f_pos f = nat (offset' s) + (buf_end s - read_idx s)"
    "buf_end s < BUFFER_SIZE s \<longrightarrow> length (f_contents f) \<le> f_pos f"
    and b: "\<forall>i<buf_end s - read_idx s.
           nat (offset' s) + i < length (f_contents f) \<and>
           read_buffer s (read_idx s + i) = Some (f_contents f ! (nat (offset' s) + i))"
    by (auto simp: reader_ok_def)
  have "nat (offset' s + 1) = Suc (nat (offset' s))" using r by simp
  moreover have "\<forall>j<buf_end s - Suc (read_idx s).
      nat (offset' s) + Suc j < length (f_contents f) \<and>
      read_buffer s (read_idx s + Suc j) = Some (f_contents f ! (nat (offset' s) + Suc j))"
  proof (intro allI impI)
    fix j assume "j < buf_end s - Suc (read_idx s)"
    then have "Suc j < buf_end s - read_idx s" by simp
    with b show "nat (offset' s) + Suc j < length (f_contents f) \<and>
      read_buffer s (read_idx s + Suc j) = Some (f_contents f ! (nat (offset' s) + Suc j))"
      by blast
  qed
  ultimately show ?thesis
    using f r i by (simp add: reader_ok_def)
qed

lemma next_char_ok:
  assumes ok: "reader_ok s" and p: "pending s = c # cs"
  obtains s' where "next_char s = Inr (c, s')" "reader_ok s'" "offset' s' = offset' s + 1"
    "contents s' = contents s" "BUFFER_SIZE s' = BUFFER_SIZE s" "pending s' = cs"
proof -
  obtain t where t: "(if read_idx s = buf_end s then rbind (peek s) (\<lambda>(_, s'). Inr s')
      else Inr s) = Inr t"
    and t_ok: "reader_ok t" "offset' t = offset' s" "contents t = contents s"
      "BUFFER_SIZE t = BUFFER_SIZE s" "read_idx t < buf_end t"
  proof (cases "read_idx s = buf_end s")
    case True
    from peek_ok [OF ok] p obtain t where "peek s = Inr (next_byte (pending s), t)"
      "reader_ok t" "offset' t = offset' s" "contents t = contents s"
      "BUFFER_SIZE t = BUFFER_SIZE s" "read_idx t < buf_end t"
      by (metis list.discI)
    with True that [of t] show thesis by simp
  next
    case False
    with ok that [of s] show thesis by (auto simp: reader_ok_def)
  qed
  have pt: "pending t = c # cs" using t_ok p by (simp add: pending_offset)
  define s' where "s' = t\<lparr>read_idx := read_idx t + 1, offset' := offset' t + 1\<rparr>"
  have "next_char s = Inr (c, s')"
    using t reader_ok_nonempty [OF t_ok(1) pt t_ok(5)] by (simp add: next_char_def s'_def)
  moreover have "reader_ok s'"
    unfolding s'_def by (rule advance_ok [OF t_ok(1) t_ok(5)])
  moreover have "nat (offset' t + 1) = Suc (nat (offset' t))"
    using t_ok(1) by (auto simp: reader_ok_def)
  then have "pending s' = cs"
    using pt by (simp add: s'_def pending_offset contents_def drop_Suc drop_tl)
  ultimately show thesis using that [of s'] t_ok by (simp add: s'_def contents_def)
qed

lemma get_value_loop_ok:
  assumes "reader_ok s" "pending s = v @ sep # rest" "is_sep sep" "\<forall>c\<in>set v. \<not> is_sep c"
  shows "\<exists>s'. get_value_loop ret s = Inr (ret @ v, s') \<and> reader_ok s' \<and>
    offset' s' = offset' s + int (length v) + 1 \<and> contents s' = contents s \<and>
    BUFFER_SIZE s' = BUFFER_SIZE s \<and> pending s' = rest"
  using assms
proof (induction v arbitrary: ret s)
  case Nil
  then obtain s' where "next_char s = Inr (sep, s')" "reader_ok s'" "offset' s' = offset' s + 1"
    "contents s' = contents s" "BUFFER_SIZE s' = BUFFER_SIZE s" "pending s' = rest"
    by (metis append_Nil next_char_ok)
  with Nil.prems(3) show ?case by (simp add: get_value_loop.simps [of ret s])
next
  case (Cons c v)
  from Cons.prems(1,2) obtain s' where s': "next_char s = Inr (c, s')" "reader_ok s'"
    "offset' s' = offset' s + 1" "contents s' = contents s" "BUFFER_SIZE s' = BUFFER_SIZE s"
    "pending s' = v @ sep # rest"
    by (metis append_Cons next_char_ok)
  from Cons.IH [OF s'(2,6) Cons.prems(3)] Cons.prems(4) obtain s''
    where "get_value_loop (ret @ [c]) s' = Inr ((ret @ [c]) @ v, s'')" "reader_ok s''"
      "offset' s'' = offset' s' + int (length v) + 1" "contents s'' = contents s'"
      "BUFFER_SIZE s'' = BUFFER_SIZE s'" "pending s'' = rest"
    by (metis list.set_intros(2))
  with s' Cons.prems(4) show ?case by (simp add: get_value_loop.simps [of ret s])
qed

section \<open>The interface the query builder relies on\<close>

text \<open>
  A source of values: \<open>pend\<close> is what has not been delivered, \<open>whole\<close> the entire input,
  \<open>off\<close> the position that can be saved and sought again.
\<close>

locale value_source =
  fixes pk :: "'s \<Rightarrow> (char \<times> 's) res"
    and gv :: "'s \<Rightarrow> (string \<times> 's) res"
    and off :: "'s \<Rightarrow> int"
    and pend :: "'s \<Rightarrow> char list"
    and whole :: "'s \<Rightarrow> char list"
    and ok :: "'s \<Rightarrow> bool"
  assumes pk_law: "ok s \<Longrightarrow> \<exists>s'. pk s = Inr (next_byte (pend s), s') \<and> ok s' \<and>
      off s' = off s \<and> whole s' = whole s"
    and gv_law: "ok s \<Longrightarrow> pend s = v @ sep # rest \<Longrightarrow> is_sep sep \<Longrightarrow> \<forall>c\<in>set v. \<not> is_sep c \<Longrightarrow>
      \<exists>s'. gv s = Inr (v, s') \<and> ok s' \<and> off s' = off s + int (length v) + 1 \<and>
        whole s' = whole s"
    and pend_law: "pend s = drop (nat (off s)) (whole s)"
    and off_law: "ok s \<Longrightarrow> 0 \<le> off s"
begin

lemma pk_pending:
  assumes "ok s"
  obtains s' where "pk s = Inr (next_byte (pend s), s')" "ok s'" "off s' = off s"
    "whole s' = whole s" "pend s' = pend s"
  using pk_law [OF assms] pend_law by metis

lemma gv_pending:
  assumes "ok s" "pend s = v @ sep # rest" "is_sep sep" "\<forall>c\<in>set v. \<not> is_sep c"
  obtains s' where "gv s = Inr (v, s')" "ok s'" "off s' = off s + int (length v) + 1"
    "whole s' = whole s" "pend s' = rest"
proof -
  from gv_law [OF assms] obtain s' where s': "gv s = Inr (v, s')" "ok s'"
    "off s' = off s + int (length v) + 1" "whole s' = whole s"
    by blast
  have "pend s' = drop (length v + 1) (pend s)"
    using s'(3,4) off_law [OF assms(1)] pend_law [of s'] pend_law [of s]
    by (simp add: nat_add_distrib add.commute)
  with assms(2) s' that show thesis by simp
qed

end

lemma get_value_law:
  assumes "reader_ok s" "pending s = v @ sep # rest" "is_sep sep" "\<forall>c\<in>set v. \<not> is_sep c"
  shows "\<exists>s'. get_value s = Inr (v, s') \<and> reader_ok s' \<and>
    offset s' = offset s + int (length v) + 1 \<and> contents s' = contents s"
  using get_value_loop_ok [OF assms, of "[]"] by (auto simp: get_value_def offset_def)

interpretation csv: value_source peek get_value offset pending contents reader_ok
proof
  show "\<exists>s'. peek s = Inr (next_byte (pending s), s') \<and> reader_ok s' \<and>
      offset s' = offset s \<and> contents s' = contents s" if "reader_ok s" for s
    using that by (rule peek_ok) (auto simp: offset_def)
  show "\<exists>s'. get_value s = Inr (v, s') \<and> reader_ok s' \<and>
      offset s' = offset s + int (length v) + 1 \<and> contents s' = contents s"
    if "reader_ok s" "pending s = v @ sep # rest" "is_sep sep" "\<forall>c\<in>set v. \<not> is_sep c"
    for s v sep rest
    using that by (rule get_value_law)
  show "pending s = drop (nat (offset s)) (contents s)" for s
    by (rule pending_def)
  show "0 \<le> offset s" if "reader_ok s" for s
    using that by (auto simp: reader_ok_def offset_def)
qed

section \<open>Reading past the end\<close>

text \<open>
  A buffer whose bytes from \<open>buf_end\<close> on were never stored, in a reader that has seen the
  end of its file: the situation after the first refill of a file smaller than the buffer.
\<close>

definition tail_unwritten :: "reader \<Rightarrow> bool" where
  "tail_unwritten s \<longleftrightarrow> buf_end s < BUFFER_SIZE s \<and> (\<forall>i\<ge>buf_end s. read_buffer s i = None)"

lemma next_char_buffered:
  assumes ok: "reader_ok s" and p: "pending s = c # cs" and i: "read_idx s < buf_end s"
  shows "next_char s = Inr (c, s\<lparr>read_idx := read_idx s + 1, offset' := offset' s + 1\<rparr>)"
  using reader_ok_nonempty [OF ok p i] i by (simp add: next_char_def)

lemma pending_advance:
  assumes "reader_ok s" "pending s = c # cs"
  shows "pending (s\<lparr>read_idx := read_idx s + 1, offset' := offset' s + 1\<rparr>) = cs"
proof -
  have "nat (offset' s + 1) = Suc (nat (offset' s))"
    using assms(1) by (auto simp: reader_ok_def)
  with assms(2) show ?thesis by (simp add: pending_offset contents_def drop_Suc drop_tl)
qed

lemma reader_ok_pending_Cons:
  assumes "reader_ok s" "pending s = c # cs" "buf_end s < BUFFER_SIZE s"
  shows "read_idx s < buf_end s"
proof -
  have "read_idx s \<noteq> buf_end s" using reader_ok_used_up [OF assms(1)] assms(2,3) by auto
  moreover have "read_idx s \<le> buf_end s" using assms(1) by (auto simp: reader_ok_def)
  ultimately show ?thesis by simp
qed

lemma reader_ok_pending_Nil:
  assumes "reader_ok s" "pending s = []"
  shows "read_idx s = buf_end s"
  using reader_ok_buffered [OF assms(1)] assms(2) assms(1) unfolding reader_ok_def
  by (metis le_neq_implies_less list.distinct(1))

lemma get_value_loop_past_end:
  assumes "reader_ok s" "tail_unwritten s" "\<forall>c\<in>set (pending s). \<not> is_sep c"
  shows "get_value_loop ret s = Inl Uninitialised"
  using assms
proof (induction "pending s" arbitrary: ret s)
  case Nil
  then have "read_idx s = buf_end s" by (metis reader_ok_pending_Nil)
  with Nil.prems(2) have "next_char s = Inl Uninitialised"
    by (simp add: next_char_def peek_def read_buf_def tail_unwritten_def)
  then show ?case by (simp add: get_value_loop.simps [of ret s])
next
  case (Cons c cs)
  define t where "t = s\<lparr>read_idx := read_idx s + 1, offset' := offset' s + 1\<rparr>"
  from Cons have i: "read_idx s < buf_end s"
    by (metis reader_ok_pending_Cons tail_unwritten_def)
  have p: "pending s = c # cs" using Cons.hyps(2) by simp
  have n: "next_char s = Inr (c, t)"
    unfolding t_def by (rule next_char_buffered [OF Cons.prems(1) p i])
  have pt: "pending t = cs"
    unfolding t_def by (rule pending_advance [OF Cons.prems(1) p])
  have "reader_ok t" unfolding t_def by (rule advance_ok [OF Cons.prems(1) i])
  moreover have "tail_unwritten t" using Cons.prems(2) by (simp add: t_def tail_unwritten_def)
  ultimately have "get_value_loop (ret @ [c]) t = Inl Uninitialised"
    using Cons.hyps(1) [of t] Cons.prems(3) pt p by simp
  with n p Cons.prems(3) show ?case by (simp add: get_value_loop.simps [of ret s])
qed

lemma next_char_refill:
  assumes full: "read_idx s = buf_end s" "buf_end s = BUFFER_SIZE s" and r: "refill s = Inr s'"
    and bs: "0 < BUFFER_SIZE s" and ok: "reader_ok s'"
  shows "next_char s = next_char s'"
proof -
  have idx: "read_idx s' = 0" "BUFFER_SIZE s' = BUFFER_SIZE s" using r by (auto elim: refill_Inr)
  have pk: "peek s = (if buf_end s' = 0 then Inr (EOF_char, s')
      else rbind (read_buf s' 0) (\<lambda>c. Inr (c, s')))"
    using full r idx by (simp add: peek_def)
  show ?thesis
  proof (cases "buf_end s' = 0")
    case True
    with pk full idx bs show ?thesis by (simp add: next_char_def peek_def)
  next
    case False
    with reader_ok_buffered [OF ok] idx obtain c where "read_buf s' 0 = Inr c" by auto
    with False pk full idx show ?thesis by (simp add: next_char_def)
  qed
qed

lemma get_value_fresh_past_end:
  assumes ok: "reader_ok s" and full: "read_idx s = buf_end s" "buf_end s = BUFFER_SIZE s"
    and fresh: "read_buffer s = (\<lambda>_. None)" and small: "length (pending s) < BUFFER_SIZE s"
    and nosep: "\<forall>c\<in>set (pending s). \<not> is_sep c"
  shows "get_value s = Inl Uninitialised"
proof -
  from refill_ok [OF ok full] obtain s' where s': "refill s = Inr s'" "reader_ok s'"
    "offset' s' = offset' s" "contents s' = contents s" "BUFFER_SIZE s' = BUFFER_SIZE s"
    "buf_end s' = min (BUFFER_SIZE s) (length (pending s))"
    "read_buffer s' = store_bytes (take (BUFFER_SIZE s) (pending s)) (read_buffer s)"
    by metis
  have p: "pending s' = pending s" using s' by (simp add: pending_offset)
  have "tail_unwritten s'"
    using s' small fresh by (simp add: tail_unwritten_def store_bytes_def)
  then have "get_value_loop [] s' = Inl Uninitialised"
    using get_value_loop_past_end [OF s'(2)] nosep p by simp
  moreover have "next_char s = next_char s'"
    using next_char_refill [OF full s'(1) _ s'(2)] ok by (auto simp: reader_ok_def)
  ultimately show ?thesis
    by (simp add: get_value_def get_value_loop.simps [of "[]" s] get_value_loop.simps [of "[]" s'])
qed

section \<open>Properties\<close>

text \<open>
  (C18) \<open>get_value\<close> delivers the bytes of the file up to the next comma or newline, whatever
  the size of the buffer and however the value straddles its refills: it returns exactly
  that value, consumes it together with its separator, and advances \<open>offset()\<close> by as much.
\<close>

theorem get_value_correct:
  assumes "reader_ok s" "pending s = v @ sep # rest" "is_sep sep" "\<forall>c\<in>set v. \<not> is_sep c"
  shows "\<exists>s'. get_value s = Inr (v, s') \<and> reader_ok s' \<and> pending s' = rest \<and>
    offset s' = offset s + int (length v) + 1 \<and> contents s' = contents s"
  using csv.gv_pending [OF assms] by metis

theorem get_value_correct_witness:
  "\<exists>s'. get_value (BufferedReader (Some \<lparr>f_contents = ''ab,cd'', f_pos = 0\<rparr>)) = Inr (''ab'', s') \<and>
     reader_ok s' \<and> pending s' = ''cd'' \<and> offset s' = 3 \<and> contents s' = ''ab,cd''"
  using get_value_correct [of "BufferedReader (Some \<lparr>f_contents = ''ab,cd'', f_pos = 0\<rparr>)"
      "''ab''" "CHR '',''" "''cd''"]
    reader_ok_new [of "\<lparr>f_contents = ''ab,cd'', f_pos = 0\<rparr>"]
  by (simp add: pending_def offset_def contents_def BufferedReader_def is_sep_def)

text \<open>
  \<open>peek\<close> answers the next byte of the file, or the byte \<open>0xFF\<close> to which \<open>EOF\<close> is
  narrowed at its end, and consumes nothing, also when it has to refill the buffer.
\<close>

theorem peek_correct:
  assumes "reader_ok s"
  shows "\<exists>s'. peek s = Inr (case pending s of [] \<Rightarrow> EOF_char | c # _ \<Rightarrow> c, s') \<and> reader_ok s' \<and>
    pending s' = pending s \<and> offset s' = offset s \<and> contents s' = contents s"
  using csv.pk_pending [OF assms] unfolding next_byte_def by metis

theorem peek_correct_witness:
  "\<exists>s'. peek (BufferedReader (Some \<lparr>f_contents = ''x\<newline>'', f_pos = 0\<rparr>)) = Inr (CHR ''x'', s') \<and>
     reader_ok s' \<and> pending s' = ''x\<newline>''"
  using peek_correct [of "BufferedReader (Some \<lparr>f_contents = ''x\<newline>'', f_pos = 0\<rparr>)"]
    reader_ok_new [of "\<lparr>f_contents = ''x\<newline>'', f_pos = 0\<rparr>"]
  by (auto simp: pending_def offset_def contents_def BufferedReader_def)

text \<open>
  (C19) An offset that was reported by one reader is a restart point for another: seeking to
  it in a newly opened reader of the same file leaves exactly the bytes the first reader
  had not delivered.
\<close>

theorem seek_resumes:
  assumes "reader_ok s"
  shows "\<exists>r. seek (offset s) (BufferedReader (Some \<lparr>f_contents = contents s, f_pos = 0\<rparr>)) = Inr r \<and>
    reader_ok r \<and> pending r = pending s \<and> offset r = offset s"
proof -
  have "reader_ok (BufferedReader (Some \<lparr>f_contents = contents s, f_pos = 0\<rparr>))"
    by (rule reader_ok_new) simp
  then obtain r where "seek (offset s) (BufferedReader (Some \<lparr>f_contents = contents s, f_pos = 0\<rparr>)) = Inr r"
    "reader_ok r" "offset r = offset s" "contents r = contents s"
    using csv.off_law [OF assms] by (rule seek_ok) (auto simp: contents_def BufferedReader_def)
  then show ?thesis by (auto simp: pending_def)
qed

theorem seek_resumes_witness:
  "\<exists>r. seek 0 (BufferedReader (Some \<lparr>f_contents = ''q,r'', f_pos = 0\<rparr>)) = Inr r \<and>
    reader_ok r \<and> pending r = ''q,r'' \<and> offset r = 0"
  using seek_resumes [of "BufferedReader (Some \<lparr>f_contents = ''q,r'', f_pos = 0\<rparr>)"]
    reader_ok_new [of "\<lparr>f_contents = ''q,r'', f_pos = 0\<rparr>"]
  by (simp add: pending_def offset_def contents_def BufferedReader_def)

text \<open>
  (C33) A last value without a terminating comma or newline is not returned: on a newly opened
  or newly sought reader whose rest of the file is smaller than the buffer and holds no
  separator, \<open>get_value\<close> runs past the bytes that were read, into memory that was never
  initialised.
\<close>

theorem get_value_unterminated:
  assumes "f_pos f = 0" "0 \<le> off"
    and "seek off (BufferedReader (Some f)) = Inr s"
    and "length (pending s) < 4 * 1024 * 1024"
    and "\<forall>c\<in>set (pending s). c \<noteq> CHR '','' \<and> c \<noteq> CHR 0x0A"
  shows "get_value s = Inl Uninitialised"
proof -
  obtain s' where "seek off (BufferedReader (Some f)) = Inr s'" "reader_ok s'"
    "BUFFER_SIZE s' = BUFFER_SIZE (BufferedReader (Some f))"
    "read_buffer s' = read_buffer (BufferedReader (Some f))"
    "read_idx s' = BUFFER_SIZE (BufferedReader (Some f))"
    "buf_end s' = BUFFER_SIZE (BufferedReader (Some f))"
    using seek_ok [OF reader_ok_new [OF assms(1)] assms(2)] by metis
  with assms(3-5) show ?thesis
    by (intro get_value_fresh_past_end) (simp_all add: BufferedReader_def is_sep_def)
qed

theorem get_value_unterminated_witness:
  "\<exists>s. seek 3 (BufferedReader (Some \<lparr>f_contents = ''ab,cd'', f_pos = 0\<rparr>)) = Inr s \<and>
    get_value s = Inl Uninitialised"
  using get_value_unterminated [of "\<lparr>f_contents = ''ab,cd'', f_pos = 0\<rparr>" 3]
  by (simp add: seek_def fseek_set_def BufferedReader_def pending_def offset_def contents_def)

end
