(* ===== verification/Ddl.thy ===== *)
theory Ddl
  imports Prelude
begin

text \<open>
  \<^verbatim>\<open>parse_ddl\<close> of \<^verbatim>\<open>src/utils.cpp\<close>: the hand-written scanner that reads the column names, the
  \<open>float\<close> and \<open>double\<close> columns and the key columns out of a CREATE TABLE statement.

  The scanner moves an index over a zero-terminated string without looking for the
  terminator, so running past it is a fault of the model.
\<close>

section \<open>The result\<close>

record DDLInfo =
  field_names :: "string list"
  unique_mask :: "16 word"
  float_mask :: "16 word"
  double_mask :: "16 word"

section \<open>Moving over the text\<close>

text \<open>\<open>while (P(ddl[pos])) pos++;\<close>\<close>

function scan_while :: "(char \<Rightarrow> bool) \<Rightarrow> string \<Rightarrow> nat \<Rightarrow> nat res" where
  "scan_while P ddl pos =
     rbind (cstr_at ddl pos) (\<lambda>c. if P c then scan_while P ddl (Suc pos) else Inr pos)"
  by pat_completeness auto
termination
  by (relation "measure (\<lambda>(P, ddl, pos). Suc (length ddl) - pos)")
     (auto dest: cstr_at_Inr)

declare scan_while.simps [simp del]

text \<open>The characters from \<open>ddl[b]\<close> up to, not including, \<open>ddl[e]\<close>.\<close>

definition slice :: "nat \<Rightarrow> nat \<Rightarrow> 'a list \<Rightarrow> 'a list" where
  "slice b e xs = take (e - b) (drop b xs)"

definition next_token :: "string \<Rightarrow> nat \<Rightarrow> (string \<times> nat) res" where
  "next_token ddl pos =
     rbind (scan_while (\<lambda>c. c = CHR '' '') ddl pos) (\<lambda>pos_beg.
     rbind (scan_while (\<lambda>c. c \<noteq> CHR '' '') ddl pos_beg) (\<lambda>pos_end.
       Inr (slice pos_beg pos_end ddl, pos_end)))"

definition next_key_token :: "string \<Rightarrow> nat \<Rightarrow> (string \<times> nat) res" where
  "next_key_token ddl pos =
     rbind (scan_while (\<lambda>c. c = CHR '' '' \<or> c = CHR '','') ddl pos) (\<lambda>pos_beg.
     rbind (scan_while (\<lambda>c. c \<noteq> CHR '' '' \<and> c \<noteq> CHR '','' \<and> c \<noteq> CHR '')'') ddl pos_beg) (\<lambda>pos_end.
       Inr (slice pos_beg pos_end ddl, pos_end)))"

section \<open>The map from column names to indices\<close>

text \<open>
  \<open>ska::flat_hash_map<std::string, int>\<close>, of which the scanner uses \<open>m[k] = v\<close>, \<open>m[k]\<close>
  (which inserts 0 for a missing key) and \<open>m.size()\<close>.
\<close>

type_synonym index_map = "(string \<times> nat) list"

fun map_set :: "string \<Rightarrow> nat \<Rightarrow> index_map \<Rightarrow> index_map" where
  "map_set k v [] = [(k, v)]"
| "map_set k v ((k', v') # m) = (if k = k' then (k, v) # m else (k', v') # map_set k v m)"

definition map_index :: "string \<Rightarrow> index_map \<Rightarrow> nat \<times> index_map" where
  "map_index k m = (case map_of m k of Some v \<Rightarrow> (v, m) | None \<Rightarrow> (0, map_set k 0 m))"

section \<open>The scanner\<close>

record ddl_state =
  ds_pos :: nat
  ds_field_names :: "string list"
  ds_map :: index_map
  ds_index :: nat
  ds_unique_mask :: "16 word"
  ds_float_mask :: "16 word"
  ds_double_mask :: "16 word"

text \<open>\<open>std::tolower\<close> on an \<open>unsigned char\<close>, in the C locale the program runs in.\<close>

definition tolower :: "char \<Rightarrow> char" where
  "tolower c =
     (let n = of_char c :: nat in if 65 \<le> n \<and> n \<le> 90 then char_of (n + 32) else c)"

text \<open>\<open>mask |= static_cast<int>(b) << i\<close> on a \<open>uint16_t\<close> mask.\<close>

definition or_shl :: "16 word \<Rightarrow> bool \<Rightarrow> nat \<Rightarrow> 16 word" where
  "or_shl m b i = m OR ucast (push_bit i (of_bool b) :: 32 word)"

definition or_bool_shl :: "16 word \<Rightarrow> bool \<Rightarrow> nat \<Rightarrow> 16 word res" where
  "or_bool_shl m b i = (if i < 32 then Inr (or_shl m b i) else Inl Shift_Too_Wide)"

definition field_line :: "string \<Rightarrow> string \<Rightarrow> ddl_state \<Rightarrow> ddl_state res" where
  "field_line ddl field_name st =
     rbind (next_token ddl (ds_pos st)) (\<lambda>(tok, pos).
       let field_type = map tolower tok in
       rbind (or_bool_shl (ds_float_mask st) (field_type = ''float'') (ds_index st)) (\<lambda>fm.
       rbind (or_bool_shl (ds_double_mask st) (field_type = ''double'') (ds_index st)) (\<lambda>dm.
         Inr (st\<lparr>ds_pos := pos, ds_float_mask := fm, ds_double_mask := dm,
                 ds_map := map_set field_name (ds_index st) (ds_map st),
                 ds_field_names := ds_field_names st @ [field_name],
                 ds_index := Suc (ds_index st)\<rparr>))))"

lemma scan_while_bounds:
  "scan_while P ddl pos = Inr p \<Longrightarrow> pos \<le> p \<and> p \<le> length ddl"
proof (induction P ddl pos rule: scan_while.induct)
  case (1 P ddl pos)
  from "1.prems" obtain c where c: "cstr_at ddl pos = Inr c"
    and r: "(if P c then scan_while P ddl (Suc pos) else Inr pos) = Inr p"
    by (auto simp: scan_while.simps [of P ddl pos] rbind_Inr_iff)
  show ?case
  proof (cases "P c")
    case True
    with "1.IH" [OF c] r show ?thesis by simp
  next
    case False
    with r c show ?thesis by (auto dest: cstr_at_Inr)
  qed
qed

lemma next_key_token_progress:
  "next_key_token ddl pos = Inr (key, p) \<Longrightarrow> key \<noteq> [] \<Longrightarrow> pos < p \<and> p \<le> length ddl"
  by (force simp: next_key_token_def rbind_Inr_iff slice_def dest!: scan_while_bounds)

lemma next_token_bounds:
  "next_token ddl pos = Inr (tok, p) \<Longrightarrow> pos \<le> p \<and> p \<le> length ddl"
  by (force simp: next_token_def rbind_Inr_iff dest!: scan_while_bounds)

lemma next_key_token_bounds:
  "next_key_token ddl pos = Inr (tok, p) \<Longrightarrow> pos \<le> p \<and> p \<le> length ddl"
  by (force simp: next_key_token_def rbind_Inr_iff dest!: scan_while_bounds)

function key_loop :: "string \<Rightarrow> ddl_state \<Rightarrow> ddl_state res" where
  "key_loop ddl st =
     rbind (next_key_token ddl (ds_pos st)) (\<lambda>(key, pos).
       if key = [] then Inr (st\<lparr>ds_pos := pos\<rparr>)
       else
         (let (i, m) = map_index key (ds_map st) in
          rbind (shl_one i) (\<lambda>b.
            key_loop ddl (st\<lparr>ds_pos := pos, ds_map := m,
                            ds_unique_mask := ds_unique_mask st OR ucast b\<rparr>))))"
  by pat_completeness auto
termination
  by (relation "measure (\<lambda>(ddl, st). Suc (length ddl) - ds_pos st)")
     (auto dest: next_key_token_progress)

declare key_loop.simps [simp del]

definition index_line :: "string \<Rightarrow> ddl_state \<Rightarrow> ddl_state res" where
  "index_line ddl st =
     rbind (scan_while (\<lambda>c. c \<noteq> CHR ''('') ddl (ds_pos st)) (\<lambda>p.
     rbind (key_loop ddl (st\<lparr>ds_pos := Suc p\<rparr>)) (\<lambda>st'.
       Inr (st'\<lparr>ds_pos := Suc (ds_pos st')\<rparr>)))"

text \<open>
  The body of the outer loop: one definition of the table, up to the comma or closing
  parenthesis behind it, and that character.
\<close>

definition ddl_line :: "string \<Rightarrow> ddl_state \<Rightarrow> (char \<times> ddl_state) res" where
  "ddl_line ddl st =
     rbind (next_token ddl (ds_pos st)) (\<lambda>(field_name, pos).
     rbind (cstr_at field_name 0) (\<lambda>c0.
     rbind (if c0 = CHR 0x60 then field_line ddl field_name (st\<lparr>ds_pos := pos\<rparr>)
            else index_line ddl (st\<lparr>ds_pos := pos\<rparr>)) (\<lambda>st'.
     rbind (scan_while (\<lambda>c. c \<noteq> CHR '','' \<and> c \<noteq> CHR '')'') ddl (ds_pos st')) (\<lambda>p.
     rbind (cstr_at ddl p) (\<lambda>c. Inr (c, st'\<lparr>ds_pos := p\<rparr>))))))"

text \<open>Each round of the outer loop moves the index forward, inside the text.\<close>

lemma field_line_pos:
  "field_line ddl nm st = Inr st' \<Longrightarrow> ds_pos st \<le> ds_pos st'"
  by (auto simp: field_line_def rbind_Inr_iff Let_def dest!: next_token_bounds)

lemma key_loop_pos: "key_loop ddl st = Inr st' \<Longrightarrow> ds_pos st \<le> ds_pos st'"
proof (induction ddl st rule: key_loop.induct)
  case (1 ddl st)
  from "1.prems" obtain key pos where k: "next_key_token ddl (ds_pos st) = Inr (key, pos)"
    by (auto simp: key_loop.simps [of ddl st] rbind_Inr_iff)
  then have le: "ds_pos st \<le> pos" by (rule next_key_token_bounds [THEN conjunct1])
  show ?case
  proof (cases "key = []")
    case True
    with k le "1.prems" show ?thesis by (auto simp: key_loop.simps [of ddl st])
  next
    case False
    obtain i m where im: "map_index key (ds_map st) = (i, m)" by fastforce
    from "1.prems" k False im obtain b where b: "shl_one i = Inr b"
      and rec: "key_loop ddl (st\<lparr>ds_pos := pos, ds_map := m,
         ds_unique_mask := ds_unique_mask st OR ucast b\<rparr>) = Inr st'"
      by (auto simp: key_loop.simps [of ddl st] rbind_Inr_iff)
    have "pos \<le> ds_pos st'"
      using "1.IH" [OF k refl False im [symmetric] refl b rec] by simp
    with le show ?thesis by simp
  qed
qed

lemma index_line_pos: "index_line ddl st = Inr st' \<Longrightarrow> ds_pos st \<le> ds_pos st'"
  by (force simp: index_line_def rbind_Inr_iff dest!: key_loop_pos scan_while_bounds)

lemma ddl_line_pos:
  assumes "ddl_line ddl st = Inr (c, st')"
  shows "ds_pos st \<le> ds_pos st' \<and> ds_pos st' \<le> length ddl"
proof -
  from assms obtain tok pos c0 t where t: "next_token ddl (ds_pos st) = Inr (tok, pos)"
    and l: "(if c0 = CHR 0x60 then field_line ddl tok (st\<lparr>ds_pos := pos\<rparr>)
            else index_line ddl (st\<lparr>ds_pos := pos\<rparr>)) = Inr t"
    and p: "scan_while (\<lambda>c. c \<noteq> CHR '','' \<and> c \<noteq> CHR '')'') ddl (ds_pos t) = Inr (ds_pos st')"
    unfolding ddl_line_def by (auto simp: rbind_Inr_iff)
  have "pos \<le> ds_pos t"
    using l field_line_pos [of ddl tok "st\<lparr>ds_pos := pos\<rparr>" t]
      index_line_pos [of ddl "st\<lparr>ds_pos := pos\<rparr>" t]
    by (simp split: if_splits)
  with next_token_bounds [OF t] scan_while_bounds [OF p] show ?thesis by simp
qed

function ddl_lines :: "string \<Rightarrow> ddl_state \<Rightarrow> ddl_state res" where
  "ddl_lines ddl st =
     rbind (ddl_line ddl st) (\<lambda>(c, st').
       if c = CHR '')'' then Inr st' else ddl_lines ddl (st'\<lparr>ds_pos := Suc (ds_pos st')\<rparr>))"
  by pat_completeness auto
termination
  by (relation "measure (\<lambda>(ddl, st). Suc (length ddl) - ds_pos st)")
     (auto dest!: ddl_line_pos)

declare ddl_lines.simps [simp del]

text \<open>
  The default key when no index line set a bit: all columns but the last,
  \<open>(1 << (field_name_to_index.size() - 1)) - 1\<close>.  An empty map makes the shift count
  wrap to the largest \<open>size_t\<close>; a map of 32 names makes the difference overflow \<open>int\<close>.
\<close>

definition default_unique_mask :: "nat \<Rightarrow> 16 word res" where
  "default_unique_mask n =
     (if n = 0 \<or> 32 < n then Inl Shift_Too_Wide
      else if n = 32 then Inl Int_Overflow
      else Inr (ucast (push_bit (n - 1) (1 :: 32 word) - 1)))"

definition last_field :: "string list \<Rightarrow> string res" where
  "last_field names = (if names = [] then Inl Out_Of_Bounds else Inr (last names))"

definition key_or_default :: "ddl_state \<Rightarrow> 16 word res" where
  "key_or_default st =
     (if ds_unique_mask st = 0 then default_unique_mask (length (ds_map st))
      else Inr (ds_unique_mask st))"

lemma key_or_default_pos [simp]: "key_or_default (st\<lparr>ds_pos := p\<rparr>) = key_or_default st"
  by (simp add: key_or_default_def)

definition finish_ddl :: "ddl_state \<Rightarrow> DDLInfo res" where
  "finish_ddl st =
     rbind (key_or_default st) (\<lambda>um.
     rbind (last_field (ds_field_names st)) (\<lambda>l.
       if l \<noteq> ''`updated_at`'' then Inl (Exits (-1))
       else Inr \<lparr>field_names = ds_field_names st, unique_mask = um,
                 float_mask = ds_float_mask st, double_mask = ds_double_mask st\<rparr>))"

definition init_ddl :: "nat \<Rightarrow> ddl_state" where
  "init_ddl pos =
     \<lparr>ds_pos = pos, ds_field_names = [], ds_map = [], ds_index = 0,
      ds_unique_mask = 0, ds_float_mask = 0, ds_double_mask = 0\<rparr>"

definition parse_ddl :: "string \<Rightarrow> DDLInfo res" where
  "parse_ddl ddl =
     rbind (scan_while (\<lambda>c. c \<noteq> CHR ''('') ddl 0) (\<lambda>p.
     rbind (ddl_lines ddl (init_ddl (Suc p))) finish_ddl)"

section \<open>Running the scanner on known text\<close>

lemma drop_append_length: "drop pos xs = v @ w \<Longrightarrow> drop (pos + length v) xs = w"
  by (metis add.commute append_eq_conv_conj drop_drop)

lemma scan_while_run:
  "drop pos ddl = v @ c # rest \<Longrightarrow> \<forall>x\<in>set v. P x \<Longrightarrow> \<not> P c \<Longrightarrow>
     scan_while P ddl pos = Inr (pos + length v)"
proof (induction v arbitrary: pos)
  case Nil
  then show ?case by (simp add: scan_while.simps [of P ddl pos] cstr_at_drop)
next
  case (Cons x v)
  then have at: "cstr_at ddl pos = Inr x" and d: "drop (Suc pos) ddl = v @ c # rest"
    using cstr_at_drop drop_Cons_nth [of pos ddl x "v @ c # rest"] by simp_all
  from Cons.IH [OF d] Cons.prems at show ?case
    by (simp add: scan_while.simps [of P ddl pos])
qed

lemma slice_run: "drop b xs = v @ w \<Longrightarrow> slice b (b + length v) xs = v"
  by (simp add: slice_def)

lemma next_token_run:
  assumes d: "drop pos ddl = sp @ v @ CHR '' '' # rest"
    and sp: "\<forall>x\<in>set sp. x = CHR '' ''" and v: "v \<noteq> []" "CHR '' '' \<notin> set v"
  shows "next_token ddl pos = Inr (v, pos + length sp + length v)"
proof -
  obtain x v' where x: "v = x # v'" using v by (cases v) auto
  have "scan_while (\<lambda>c. c = CHR '' '') ddl pos = Inr (pos + length sp)"
    by (rule scan_while_run [of _ _ _ x "v' @ CHR '' '' # rest"]) (use d sp v x in auto)
  moreover have d': "drop (pos + length sp) ddl = v @ CHR '' '' # rest"
    using drop_append_length [OF d] .
  moreover have "scan_while (\<lambda>c. c \<noteq> CHR '' '') ddl (pos + length sp) =
      Inr (pos + length sp + length v)"
    by (rule scan_while_run [OF d']) (use v in auto)
  ultimately show ?thesis by (simp add: next_token_def slice_run)
qed

definition key_char :: "char \<Rightarrow> bool" where
  "key_char c \<longleftrightarrow> c \<noteq> CHR '' '' \<and> c \<noteq> CHR '','' \<and> c \<noteq> CHR '')''"

lemma next_key_token_run:
  assumes d: "drop pos ddl = sp @ v @ c # rest"
    and sp: "\<forall>x\<in>set sp. x = CHR '' '' \<or> x = CHR '',''"
    and v: "\<forall>x\<in>set v. key_char x" and c: "\<not> key_char c" "v = [] \<longrightarrow> c = CHR '')''"
  shows "next_key_token ddl pos = Inr (v, pos + length sp + length v)"
proof -
  obtain x w where x: "v @ c # rest = x # w" "x \<noteq> CHR '' ''" "x \<noteq> CHR '',''"
    using v c by (cases v) (auto simp: key_char_def)
  have "scan_while (\<lambda>c. c = CHR '' '' \<or> c = CHR '','') ddl pos = Inr (pos + length sp)"
    by (rule scan_while_run [of _ _ _ x w]) (use d sp x in auto)
  moreover have d': "drop (pos + length sp) ddl = v @ c # rest"
    using drop_append_length [OF d] .
  moreover have "scan_while (\<lambda>c. c \<noteq> CHR '' '' \<and> c \<noteq> CHR '','' \<and> c \<noteq> CHR '')'') ddl
      (pos + length sp) = Inr (pos + length sp + length v)"
    by (rule scan_while_run [OF d']) (use v c in \<open>auto simp: key_char_def\<close>)
  ultimately show ?thesis by (simp add: next_key_token_def slice_run)
qed

section \<open>Well-formed CREATE TABLE statements\<close>

text \<open>
  The statements the scanner is written for, as abstract syntax and its printer: a column is
  a backquoted name, a type and further attributes, an index line is a first word, text up to
  the parenthesis, the key columns and trailing text.
\<close>

datatype ddl_def =
    Column (col_name: string) (col_type: string) (col_attrs: string)
  | Key (key_word: string) (key_text: string) (key_cols: "string list") (key_attrs: string)

fun print_def :: "ddl_def \<Rightarrow> string" where
  "print_def (Column nm ty attrs) = '' '' @ nm @ '' '' @ ty @ '' '' @ attrs"
| "print_def (Key w tx ks attrs) = '' '' @ w @ '' '' @ tx @ ''('' @ join '','' ks @ '')'' @ attrs"

definition print_ddl :: "string \<Rightarrow> ddl_def list \<Rightarrow> string \<Rightarrow> string" where
  "print_ddl pre defs post = pre @ ''('' @ join '','' (map print_def defs) @ '')'' @ post"

fun wf_def :: "ddl_def \<Rightarrow> bool" where
  "wf_def (Column nm ty attrs) \<longleftrightarrow>
     nm \<noteq> [] \<and> hd nm = CHR 0x60 \<and> CHR '' '' \<notin> set nm \<and> ty \<noteq> [] \<and> CHR '' '' \<notin> set ty \<and>
     CHR '','' \<notin> set attrs \<and> CHR '')'' \<notin> set attrs"
| "wf_def (Key w tx ks attrs) \<longleftrightarrow>
     w \<noteq> [] \<and> hd w \<noteq> CHR 0x60 \<and> CHR '' '' \<notin> set w \<and> CHR ''('' \<notin> set tx \<and>
     (\<forall>k\<in>set ks. k \<noteq> [] \<and> (\<forall>c\<in>set k. key_char c)) \<and>
     CHR '','' \<notin> set attrs \<and> CHR '')'' \<notin> set attrs"

text \<open>What a definition does to the state of the scanner, apart from its position.\<close>

definition apply_key :: "string \<Rightarrow> ddl_state \<Rightarrow> ddl_state" where
  "apply_key k st = st\<lparr>ds_unique_mask :=
     ds_unique_mask st OR ucast (push_bit (the (map_of (ds_map st) k)) (1 :: 32 word))\<rparr>"

definition is_type :: "string \<Rightarrow> string \<Rightarrow> bool" where
  "is_type t ty \<longleftrightarrow> map tolower ty = t"

fun apply_def :: "ddl_def \<Rightarrow> ddl_state \<Rightarrow> ddl_state" where
  "apply_def (Column nm ty attrs) st = st\<lparr>
     ds_field_names := ds_field_names st @ [nm],
     ds_map := map_set nm (ds_index st) (ds_map st),
     ds_index := Suc (ds_index st),
     ds_float_mask := or_shl (ds_float_mask st) (is_type ''float'' ty) (ds_index st),
     ds_double_mask := or_shl (ds_double_mask st) (is_type ''double'' ty) (ds_index st)\<rparr>"
| "apply_def (Key w tx ks attrs) st = fold apply_key ks st"

definition key_known :: "ddl_state \<Rightarrow> string \<Rightarrow> bool" where
  "key_known st k \<longleftrightarrow> (\<exists>i<32. map_of (ds_map st) k = Some i)"

fun can_apply :: "ddl_def \<Rightarrow> ddl_state \<Rightarrow> bool" where
  "can_apply (Column nm ty attrs) st \<longleftrightarrow> ds_index st < 32"
| "can_apply (Key w tx ks attrs) st \<longleftrightarrow> (\<forall>k\<in>set ks. key_known st k)"

lemma apply_key_frame [simp]:
  "ds_map (apply_key k st) = ds_map st" "ds_pos (apply_key k st) = ds_pos st"
  by (simp_all add: apply_key_def)

lemma apply_key_pos: "apply_key k (st\<lparr>ds_pos := p\<rparr>) = (apply_key k st)\<lparr>ds_pos := p\<rparr>"
  by (simp add: apply_key_def)

lemma apply_keys_pos: "fold apply_key ks (st\<lparr>ds_pos := p\<rparr>) = (fold apply_key ks st)\<lparr>ds_pos := p\<rparr>"
  by (induction ks arbitrary: st) (simp_all add: apply_key_pos)

lemma key_loop_end:
  assumes "drop (ds_pos st) ddl = sp @ CHR '')'' # rest" "\<forall>x\<in>set sp. x = CHR '' '' \<or> x = CHR '',''"
  shows "key_loop ddl st = Inr (st\<lparr>ds_pos := ds_pos st + length sp\<rparr>)"
  using next_key_token_run [of "ds_pos st" ddl sp "[]" "CHR '')''" rest] assms
  by (simp add: key_loop.simps [of ddl st] key_char_def)

lemma key_loop_step:
  assumes "drop (ds_pos st) ddl = sp @ k @ c # rest" "\<forall>x\<in>set sp. x = CHR '' '' \<or> x = CHR '',''"
    "\<not> key_char c" "k \<noteq> []" "\<forall>x\<in>set k. key_char x" "key_known st k"
  shows "key_loop ddl st = key_loop ddl (apply_key k (st\<lparr>ds_pos := ds_pos st + length sp + length k\<rparr>))"
proof -
  from assms(6) obtain i where i: "i < 32" "map_of (ds_map st) k = Some i"
    by (auto simp: key_known_def)
  have "next_key_token ddl (ds_pos st) = Inr (k, ds_pos st + length sp + length k)"
    by (rule next_key_token_run [OF assms(1,2,5,3)]) (use assms(4) in simp)
  with i assms(4) show ?thesis
    by (simp add: key_loop.simps [of ddl st] map_index_def shl_one_def apply_key_def)
qed

lemma key_known_frame [simp]:
  "key_known (apply_key k st) = key_known st" "key_known (st\<lparr>ds_pos := p\<rparr>) = key_known st"
  by (simp_all add: key_known_def fun_eq_iff)

lemma key_loop_run:
  assumes "drop (ds_pos st) ddl = sp @ join '','' ks @ CHR '')'' # rest"
    "\<forall>x\<in>set sp. x = CHR '' '' \<or> x = CHR '',''"
    "\<forall>k\<in>set ks. k \<noteq> [] \<and> (\<forall>c\<in>set k. key_char c)" "\<forall>k\<in>set ks. key_known st k"
  shows "key_loop ddl st =
    Inr ((fold apply_key ks st)\<lparr>ds_pos := ds_pos st + length sp + length (join '','' ks)\<rparr>)"
  using assms
proof (induction "'',''" ks arbitrary: st sp rule: join.induct)
  case 1
  then show ?case by (simp add: key_loop_end)
next
  case (2 k)
  let ?st = "apply_key k (st\<lparr>ds_pos := ds_pos st + length sp + length k\<rparr>)"
  have "key_loop ddl st = key_loop ddl ?st"
    by (rule key_loop_step [where c = "CHR '')''" and rest = rest])
      (use 2 in \<open>auto simp: key_char_def\<close>)
  moreover have "drop (ds_pos ?st) ddl = [] @ CHR '')'' # rest"
    using drop_append_length [of "ds_pos st" ddl "sp @ k" "CHR '')'' # rest"] 2
    by (simp add: add.assoc)
  then have "key_loop ddl ?st = Inr (?st\<lparr>ds_pos := ds_pos ?st\<rparr>)"
    using key_loop_end [of ?st ddl "[]" rest] by simp
  ultimately show ?case by (simp add: apply_key_pos)
next
  case (3 k k' ks)
  let ?st = "apply_key k (st\<lparr>ds_pos := ds_pos st + length sp + length k\<rparr>)"
  let ?w = "join '','' (k' # ks) @ CHR '')'' # rest"
  have "key_loop ddl st = key_loop ddl ?st"
    by (rule key_loop_step [where c = "CHR '',''" and rest = ?w])
      (use 3 in \<open>auto simp: key_char_def\<close>)
  moreover have "drop (ds_pos ?st) ddl = '','' @ ?w"
    using drop_append_length [of "ds_pos st" ddl "sp @ k" "'','' @ ?w"] 3
    by (simp add: add.assoc)
  then have "key_loop ddl ?st = Inr ((fold apply_key (k' # ks) ?st)
      \<lparr>ds_pos := ds_pos ?st + 1 + length (join '','' (k' # ks))\<rparr>)"
    using 3(1) [of ?st "'',''"] 3(4,5) by simp
  ultimately show ?case
    by (simp add: apply_key_pos apply_keys_pos add.assoc)
qed

lemma field_line_run:
  assumes "drop (ds_pos st) ddl = CHR '' '' # ty @ CHR '' '' # rest" "ty \<noteq> []" "CHR '' '' \<notin> set ty"
    "ds_index st < 32"
  shows "field_line ddl nm st =
    Inr ((apply_def (Column nm ty attrs) st)\<lparr>ds_pos := ds_pos st + 1 + length ty\<rparr>)"
  using next_token_run [of "ds_pos st" ddl "'' ''" ty rest] assms
  by (simp add: field_line_def or_bool_shl_def is_type_def Let_def)

lemma index_line_run:
  assumes "drop (ds_pos st) ddl = CHR '' '' # tx @ ''('' @ join '','' ks @ CHR '')'' # rest"
    "CHR ''('' \<notin> set tx" "\<forall>k\<in>set ks. k \<noteq> [] \<and> (\<forall>c\<in>set k. key_char c)"
    "\<forall>k\<in>set ks. key_known st k"
  shows "index_line ddl st = Inr ((fold apply_key ks st)
    \<lparr>ds_pos := ds_pos st + length tx + length (join '','' ks) + 3\<rparr>)"
proof -
  let ?p = "ds_pos st + length ('' '' @ tx)"
  have s: "scan_while (\<lambda>c. c \<noteq> CHR ''('') ddl (ds_pos st) = Inr ?p"
    by (rule scan_while_run [where rest = "join '','' ks @ CHR '')'' # rest"])
      (use assms in auto)
  have d: "drop (Suc ?p) ddl = [] @ join '','' ks @ CHR '')'' # rest"
    using drop_append_length [of "ds_pos st" ddl "'' '' @ tx @ ''(''"] assms(1) by simp
  have "key_loop ddl (st\<lparr>ds_pos := Suc ?p\<rparr>) = Inr ((fold apply_key ks (st\<lparr>ds_pos := Suc ?p\<rparr>))
      \<lparr>ds_pos := Suc ?p + length (join '','' ks)\<rparr>)"
    using key_loop_run [of "st\<lparr>ds_pos := Suc ?p\<rparr>" ddl "[]" ks rest] d assms(3,4) by simp
  with s show ?thesis by (simp add: index_line_def apply_keys_pos)
qed

lemma apply_def_pos: "apply_def d (st\<lparr>ds_pos := p\<rparr>) = (apply_def d st)\<lparr>ds_pos := p\<rparr>"
  by (cases d) (simp_all add: apply_keys_pos)

definition ends_def :: "char \<Rightarrow> bool" where
  "ends_def c \<longleftrightarrow> c = CHR '','' \<or> c = CHR '')''"

lemma ddl_line_finish:
  assumes "drop pos ddl = attrs @ c # rest" "ends_def c" "CHR '','' \<notin> set attrs" "CHR '')'' \<notin> set attrs"
  shows "rbind (scan_while (\<lambda>c. c \<noteq> CHR '','' \<and> c \<noteq> CHR '')'') ddl pos) (\<lambda>p.
     rbind (cstr_at ddl p) (\<lambda>c. Inr (c, st'\<lparr>ds_pos := p\<rparr>))) = Inr (c, st'\<lparr>ds_pos := pos + length attrs\<rparr>)"
proof -
  have "scan_while (\<lambda>c. c \<noteq> CHR '','' \<and> c \<noteq> CHR '')'') ddl pos = Inr (pos + length attrs)"
    by (rule scan_while_run [OF assms(1)]) (use assms in \<open>auto simp: ends_def_def\<close>)
  then show ?thesis
    using cstr_at_drop [OF drop_append_length [OF assms(1)]] by simp
qed

lemma ddl_line_run:
  assumes d: "drop (ds_pos st) ddl = print_def d @ c # rest" and c: "ends_def c"
    and wf: "wf_def d" and can: "can_apply d st"
  shows "ddl_line ddl st = Inr (c, (apply_def d st)\<lparr>ds_pos := ds_pos st + length (print_def d)\<rparr>)"
proof (cases d)
  case (Column nm ty attrs)
  let ?p = "ds_pos st + length '' '' + length nm"
  let ?tail = "ty @ CHR '' '' # attrs @ c # rest"
  have nm: "nm \<noteq> []" "CHR '' '' \<notin> set nm" and nm0: "cstr_at nm 0 = Inr (CHR 0x60)"
    using wf Column by (auto simp: cstr_at_def hd_conv_nth)
  have d1: "drop (ds_pos st) ddl = '' '' @ nm @ CHR '' '' # ?tail"
    using d Column by simp
  have tok: "next_token ddl (ds_pos st) = Inr (nm, ?p)"
    by (rule next_token_run [OF d1]) (use nm in auto)
  have d2: "drop ?p ddl = CHR '' '' # ?tail"
    using drop_append_length [of "ds_pos st" ddl "'' '' @ nm"] d1 by (simp add: add.assoc)
  have fl: "field_line ddl nm (st\<lparr>ds_pos := ?p\<rparr>) =
      Inr ((apply_def d (st\<lparr>ds_pos := ?p\<rparr>))\<lparr>ds_pos := ?p + 1 + length ty\<rparr>)"
    using field_line_run [of "st\<lparr>ds_pos := ?p\<rparr>" ddl ty "attrs @ c # rest" nm attrs] d2 wf can Column
    by simp
  have d3: "drop (?p + 1 + length ty) ddl = ('' '' @ attrs) @ c # rest"
    using drop_append_length [of ?p ddl "'' '' @ ty"] d2 by (simp add: add.assoc)
  show ?thesis
    using tok nm0 fl ddl_line_finish [OF d3 c, of "apply_def d st"] wf Column
    by (simp add: add.assoc ddl_line_def apply_def_pos del: apply_def.simps)
next
  case (Key w tx ks attrs)
  let ?p = "ds_pos st + length '' '' + length w"
  let ?tail = "tx @ ''('' @ join '','' ks @ CHR '')'' # attrs @ c # rest"
  have w: "w \<noteq> []" "CHR '' '' \<notin> set w" and w0: "cstr_at w 0 = Inr (w ! 0)" "w ! 0 \<noteq> CHR 0x60"
    using wf Key by (auto simp: cstr_at_def hd_conv_nth)
  have d1: "drop (ds_pos st) ddl = '' '' @ w @ CHR '' '' # ?tail"
    using d Key by simp
  have tok: "next_token ddl (ds_pos st) = Inr (w, ?p)"
    by (rule next_token_run [OF d1]) (use w in auto)
  have d2: "drop ?p ddl = CHR '' '' # ?tail"
    using drop_append_length [of "ds_pos st" ddl "'' '' @ w"] d1 by (simp add: add.assoc)
  let ?q = "?p + length tx + length (join '','' ks) + 3"
  have il: "index_line ddl (st\<lparr>ds_pos := ?p\<rparr>) = Inr ((fold apply_key ks st)\<lparr>ds_pos := ?q\<rparr>)"
    using index_line_run [of "st\<lparr>ds_pos := ?p\<rparr>" ddl tx ks "attrs @ c # rest"] d2 wf can Key
    by (simp add: apply_keys_pos)
  have "drop (?p + length ('' '' @ tx @ ''('' @ join '','' ks @ '')'')) ddl = attrs @ c # rest"
    by (rule drop_append_length) (use d2 in simp)
  moreover have "?p + length ('' '' @ tx @ ''('' @ join '','' ks @ '')'') = ?q" by simp
  ultimately have d3: "drop ?q ddl = attrs @ c # rest" by metis
  have "ddl_line ddl st = Inr (c, (fold apply_key ks st)\<lparr>ds_pos := ?q + length attrs\<rparr>)"
    using tok w0 il ddl_line_finish [OF d3 c, of "fold apply_key ks st"] wf Key
    by (simp add: ddl_line_def)
  moreover have "?q + length attrs = ds_pos st + length (print_def d)"
    using Key by simp
  ultimately show ?thesis using Key by simp
qed

fun can_apply_all :: "ddl_def list \<Rightarrow> ddl_state \<Rightarrow> bool" where
  "can_apply_all [] st \<longleftrightarrow> True"
| "can_apply_all (d # ds) st \<longleftrightarrow> can_apply d st \<and> can_apply_all ds (apply_def d st)"

lemma can_apply_pos [simp]: "can_apply d (st\<lparr>ds_pos := p\<rparr>) = can_apply d st"
  by (cases d) simp_all

lemma can_apply_all_pos [simp]: "can_apply_all ds (st\<lparr>ds_pos := p\<rparr>) = can_apply_all ds st"
  by (induction ds arbitrary: st) (simp_all add: apply_def_pos)

lemma fold_apply_def_pos: "fold apply_def ds (st\<lparr>ds_pos := p\<rparr>) = (fold apply_def ds st)\<lparr>ds_pos := p\<rparr>"
  by (induction ds arbitrary: st) (simp_all add: apply_def_pos)

lemma ddl_lines_run:
  assumes "drop (ds_pos st) ddl = join '','' (map print_def ds) @ CHR '')'' # rest" "ds \<noteq> []"
    "\<forall>d\<in>set ds. wf_def d" "can_apply_all ds st"
  shows "\<exists>p. ddl_lines ddl st = Inr ((fold apply_def ds st)\<lparr>ds_pos := p\<rparr>)"
  using assms
proof (induction ds arbitrary: st rule: induct_list012)
  case 1
  then show ?case by simp
next
  case (2 d)
  have "ddl_line ddl st =
      Inr (CHR '')'', (apply_def d st)\<lparr>ds_pos := ds_pos st + length (print_def d)\<rparr>)"
    by (rule ddl_line_run) (use 2 in \<open>auto simp: ends_def_def\<close>)
  then show ?case by (auto simp: ddl_lines.simps [of ddl st])
next
  case (3 d d' ds)
  let ?rest = "join '','' (map print_def (d' # ds)) @ CHR '')'' # rest"
  let ?st = "(apply_def d st)\<lparr>ds_pos := Suc (ds_pos st + length (print_def d))\<rparr>"
  have "ddl_line ddl st =
      Inr (CHR '','', (apply_def d st)\<lparr>ds_pos := ds_pos st + length (print_def d)\<rparr>)"
    by (rule ddl_line_run [where rest = ?rest]) (use 3 in \<open>auto simp: ends_def_def\<close>)
  then have "ddl_lines ddl st = ddl_lines ddl ?st"
    by (simp add: ddl_lines.simps [of ddl st])
  moreover have "drop (ds_pos ?st) ddl = ?rest"
    using drop_append_length [of "ds_pos st" ddl "print_def d @ '',''" ?rest] 3(3) by simp
  ultimately show ?case
    using 3(2) [of ?st] 3(5,6) by (simp add: fold_apply_def_pos apply_def_pos)
qed

section \<open>What the masks mean\<close>

fun columns :: "ddl_def list \<Rightarrow> (string \<times> string) list" where
  "columns [] = []"
| "columns (Column nm ty attrs # ds) = (nm, ty) # columns ds"
| "columns (Key w tx ks attrs # ds) = columns ds"

fun key_columns :: "ddl_def list \<Rightarrow> string list" where
  "key_columns [] = []"
| "key_columns (Column nm ty attrs # ds) = key_columns ds"
| "key_columns (Key w tx ks attrs # ds) = ks @ key_columns ds"

text \<open>Every index line names columns defined before it, \<open>seen\<close> being the ones so far.\<close>

fun keys_declared :: "string set \<Rightarrow> ddl_def list \<Rightarrow> bool" where
  "keys_declared seen [] \<longleftrightarrow> True"
| "keys_declared seen (Column nm ty attrs # ds) \<longleftrightarrow> keys_declared (insert nm seen) ds"
| "keys_declared seen (Key w tx ks attrs # ds) \<longleftrightarrow> set ks \<subseteq> seen \<and> keys_declared seen ds"

text \<open>
  The state of the scanner after the columns \<open>cs\<close> and the keys \<open>ks\<close>: bit \<open>i\<close> of a mask
  speaks about column \<open>i\<close>, and a \<open>uint16_t\<close> has no bit for a column from 16 on.
\<close>

definition represents :: "ddl_state \<Rightarrow> (string \<times> string) list \<Rightarrow> string list \<Rightarrow> bool" where
  "represents st cs ks \<longleftrightarrow>
     ds_field_names st = map fst cs \<and> ds_index st = length cs \<and>
     length (ds_map st) = length cs \<and> dom (map_of (ds_map st)) = fst ` set cs \<and>
     (\<forall>i<length cs. map_of (ds_map st) (fst (cs ! i)) = Some i) \<and>
     (\<forall>i<16. bit (ds_unique_mask st) i \<longleftrightarrow> i < length cs \<and> fst (cs ! i) \<in> set ks) \<and>
     (\<forall>i<16. bit (ds_float_mask st) i \<longleftrightarrow> i < length cs \<and> is_type ''float'' (snd (cs ! i))) \<and>
     (\<forall>i<16. bit (ds_double_mask st) i \<longleftrightarrow> i < length cs \<and> is_type ''double'' (snd (cs ! i)))"

lemma map_of_map_set: "map_of (map_set k v m) = (map_of m)(k \<mapsto> v)"
  by (induction k v m rule: map_set.induct) (auto simp: fun_eq_iff)

lemma length_map_set: "map_of m k = None \<Longrightarrow> length (map_set k v m) = Suc (length m)"
  by (induction k v m rule: map_set.induct) (auto split: if_splits)

lemma bit_or_shl:
  "n < 32 \<Longrightarrow> i < 16 \<Longrightarrow>
     bit (or_shl m b n) i \<longleftrightarrow> bit m i \<or> i = n \<and> b"
  by (auto simp: or_shl_def bit_or_iff bit_ucast_iff bit_push_bit_iff bit_of_bool_iff)

lemma bit_or_shl_one:
  "n < 32 \<Longrightarrow> i < 16 \<Longrightarrow>
     bit (m OR ucast (2 ^ n :: 32 word) :: 16 word) i \<longleftrightarrow> bit m i \<or> i = n"
  using bit_or_shl [of n i m True] by (simp add: or_shl_def)

lemma represents_column:
  assumes r: "represents st cs ks" and new: "nm \<notin> fst ` set cs" and n: "length cs < 32"
    and sub: "set ks \<subseteq> fst ` set cs"
  shows "represents (apply_def (Column nm ty attrs) st) (cs @ [(nm, ty)]) ks"
proof -
  have "map_of (ds_map st) nm = None"
    using r new unfolding represents_def by (metis domIff)
  with r new n sub show ?thesis
    by (auto simp: represents_def map_of_map_set length_map_set nth_append less_Suc_eq bit_or_shl)
qed

lemma represents_key:
  assumes r: "represents st cs ks" and k: "k \<in> fst ` set cs" and n: "length cs \<le> 32"
    and dist: "distinct (map fst cs)"
  shows "key_known st k" "represents (apply_key k st) cs (ks @ [k])"
proof -
  from k obtain j where j: "j < length cs" "k = fst (cs ! j)"
    by (auto simp: in_set_conv_nth)
  with r n show "key_known st k" by (auto simp: represents_def key_known_def intro!: exI [of _ j])
  have m: "map_of (ds_map st) k = Some j" using r j by (simp add: represents_def)
  have eq: "i = j \<longleftrightarrow> fst (cs ! i) = k" if "i < length cs" for i
    using dist that j by (metis length_map nth_eq_iff_index_eq nth_map)
  show "represents (apply_key k st) cs (ks @ [k])"
    using r n m j eq by (auto simp: represents_def apply_key_def bit_or_shl_one)
qed

lemma represents_keys:
  assumes "represents st cs ks" "set ks' \<subseteq> fst ` set cs" "length cs \<le> 32" "distinct (map fst cs)"
  shows "(\<forall>k\<in>set ks'. key_known st k) \<and> represents (fold apply_key ks' st) cs (ks @ ks')"
  using assms
proof (induction ks' arbitrary: st ks)
  case (Cons k ks')
  then have "key_known st k" "represents (apply_key k st) cs (ks @ [k])"
    using represents_key [of st cs ks k] by auto
  with Cons.IH [of "apply_key k st" "ks @ [k]"] Cons.prems show ?case by simp
qed simp

lemma represents_defs:
  assumes "represents st cs ks" "set ks \<subseteq> fst ` set cs"
    "keys_declared (fst ` set cs) ds" "length cs + length (columns ds) \<le> 32"
    "distinct (map fst cs @ map fst (columns ds))"
  shows "can_apply_all ds st \<and>
    represents (fold apply_def ds st) (cs @ columns ds) (ks @ key_columns ds)"
  using assms
proof (induction ds arbitrary: st cs ks)
  case Nil
  then show ?case by simp
next
  case (Cons d ds)
  show ?case
  proof (cases d)
    case (Column nm ty attrs)
    have r: "represents (apply_def d st) (cs @ [(nm, ty)]) ks"
      unfolding Column by (rule represents_column) (use Cons.prems Column in auto)
    have "ds_index st < 32"
      using Cons.prems(1,4) Column by (simp add: represents_def)
    then have "can_apply d st" using Column by simp
    moreover have "can_apply_all ds (apply_def d st) \<and> represents (fold apply_def ds (apply_def d st))
        ((cs @ [(nm, ty)]) @ columns ds) (ks @ key_columns ds)"
      by (rule Cons.IH [OF r]) (use Cons.prems Column in auto)
    ultimately show ?thesis by (simp add: Column)
  next
    case (Key w tx ks' attrs)
    from represents_keys [of st cs ks ks'] Cons.prems Key
    have k: "\<forall>k\<in>set ks'. key_known st k" and r: "represents (apply_def d st) cs (ks @ ks')"
      by auto
    from Cons.IH [OF r] Cons.prems Key k show ?thesis by auto
  qed
qed

lemma represents_init: "represents (init_ddl p) [] []"
  by (simp add: represents_def init_ddl_def)

lemma key_columns_declared:
  "keys_declared seen ds \<Longrightarrow> set (key_columns ds) \<subseteq> seen \<union> fst ` set (columns ds)"
  by (induction seen ds rule: keys_declared.induct) auto

lemma default_unique_mask_bits:
  assumes "0 < n" "n < 32"
  obtains um where "default_unique_mask n = Inr um" "\<forall>i<16. bit um i \<longleftrightarrow> i < n - 1"
proof
  show "default_unique_mask n = Inr (ucast (mask (n - 1) :: 32 word))"
    using assms by (simp add: default_unique_mask_def mask_eq_exp_minus_1 push_bit_of_1)
  show "\<forall>i<16. bit (ucast (mask (n - 1) :: 32 word) :: 16 word) i \<longleftrightarrow> i < n - 1"
    using assms by (auto simp: bit_ucast_iff bit_mask_iff)
qed

lemma key_bit_nonzero:
  assumes "represents st cs ks" "ks \<noteq> []" "set ks \<subseteq> fst ` set cs" "length cs \<le> 16"
  shows "ds_unique_mask st \<noteq> 0"
proof -
  from assms(2,3) obtain j where j: "j < length cs" "fst (cs ! j) \<in> set ks"
    by (cases ks) (force simp: in_set_conv_nth)+
  with assms(1,4) have "bit (ds_unique_mask st) j" by (simp add: represents_def)
  then show ?thesis by auto
qed

lemma no_key_bit:
  assumes "represents st cs []" "length cs \<le> 16"
  shows "ds_unique_mask st = 0"
  by (rule bit_word_eqI) (use assms in \<open>auto simp: represents_def\<close>)



section \<open>Properties\<close>

text \<open>What is asked of the statements below, whatever the name of the last column.\<close>

definition plain_ddl :: "string \<Rightarrow> ddl_def list \<Rightarrow> bool" where
  "plain_ddl pre defs \<longleftrightarrow>
     CHR ''('' \<notin> set pre \<and> (\<forall>d\<in>set defs. wf_def d) \<and> columns defs \<noteq> [] \<and>
     distinct (map fst (columns defs)) \<and> length (columns defs) \<le> 16 \<and> keys_declared {} defs"

lemma parse_ddl_run:
  assumes "plain_ddl pre defs"
  obtains st u where "parse_ddl (print_ddl pre defs post) = finish_ddl st"
    "represents st (columns defs) (key_columns defs)" "key_or_default st = Inr u"
    "\<forall>i<16. bit u i \<longleftrightarrow> (if key_columns defs = [] then i < length (columns defs) - 1
        else i < length (columns defs) \<and> fst (columns defs ! i) \<in> set (key_columns defs))"
proof -
  let ?ddl = "print_ddl pre defs post" and ?cs = "columns defs" and ?ks = "key_columns defs"
  let ?st = "fold apply_def defs (init_ddl (Suc (length pre)))"
  from assms have pre: "CHR ''('' \<notin> set pre" and wf: "\<forall>d\<in>set defs. wf_def d"
    and dist: "distinct (map fst ?cs)" and n: "?cs \<noteq> []" "length ?cs \<le> 16"
    and keys: "keys_declared {} defs"
    by (simp_all add: plain_ddl_def)
  have scan: "scan_while (\<lambda>c. c \<noteq> CHR ''('') ?ddl 0 = Inr (length pre)"
    using scan_while_run [of 0 ?ddl pre "CHR ''(''" "join '','' (map print_def defs) @ '')'' @ post"
      "\<lambda>c. c \<noteq> CHR ''(''"] pre
    by (auto simp: print_ddl_def)
  have rep: "can_apply_all defs (init_ddl (Suc (length pre))) \<and> represents ?st ?cs ?ks"
    using represents_defs [OF represents_init, of defs "Suc (length pre)"] dist n keys by simp
  have sub: "set ?ks \<subseteq> fst ` set ?cs"
    using key_columns_declared [OF keys] by simp
  have "defs \<noteq> []" using n by auto
  then obtain p where lines: "ddl_lines ?ddl (init_ddl (Suc (length pre))) = Inr (?st\<lparr>ds_pos := p\<rparr>)"
    using ddl_lines_run [of "init_ddl (Suc (length pre))" ?ddl defs post] wf rep
    by (auto simp: print_ddl_def init_ddl_def)
  obtain um where um: "default_unique_mask (length ?cs) = Inr um" "\<forall>i<16. bit um i \<longleftrightarrow> i < length ?cs - 1"
    using default_unique_mask_bits [of "length ?cs"] n by auto
  define u where "u = (if ?ks = [] then um else ds_unique_mask ?st)"
  have "key_or_default ?st = Inr u"
    using rep um no_key_bit [of ?st ?cs] key_bit_nonzero [of ?st ?cs ?ks] sub n
    by (auto simp: u_def represents_def key_or_default_def)
  moreover have "parse_ddl ?ddl = finish_ddl (?st\<lparr>ds_pos := p\<rparr>)"
    using scan lines by (simp add: parse_ddl_def)
  ultimately show thesis
    using that [of "?st\<lparr>ds_pos := p\<rparr>" u] rep um by (simp add: u_def represents_def)
qed

lemma parse_ddl_print:
  assumes "plain_ddl pre defs" and "fst (last (columns defs)) = ''`updated_at`''"
  shows "\<exists>info. parse_ddl (print_ddl pre defs post) = Inr info \<and>
    field_names info = map fst (columns defs) \<and>
    (\<forall>i<16. bit (float_mask info) i \<longleftrightarrow>
       i < length (columns defs) \<and> map tolower (snd (columns defs ! i)) = ''float'') \<and>
    (\<forall>i<16. bit (double_mask info) i \<longleftrightarrow>
       i < length (columns defs) \<and> map tolower (snd (columns defs ! i)) = ''double'') \<and>
    (\<forall>i<16. bit (unique_mask info) i \<longleftrightarrow>
       (if key_columns defs = [] then i < length (columns defs) - 1
        else i < length (columns defs) \<and> fst (columns defs ! i) \<in> set (key_columns defs)))"
proof -
  from assms(1) have ne: "columns defs \<noteq> []" by (simp add: plain_ddl_def)
  from parse_ddl_run [OF assms(1), of post] obtain st u where
    p: "parse_ddl (print_ddl pre defs post) = finish_ddl st"
    and r: "represents st (columns defs) (key_columns defs)" and u: "key_or_default st = Inr u"
    and bits: "\<forall>i<16. bit u i \<longleftrightarrow> (if key_columns defs = [] then i < length (columns defs) - 1
        else i < length (columns defs) \<and> fst (columns defs ! i) \<in> set (key_columns defs))"
    by blast
  have "finish_ddl st = Inr \<lparr>field_names = map fst (columns defs), unique_mask = u,
      float_mask = ds_float_mask st, double_mask = ds_double_mask st\<rparr>"
    using u r ne assms(2) by (simp add: finish_ddl_def last_field_def represents_def last_map)
  with p r bits show ?thesis by (auto simp: represents_def is_type_def)
qed

text \<open>
  (C20) On a well-formed CREATE TABLE statement of at most 16 columns ending in
  \<open>`updated_at`\<close>, \<open>parse_ddl\<close> returns the column names in order and masks in which bit
  \<open>i\<close> says that column \<open>i\<close> has type float, has type double, or belongs to a key; without
  any index line the key is every column but the last.
\<close>

theorem parse_ddl_correct:
  assumes "plain_ddl pre defs" and "fst (last (columns defs)) = ''`updated_at`''"
  shows "\<exists>info. parse_ddl (print_ddl pre defs post) = Inr info \<and>
    field_names info = map fst (columns defs) \<and>
    (\<forall>i<16. bit (float_mask info) i \<longleftrightarrow>
       i < length (columns defs) \<and> map tolower (snd (columns defs ! i)) = ''float'') \<and>
    (\<forall>i<16. bit (double_mask info) i \<longleftrightarrow>
       i < length (columns defs) \<and> map tolower (snd (columns defs ! i)) = ''double'') \<and>
    (\<forall>i<16. bit (unique_mask info) i \<longleftrightarrow>
       (if key_columns defs = [] then i < length (columns defs) - 1
        else i < length (columns defs) \<and> fst (columns defs ! i) \<in> set (key_columns defs)))"
  using assms by (rule parse_ddl_print)

text \<open>A statement of three columns with a composite primary key.\<close>

definition sample_defs :: "ddl_def list" where
  "sample_defs =
     [Column ''`id`'' ''bigint(20)'' ''NOT NULL'', Column ''`a`'' ''FLOAT'' [],
      Column ''`updated_at`'' ''datetime'' ''NOT NULL'', Key ''PRIMARY'' ''KEY '' [''`id`'', ''`a`''] []]"

theorem parse_ddl_correct_witness:
  "\<exists>info. parse_ddl (print_ddl ''CREATE TABLE t '' sample_defs ''ENGINE=InnoDB'') = Inr info \<and>
    field_names info = [''`id`'', ''`a`'', ''`updated_at`''] \<and>
    bit (float_mask info) 1 \<and> \<not> bit (float_mask info) 0 \<and>
    bit (unique_mask info) 0 \<and> bit (unique_mask info) 1 \<and> \<not> bit (unique_mask info) 2"
proof -
  have "plain_ddl ''CREATE TABLE t '' sample_defs"
    by (auto simp: plain_ddl_def sample_defs_def key_char_def)
  moreover have cs: "columns sample_defs =
      [(''`id`'', ''bigint(20)''), (''`a`'', ''FLOAT''), (''`updated_at`'', ''datetime'')]"
    "key_columns sample_defs = [''`id`'', ''`a`'']"
    by (simp_all add: sample_defs_def)
  ultimately obtain info where info:
    "parse_ddl (print_ddl ''CREATE TABLE t '' sample_defs ''ENGINE=InnoDB'') = Inr info"
    "field_names info = map fst (columns sample_defs)"
    "\<forall>i<16. bit (float_mask info) i \<longleftrightarrow> i < length (columns sample_defs) \<and>
       map tolower (snd (columns sample_defs ! i)) = ''float''"
    "\<forall>i<16. bit (unique_mask info) i \<longleftrightarrow>
       (if key_columns sample_defs = [] then i < length (columns sample_defs) - 1
        else i < length (columns sample_defs) \<and>
          fst (columns sample_defs ! i) \<in> set (key_columns sample_defs))"
    using parse_ddl_correct [of "''CREATE TABLE t ''" sample_defs "''ENGINE=InnoDB''"] by auto
  have "map tolower ''FLOAT'' = ''float''" "map tolower ''bigint(20)'' \<noteq> ''float''"
    by code_simp+
  with info(3) have "bit (float_mask info) 1" "\<not> bit (float_mask info) 0"
    by (simp_all add: cs del: list.map)
  moreover from info(4) have "bit (unique_mask info) 0" "bit (unique_mask info) 1" "\<not> bit (unique_mask info) 2"
    by (simp_all add: cs)
  ultimately show ?thesis using info(1,2) cs by auto
qed

text \<open>
  When the last column of such a statement has another name, \<open>parse_ddl\<close> ends the
  program with exit status -1.
\<close>

theorem parse_ddl_wrong_last_column:
  assumes "plain_ddl pre defs" and "fst (last (columns defs)) \<noteq> ''`updated_at`''"
  shows "parse_ddl (print_ddl pre defs post) = Inl (Exits (-1))"
proof -
  from assms(1) have ne: "columns defs \<noteq> []" by (simp add: plain_ddl_def)
  from parse_ddl_run [OF assms(1), of post] obtain st u where
    "parse_ddl (print_ddl pre defs post) = finish_ddl st"
    "represents st (columns defs) (key_columns defs)" "key_or_default st = Inr u"
    by blast
  with ne assms(2) show ?thesis
    by (simp add: finish_ddl_def last_field_def represents_def last_map)
qed

theorem parse_ddl_wrong_last_column_witness:
  "parse_ddl (print_ddl ''create table t '' [Column ''`id`'' ''int'' [], Column ''`v`'' ''float'' []] []) =
    Inl (Exits (-1))"
  by (rule parse_ddl_wrong_last_column) (simp_all add: plain_ddl_def)

text \<open>
  (C34) A column type that is followed at once by its comma, as in \<^verbatim>\<open>`a` int,\<close>, is read
  together with the comma, and the definition of the next column is then skipped as if it
  were attributes: the column \<open>b\<close> is missing from the result, and every later column has
  an index one too small.
\<close>

theorem parse_ddl_skips_column:
  assumes a: "a \<noteq> []" "hd a = CHR 0x60" "CHR '' '' \<notin> set a" and ty: "CHR '' '' \<notin> set ty"
    and b: "CHR '','' \<notin> set b_def" "CHR '')'' \<notin> set b_def"
    and rest: "plain_ddl pre rest" "a \<notin> fst ` set (columns rest)" "length (columns rest) < 16"
      "fst (last (columns rest)) = ''`updated_at`''"
  shows "\<exists>info. parse_ddl (pre @ ''( '' @ a @ '' '' @ ty @ '', '' @ b_def @ '','' @
      join '','' (map print_def rest) @ '')'' @ post) = Inr info \<and>
    field_names info = a # map fst (columns rest)"
proof -
  let ?defs = "Column a (ty @ '','') b_def # rest"
  have ne: "rest \<noteq> []" "columns rest \<noteq> []" using rest(1) by (auto simp: plain_ddl_def)
  have mono: "keys_declared seen ds \<Longrightarrow> seen \<subseteq> seen' \<Longrightarrow> keys_declared seen' ds" for seen seen' ds
    by (induction seen ds arbitrary: seen' rule: keys_declared.induct) auto
  have "plain_ddl pre ?defs"
    using assms mono [of "{}" rest "{a}"] by (auto simp: plain_ddl_def)
  from parse_ddl_print [OF this, of post] rest(4) ne
  obtain info where "parse_ddl (print_ddl pre ?defs post) = Inr info"
    "field_names info = map fst (columns ?defs)"
    by auto
  moreover have "print_ddl pre ?defs post = pre @ ''( '' @ a @ '' '' @ ty @ '', '' @ b_def @ '','' @
      join '','' (map print_def rest) @ '')'' @ post"
    using ne by (cases rest) (simp_all add: print_ddl_def)
  ultimately show ?thesis by simp
qed

theorem parse_ddl_skips_column_witness:
  "\<exists>info. parse_ddl (''t ('' @ '' `id` int, `x` float , `updated_at` datetime )'') = Inr info \<and>
    field_names info = [''`id`'', ''`updated_at`'']"
proof -
  have "\<exists>info. parse_ddl (''t '' @ ''( '' @ ''`id`'' @ '' '' @ ''int'' @ '', '' @ ''`x` float '' @ '','' @
      join '','' (map print_def [Column ''`updated_at`'' ''datetime'' []]) @ '')'' @ []) = Inr info \<and>
    field_names info = ''`id`'' # map fst (columns [Column ''`updated_at`'' ''datetime'' []])"
    by (rule parse_ddl_skips_column) (simp_all add: plain_ddl_def)
  then show ?thesis by simp
qed

end
