(* ===== verification/Cli.thy ===== *)
theory Cli
  imports Prelude
begin

text \<open>
  The command line (\<^verbatim>\<open>parse_argv\<close>, \<^verbatim>\<open>struct Config\<close>), the constants of
  \<^verbatim>\<open>src/config.h\<close>, and \<^verbatim>\<open>serialize_datetime\<close>, all but the constants from
  \<^verbatim>\<open>src/utils.h\<close> and \<^verbatim>\<open>src/utils.cpp\<close>.
\<close>

section \<open>config.h\<close>

definition NUM_CPU_CORES :: int where
  "NUM_CPU_CORES = 4"

definition SHARED_MGR_SIZE :: int where
  "SHARED_MGR_SIZE = 288 * 1024 * 1024"

definition INSERT_NUM_TUPLES :: nat where
  "INSERT_NUM_TUPLES = 500"

definition INSERTED_TABLE_RESERVED_SIZE :: nat where
  "INSERTED_TABLE_RESERVED_SIZE = 6700000"

section \<open>Command line\<close>

text \<open>A \<open>const char *\<close> is a string, or \<open>None\<close> for the null pointer.\<close>

record Config =
  data_path :: "string option"
  dst_ip :: "string option"
  dst_user :: "string option"
  dst_password :: "string option"
  dst_port :: int

text \<open>\<open>argv[argc]\<close> is the null pointer; there is nothing behind it.\<close>

definition argv_at :: "string list \<Rightarrow> nat \<Rightarrow> string option res" where
  "argv_at argv i =
     (if i < length argv then Inr (Some (argv ! i))
      else if i = length argv then Inr None else Inl Out_Of_Bounds)"

text \<open>
  \<open>atoi\<close>: white space, an optional sign, then decimal digits up to the first other
  character.  The standard leaves a value outside \<open>int\<close> undefined.
\<close>

definition is_space :: "char \<Rightarrow> bool" where
  "is_space c \<longleftrightarrow> c = CHR '' '' \<or> of_char c \<in> {9..13 :: nat}"

definition is_digit :: "char \<Rightarrow> bool" where
  "is_digit c \<longleftrightarrow> 48 \<le> (of_char c :: nat) \<and> (of_char c :: nat) \<le> 57"

definition digit_val :: "char \<Rightarrow> int" where
  "digit_val c = int (of_char c) - 48"

fun digits_value :: "int \<Rightarrow> string \<Rightarrow> int" where
  "digits_value acc [] = acc"
| "digits_value acc (c # cs) =
     (if is_digit c then digits_value (10 * acc + digit_val c) cs else acc)"

definition atoi_unbounded :: "string \<Rightarrow> int" where
  "atoi_unbounded s =
     (case dropWhile is_space s of
        [] \<Rightarrow> 0
      | c # cs \<Rightarrow>
          if c = CHR ''-'' then - digits_value 0 cs
          else if c = CHR ''+'' then digits_value 0 cs
          else digits_value 0 (c # cs))"

definition atoi :: "string option \<Rightarrow> int res" where
  "atoi p =
     (case p of
        None \<Rightarrow> Inl Null_Deref
      | Some s \<Rightarrow>
          (let n = atoi_unbounded s in
           if - (2 ^ 31) \<le> n \<and> n < 2 ^ 31 then Inr n else Inl Int_Overflow))"

definition parse_argv :: "string list \<Rightarrow> Config res" where
  "parse_argv argv =
     rbind (argv_at argv 2) (\<lambda>path.
     rbind (argv_at argv 4) (\<lambda>ip.
     rbind (argv_at argv 8) (\<lambda>user.
     rbind (argv_at argv 10) (\<lambda>password.
     rbind (rbind (argv_at argv 6) atoi) (\<lambda>port.
       Inr \<lparr>data_path = path, dst_ip = ip, dst_user = user, dst_password = password,
            dst_port = port\<rparr>)))))"

section \<open>Dates\<close>

record tm =
  tm_sec :: int
  tm_min :: int
  tm_hour :: int
  tm_mday :: int
  tm_mon :: int
  tm_year :: int
  tm_isdst :: int

text \<open>\<open>input_str[i] - '0'\<close>\<close>

definition digit_at :: "string \<Rightarrow> nat \<Rightarrow> int res" where
  "digit_at s i = rbind (cstr_at s i) (\<lambda>c. Inr (char_int c - 48))"

definition two_digits :: "string \<Rightarrow> nat \<Rightarrow> int res" where
  "two_digits s i =
     rbind (digit_at s i) (\<lambda>a. rbind (digit_at s (Suc i)) (\<lambda>b. Inr (10 * a + 1 * b)))"

text \<open>
  \<open>mktime\<close>, which depends on the time zone of the process, is a parameter.
\<close>

definition serialize_datetime :: "(tm \<Rightarrow> int) \<Rightarrow> string \<Rightarrow> int res" where
  "serialize_datetime mktime s =
     rbind (digit_at s 0) (\<lambda>y0. rbind (digit_at s 1) (\<lambda>y1.
     rbind (digit_at s 2) (\<lambda>y2. rbind (digit_at s 3) (\<lambda>y3.
     rbind (two_digits s 5) (\<lambda>mon. rbind (two_digits s 8) (\<lambda>mday.
     rbind (two_digits s 11) (\<lambda>hour. rbind (two_digits s 14) (\<lambda>min.
     rbind (two_digits s 17) (\<lambda>sec.
       Inr (mktime \<lparr>tm_sec = sec, tm_min = min, tm_hour = hour, tm_mday = mday,
                    tm_mon = mon - 1, tm_year = 1000 * y0 + 100 * y1 + 10 * y2 + 1 * y3 - 1900,
                    tm_isdst = -1\<rparr>))))))))))"

section \<open>Decimal numerals\<close>

definition digit_char :: "nat \<Rightarrow> char" where
  "digit_char d = char_of (48 + d mod 10)"

text \<open>\<open>n\<close> in \<open>w\<close> digits with leading zeros, and without.\<close>

fun pad_dec :: "nat \<Rightarrow> nat \<Rightarrow> string" where
  "pad_dec 0 n = []"
| "pad_dec (Suc w) n = pad_dec w (n div 10) @ [digit_char n]"

fun dec :: "nat \<Rightarrow> string" where
  "dec n = (if n < 10 then [digit_char n] else dec (n div 10) @ [digit_char n])"

declare dec.simps [simp del]

lemma digit_char_digit [simp]: "is_digit (digit_char d)" "digit_val (digit_char d) = int (d mod 10)"
  by (simp_all add: is_digit_def digit_char_def digit_val_def of_char_of take_bit_eq_mod)

lemma of_char_digit_char: "(of_char (digit_char d) :: nat) = 48 + d mod 10"
  by (simp add: digit_char_def of_char_of)

lemma char_int_digit_char [simp]: "char_int (digit_char d) = 48 + int (d mod 10)"
  by (simp add: char_int_def of_char_digit_char Let_def less_imp_le_nat trans_less_add1)

lemma digits_value_append:
  "\<forall>c\<in>set cs. is_digit c \<Longrightarrow> digits_value acc (cs @ ds) = digits_value (digits_value acc cs) ds"
  by (induction cs arbitrary: acc) auto

lemma dec_digits: "\<forall>c\<in>set (dec n). is_digit c"
  by (induction n rule: dec.induct) (subst dec.simps, auto)

lemma two_digit_sum: "10 * int (n div 10) + int (n mod 10) = int n"
  by presburger

lemma four_digit_sum: "1000 * int (n div 1000) + 100 * int (n div 100 mod 10) +
    10 * int (n div 10 mod 10) + int (n mod 10) = int n"
proof -
  have "n div 10 div 10 = n div 100" "n div 100 div 10 = n div 1000"
    by (simp_all flip: div_mult2_eq)
  then show ?thesis
    using two_digit_sum [of n] two_digit_sum [of "n div 10"] two_digit_sum [of "n div 100"]
    by simp
qed

lemma digits_value_dec: "digits_value 0 (dec n) = int n"
proof (induction n rule: dec.induct)
  case (1 n)
  show ?case
  proof (cases "n < 10")
    case True
    then show ?thesis by (simp add: dec.simps [of n])
  next
    case False
    then have "digits_value 0 (dec n) = 10 * int (n div 10) + int (n mod 10)"
      using 1 by (simp add: dec.simps [of n] digits_value_append dec_digits)
    then show ?thesis by (simp only: two_digit_sum)
  qed
qed

lemma dec_Cons: "\<exists>c cs. dec n = c # cs \<and> is_digit c"
  by (metis dec.simps dec_digits append_is_Nil_conv list.distinct(1) list.exhaust list.set_intros(1))

lemma digit_not_special:
  assumes "is_digit c"
  shows "\<not> is_space c" "c \<noteq> CHR ''-''" "c \<noteq> CHR ''+''"
  using assms by (auto simp: is_digit_def is_space_def)

lemma atoi_unbounded_dec: "atoi_unbounded (dec n) = int n"
proof -
  obtain c cs where c: "dec n = c # cs" "is_digit c" using dec_Cons by blast
  then show ?thesis
    using digits_value_dec [of n] digit_not_special [OF c(2)]
    by (simp add: atoi_unbounded_def)
qed

lemma pad_dec_2: "pad_dec 2 n = [digit_char (n div 10), digit_char n]"
  by (simp add: numeral_2_eq_2)

lemma pad_dec_4: "pad_dec 4 n =
    [digit_char (n div 1000), digit_char (n div 100), digit_char (n div 10), digit_char n]"
proof -
  have "pad_dec 4 n = pad_dec (Suc (Suc (Suc (Suc 0)))) n"
    by (rule arg_cong [where f = "\<lambda>w. pad_dec w n"]) simp
  moreover have "n div 10 div 10 = n div 100" "n div 100 div 10 = n div 1000"
    by (simp_all flip: div_mult2_eq)
  ultimately show ?thesis by simp
qed

lemma parse_argv_dec:
  assumes "port < 2 ^ 31"
  shows "parse_argv [prog, o1, path, o2, ip, o3, dec port, o4, user, o5, password] =
    Inr \<lparr>data_path = Some path, dst_ip = Some ip, dst_user = Some user,
         dst_password = Some password, dst_port = int port\<rparr>"
  using assms by (simp add: parse_argv_def argv_at_def atoi_def atoi_unbounded_dec Let_def)

section \<open>Properties\<close>

text \<open>
  (C35) On the documented command line, option names at the odd positions and their values
  behind them, \<open>parse_argv\<close> returns the values, and the port as the number its decimal
  numeral denotes.
\<close>

theorem parse_argv_documented:
  assumes "port < 2 ^ 31"
  shows "parse_argv [prog, ''--data_path'', path, ''--dst_ip'', ip, ''--dst_port'', dec port,
      ''--dst_user'', user, ''--dst_password'', password] =
    Inr \<lparr>data_path = Some path, dst_ip = Some ip, dst_user = Some user,
         dst_password = Some password, dst_port = int port\<rparr>"
  using assms by (rule parse_argv_dec)

theorem parse_argv_documented_witness:
  "parse_argv [''run'', ''--data_path'', ''/tmp/data'', ''--dst_ip'', ''127.0.0.1'', ''--dst_port'',
      dec 3306, ''--dst_user'', ''root'', ''--dst_password'', ''123''] =
    Inr \<lparr>data_path = Some ''/tmp/data'', dst_ip = Some ''127.0.0.1'', dst_user = Some ''root'',
         dst_password = Some ''123'', dst_port = 3306\<rparr>"
  using parse_argv_documented [of 3306 "''run''" "''/tmp/data''" "''127.0.0.1''" "''root''" "''123''"]
  by simp

text \<open>
  \<open>parse_argv\<close> has no check: a command line of fewer than ten words is read past its end.
\<close>

theorem parse_argv_too_few:
  "length argv < 10 \<Longrightarrow> parse_argv argv = Inl Out_Of_Bounds"
  by (auto simp: parse_argv_def argv_at_def rbind_def)

theorem parse_argv_too_few_witness:
  "parse_argv [''run'', ''--data_path''] = Inl Out_Of_Bounds"
  using parse_argv_too_few [of "[''run'', ''--data_path'']"] by simp

text \<open>
  \<open>serialize_datetime\<close> reads \<^verbatim>\<open>YYYY-MM-DD hh:mm:ss\<close>: whatever the separators, the broken-down
  time handed to \<open>mktime\<close> has exactly the six numbers of the text, with the year counted
  from 1900 and the month from 0, and daylight saving left open.
\<close>

theorem serialize_datetime_fields:
  assumes "year < 10000" "month < 100" "day < 100" "hour < 100" "minute < 100" "second < 100"
  shows "serialize_datetime mktime
      (pad_dec 4 year @ [s1] @ pad_dec 2 month @ [s2] @ pad_dec 2 day @ [s3] @
       pad_dec 2 hour @ [s4] @ pad_dec 2 minute @ [s5] @ pad_dec 2 second @ rest) =
    Inr (mktime \<lparr>tm_sec = int second, tm_min = int minute, tm_hour = int hour,
      tm_mday = int day, tm_mon = int month - 1, tm_year = int year - 1900, tm_isdst = -1\<rparr>)"
  using assms
  by (simp add: serialize_datetime_def two_digits_def digit_at_def cstr_at_def pad_dec_2 pad_dec_4
      two_digit_sum four_digit_sum)

theorem serialize_datetime_fields_witness:
  "serialize_datetime tm_year (pad_dec 4 2022 @ [CHR ''-''] @ pad_dec 2 1 @ [CHR ''-''] @ pad_dec 2 3 @ '' '' @
      pad_dec 2 23 @ '':'' @ pad_dec 2 59 @ '':'' @ pad_dec 2 7 @ []) = Inr 122"
  using serialize_datetime_fields [of 2022 1 3 23 59 7 tm_year "CHR ''-''" "CHR ''-''" "CHR '' ''"
      "CHR '':''" "CHR '':''" "[]"]
  by simp

end
