(* ===== verification/Tasks.thy ===== *)
theory Tasks
  imports Ddl Cli "HOL-Library.Multiset"
begin

text \<open>
  The discovery and distribution of the work: \<^verbatim>\<open>list_dir\<close>, \<^verbatim>\<open>read_file\<close>,
  \<^verbatim>\<open>extract_table_tasks\<close> and \<^verbatim>\<open>distribute_tasks\<close> of \<^verbatim>\<open>src/utils.cpp\<close>.

  The file system is a record: what \<open>readdir\<close> enumerates for a directory (\<open>None\<close> when
  \<open>opendir\<close> fails), and the contents of a regular file (\<open>None\<close> when it cannot be opened).
\<close>

record file_system =
  fs_dir :: "string \<Rightarrow> string list option"
  fs_file :: "string \<Rightarrow> string option"

section \<open>Directories and files\<close>

definition list_dir :: "file_system \<Rightarrow> string \<Rightarrow> string list" where
  "list_dir fs p =
     (case fs_dir fs p of
        None \<Rightarrow> []
      | Some entries \<Rightarrow> filter (\<lambda>d. \<not> (d = ''.'' \<or> d = ''..'')) entries)"

text \<open>
  \<open>std::getline\<close> until it fails: the lines without their newlines; characters behind the
  last newline are a line of their own, but no characters are none.
\<close>

fun getlines :: "string \<Rightarrow> string \<Rightarrow> string list" where
  "getlines cur [] = (if cur = [] then [] else [cur])"
| "getlines cur (c # cs) =
     (if c = CHR 0x0A then cur # getlines [] cs else getlines (cur @ [c]) cs)"

definition read_file :: "file_system \<Rightarrow> string \<Rightarrow> string" where
  "read_file fs path =
     (case fs_file fs path of
        None \<Rightarrow> []
      | Some s \<Rightarrow> fold (\<lambda>str file_contents. (file_contents @ str) @ '' '') (getlines [] s) [])"

section \<open>Tasks\<close>

record TableTask =
  db :: string
  table :: string
  table_ddl :: string
  ddl_info :: DDLInfo
  csvs :: "string list"

text \<open>
  \<open>item.substr(item.size() - 4)\<close>: the position is a \<open>size_t\<close>, so it wraps to a huge
  value for a name of fewer than four characters and \<open>substr\<close> throws.
\<close>

definition last_four :: "string \<Rightarrow> string res" where
  "last_four item =
     (if length item < 4 then Inl Throws_Out_Of_Range
      else Inr (drop (length item - 4) item))"

text \<open>The loop over the items of a database directory: table names and their DDL texts.\<close>

fun sql_items :: "file_system \<Rightarrow> string \<Rightarrow> string list \<Rightarrow> (string \<times> string) list res" where
  "sql_items fs db_path [] = Inr []"
| "sql_items fs db_path (item # items) =
     rbind (last_four item) (\<lambda>suffix.
     rbind (sql_items fs db_path items) (\<lambda>rest.
       Inr (if suffix = ''.sql''
            then (take (length item - 4) item, read_file fs (db_path @ item)) # rest
            else rest)))"

definition csv_paths :: "string list \<Rightarrow> string \<Rightarrow> string \<Rightarrow> string list" where
  "csv_paths srcs_path d tbl = map (\<lambda>s. s @ d @ ''/'' @ tbl @ ''.csv'') srcs_path"

fun table_tasks :: "string list \<Rightarrow> string \<Rightarrow> (string \<times> string) list \<Rightarrow> TableTask list res" where
  "table_tasks srcs_path d [] = Inr []"
| "table_tasks srcs_path d ((tbl, ddl) # ts) =
     rbind (parse_ddl ddl) (\<lambda>info.
     rbind (table_tasks srcs_path d ts) (\<lambda>rest.
       Inr (\<lparr>db = d, table = tbl, table_ddl = ddl, ddl_info = info,
             csvs = csv_paths srcs_path d tbl\<rparr> # rest)))"

fun db_tasks :: "file_system \<Rightarrow> string list \<Rightarrow> string \<Rightarrow> string list \<Rightarrow> TableTask list res" where
  "db_tasks fs srcs_path src0 [] = Inr []"
| "db_tasks fs srcs_path src0 (d # dbs) =
     (let db_path = src0 @ d @ ''/'' in
      rbind (sql_items fs db_path (list_dir fs db_path)) (\<lambda>items.
      rbind (table_tasks srcs_path d items) (\<lambda>ts.
      rbind (db_tasks fs srcs_path src0 dbs) (\<lambda>rest. Inr (ts @ rest)))))"

definition extract_table_tasks :: "file_system \<Rightarrow> string \<Rightarrow> TableTask list res" where
  "extract_table_tasks fs path =
     (let srcs_path = map (\<lambda>src. path @ ''/'' @ src @ ''/'') (list_dir fs path) in
      rbind (at srcs_path 0) (\<lambda>src0. db_tasks fs srcs_path src0 (list_dir fs src0)))"

text \<open>
  \<open>std::vector(num_cores, ...)\<close> with a negative \<open>int\<close> asks for close to \<open>2 ^ 64\<close>
  elements; \<open>task_id % num_cores\<close> with 0 is undefined.
\<close>

definition distribute_tasks :: "'a list \<Rightarrow> int \<Rightarrow> 'a list list res" where
  "distribute_tasks tasks num_cores =
     (if num_cores < 0 then Inl Throws_Length_Error
      else
        (let n = nat num_cores in
         if n = 0 \<and> tasks \<noteq> [] then Inl Div_By_Zero
         else Inr (foldl (\<lambda>ret (task_id, t). ret[task_id mod n := ret ! (task_id mod n) @ [t]])
                     (replicate n []) (enumerate 0 tasks))))"

section \<open>Files are read line by line\<close>

lemma getlines_fold:
  "fold (\<lambda>str acc. (acc @ str) @ '' '') (getlines cur s) acc =
     acc @ (if s = [] \<and> cur = [] then [] else cur @
       map (\<lambda>c. if c = CHR 0x0A then CHR '' '' else c) s @
       (if s \<noteq> [] \<and> last s = CHR 0x0A then [] else '' ''))"
  by (induction cur s arbitrary: acc rule: getlines.induct) auto

text \<open>
  \<open>read_file\<close> turns every newline into a space, and a last line without newline gets a
  space too; a file that cannot be opened reads as empty.
\<close>

theorem read_file_joins_lines:
  "read_file fs path =
    (case fs_file fs path of None \<Rightarrow> [] | Some s \<Rightarrow>
       map (\<lambda>c. if c = CHR 0x0A then CHR '' '' else c) s @
       (if s = [] \<or> last s = CHR 0x0A then [] else '' ''))"
  by (cases "fs_file fs path") (simp_all add: read_file_def getlines_fold del: append_assoc)

section \<open>Round robin\<close>

definition share :: "nat \<Rightarrow> nat \<Rightarrow> 'a list \<Rightarrow> 'a list" where
  "share n c tasks = map snd (filter (\<lambda>(i, t). i mod n = c) (enumerate 0 tasks))"

lemma share_snoc:
  "share n c (ts @ [t]) = share n c ts @ (if length ts mod n = c then [t] else [])"
  by (simp add: share_def enumerate_append_eq)

lemma distribute_fold:
  assumes "0 < n"
  shows "foldl (\<lambda>ret (task_id, t). ret[task_id mod n := ret ! (task_id mod n) @ [t]])
      (replicate n []) (enumerate 0 tasks) = map (\<lambda>c. share n c tasks) [0..<n]"
proof (induction tasks rule: rev_induct)
  case Nil
  show ?case by (simp add: share_def map_replicate_const)
next
  case (snoc t ts)
  let ?c = "length ts mod n"
  have "foldl (\<lambda>ret (task_id, t). ret[task_id mod n := ret ! (task_id mod n) @ [t]])
      (replicate n []) (enumerate 0 (ts @ [t])) =
      (map (\<lambda>c. share n c ts) [0..<n])[?c := share n ?c ts @ [t]]"
    using assms by (simp add: enumerate_append_eq snoc.IH)
  also have "\<dots> = map (\<lambda>c. share n c (ts @ [t])) [0..<n]"
    by (rule nth_equalityI) (auto simp: nth_list_update share_snoc)
  finally show ?case .
qed

lemma length_share:
  "c < n \<Longrightarrow> length (share n c ts) = length ts div n + (if c < length ts mod n then 1 else 0)"
  by (induction ts rule: rev_induct) (auto simp: share_snoc mod_Suc div_Suc, simp add: share_def)

lemma mset_shares: "0 < n \<Longrightarrow> (\<Sum>c<n. mset (share n c ts)) = mset ts"
proof (induction ts rule: rev_induct)
  case Nil
  then show ?case by (simp add: share_def)
next
  case (snoc t ts)
  have "(\<Sum>c<n. mset (share n c (ts @ [t]))) =
      (\<Sum>c<n. mset (share n c ts) + (if c = length ts mod n then {#t#} else {#}))"
    by (intro sum.cong) (auto simp: share_snoc)
  with snoc show ?case by (simp add: sum.distrib)
qed

lemma distribute_tasks_eq:
  "0 < n \<Longrightarrow> distribute_tasks tasks n = Inr (map (\<lambda>c. share (nat n) c tasks) [0..<nat n])"
  by (simp add: distribute_tasks_def distribute_fold Let_def)

lemma sum_list_upt: "sum_list (map f [0..<n]) = (\<Sum>c<n. f c)"
  by (simp add: interv_sum_list_conv_sum_set_nat atLeast0LessThan)

text \<open>
  (C23) \<open>distribute_tasks\<close> hands every task to exactly one core, and the loads of two cores
  differ by one task at most.
\<close>

theorem distribute_tasks_partitions:
  assumes "0 < num_cores"
  shows "\<exists>ret. distribute_tasks tasks num_cores = Inr ret \<and> length ret = nat num_cores \<and>
    mset (concat ret) = mset tasks \<and>
    (\<forall>ts\<in>set ret. length tasks div nat num_cores \<le> length ts \<and>
      length ts \<le> length tasks div nat num_cores + 1)"
proof (intro exI conjI)
  let ?n = "nat num_cores"
  let ?ret = "map (\<lambda>c. share ?n c tasks) [0..<?n]"
  show "distribute_tasks tasks num_cores = Inr ?ret"
    using assms by (rule distribute_tasks_eq)
  show "length ?ret = ?n" by simp
  have "mset (concat ?ret) = sum_list (map (\<lambda>c. mset (share ?n c tasks)) [0..<?n])"
    by (simp add: mset_concat comp_def)
  also have "\<dots> = mset tasks"
    using assms by (simp only: sum_list_upt) (simp add: mset_shares)
  finally show "mset (concat ?ret) = mset tasks" .
  show "\<forall>ts\<in>set ?ret. length tasks div ?n \<le> length ts \<and> length ts \<le> length tasks div ?n + 1"
    by (auto simp: length_share)
qed

theorem distribute_tasks_partitions_witness:
  "\<exists>ret. distribute_tasks [1 :: nat, 2, 3, 4, 5] 4 = Inr ret \<and> length ret = 4 \<and>
    mset (concat ret) = {#1, 2, 3, 4, 5#}"
  using distribute_tasks_partitions [of 4 "[1 :: nat, 2, 3, 4, 5]"] by auto

section \<open>Which tables become tasks\<close>

definition is_sql :: "string \<Rightarrow> bool" where
  "is_sql item \<longleftrightarrow> drop (length item - 4) item = ''.sql''"

definition sql_names :: "string list \<Rightarrow> string list" where
  "sql_names items = map (\<lambda>item. take (length item - 4) item) (filter is_sql items)"

lemma is_sql_append: "is_sql item \<Longrightarrow> take (length item - 4) item @ ''.sql'' = item"
  unfolding is_sql_def by (metis append_take_drop_id)

lemma last_four_Inr: "last_four item = Inr s \<longleftrightarrow> 4 \<le> length item \<and> s = drop (length item - 4) item"
  by (auto simp: last_four_def)

lemma sql_items_Inr:
  "sql_items fs p items = Inr its \<longleftrightarrow> (\<forall>item\<in>set items. 4 \<le> length item) \<and>
     its = map (\<lambda>nm. (nm, read_file fs (p @ nm @ ''.sql''))) (sql_names items)"
  by (induction items arbitrary: its)
    (auto simp: rbind_Inr_iff last_four_Inr sql_names_def is_sql_def
      dest: is_sql_append [unfolded is_sql_def])

definition good_task :: "file_system \<Rightarrow> string list \<Rightarrow> string \<Rightarrow> TableTask \<Rightarrow> bool" where
  "good_task fs srcs_path src0 t \<longleftrightarrow>
     table_ddl t = read_file fs (src0 @ db t @ ''/'' @ table t @ ''.sql'') \<and>
     parse_ddl (table_ddl t) = Inr (ddl_info t) \<and>
     csvs t = csv_paths srcs_path (db t) (table t)"

lemma table_tasks_Inr:
  assumes "table_tasks srcs_path d
      (map (\<lambda>nm. (nm, read_file fs (src0 @ d @ ''/'' @ nm @ ''.sql''))) nms) = Inr ts"
  shows "map (\<lambda>t. (db t, table t)) ts = map (Pair d) nms \<and>
    (\<forall>t\<in>set ts. good_task fs srcs_path src0 t)"
  using assms
  by (induction nms arbitrary: ts) (auto simp: rbind_Inr_iff good_task_def)

lemma db_tasks_Inr:
  assumes "db_tasks fs srcs_path src0 dbs = Inr ts"
  shows "map (\<lambda>t. (db t, table t)) ts =
      concat (map (\<lambda>d. map (Pair d) (sql_names (list_dir fs (src0 @ d @ ''/'')))) dbs) \<and>
    (\<forall>t\<in>set ts. good_task fs srcs_path src0 t)"
  using assms
proof (induction dbs arbitrary: ts)
  case (Cons d dbs)
  then obtain items ts1 ts2 where
    "sql_items fs (src0 @ d @ ''/'') (list_dir fs (src0 @ d @ ''/'')) = Inr items"
    and t: "table_tasks srcs_path d items = Inr ts1" "db_tasks fs srcs_path src0 dbs = Inr ts2"
      "ts = ts1 @ ts2"
    by (auto simp: rbind_Inr_iff Let_def)
  then have "items = map (\<lambda>nm. (nm, read_file fs (src0 @ d @ ''/'' @ nm @ ''.sql'')))
      (sql_names (list_dir fs (src0 @ d @ ''/'')))"
    by (simp add: sql_items_Inr)
  with t(1) have "table_tasks srcs_path d
      (map (\<lambda>nm. (nm, read_file fs (src0 @ d @ ''/'' @ nm @ ''.sql'')))
        (sql_names (list_dir fs (src0 @ d @ ''/'')))) = Inr ts1"
    by simp
  from table_tasks_Inr [OF this] Cons.IH [OF t(2)] t(3) show ?case by auto
qed simp

text \<open>The source directories, as \<open>srcs_path_\<close> holds them.\<close>

definition source_dirs :: "file_system \<Rightarrow> string \<Rightarrow> string list" where
  "source_dirs fs path = map (\<lambda>src. path @ ''/'' @ src @ ''/'') (list_dir fs path)"

text \<open>A data path with two sources and one table.\<close>

definition sample_fs :: file_system where
  "sample_fs =
     \<lparr>fs_dir = (\<lambda>p. if p = ''/d'' then Some [''.'', ''..'', ''src_a'', ''src_b'']
        else if p = ''/d/src_a/'' then Some [''a'']
        else if p = ''/d/src_a/a/'' then Some [''1.csv'', ''1.sql''] else None),
      fs_file = (\<lambda>p. if p = ''/d/src_a/a/1.sql''
        then Some ''t (`id` int ,`updated_at` datetime )'' else None)\<rparr>"

text \<open>
  (C22) When \<open>extract_table_tasks\<close> returns, there is one task for every \<^verbatim>\<open>.sql\<close> file in every
  database directory of the first source, in directory order and none other; each carries
  the parsed DDL of its table and the CSV file of the table in every source.
\<close>

theorem extract_table_tasks_complete:
  assumes "extract_table_tasks fs path = Inr ts"
  shows "\<exists>src0 others. source_dirs fs path = src0 # others \<and>
    map (\<lambda>t. (db t, table t)) ts =
      concat (map (\<lambda>d. map (Pair d) (sql_names (list_dir fs (src0 @ d @ ''/'')))) (list_dir fs src0)) \<and>
    (\<forall>t\<in>set ts. table_ddl t = read_file fs (src0 @ db t @ ''/'' @ table t @ ''.sql'') \<and>
      parse_ddl (table_ddl t) = Inr (ddl_info t) \<and>
      csvs t = map (\<lambda>s. s @ db t @ ''/'' @ table t @ ''.csv'') (source_dirs fs path))"
proof -
  from assms have ne: "source_dirs fs path \<noteq> []"
    and d: "db_tasks fs (source_dirs fs path) (hd (source_dirs fs path))
      (list_dir fs (hd (source_dirs fs path))) = Inr ts"
    by (auto simp: extract_table_tasks_def source_dirs_def Let_def rbind_Inr_iff at_Inr_iff hd_conv_nth)
  from ne obtain src0 others where s: "source_dirs fs path = src0 # others"
    by (cases "source_dirs fs path") auto
  from db_tasks_Inr [OF d] show ?thesis
    unfolding s good_task_def csv_paths_def by auto
qed

theorem extract_table_tasks_complete_witness:
  "\<exists>ts. extract_table_tasks sample_fs ''/d'' = Inr ts \<and>
    map (\<lambda>t. (db t, table t)) ts = [(''a'', ''1'')] \<and>
    (\<forall>t\<in>set ts. csvs t = [''/d/src_a/a/1.csv'', ''/d/src_b/a/1.csv''])"
proof -
  have "\<not> isl (extract_table_tasks sample_fs ''/d'')" by code_simp
  then obtain ts where ts: "extract_table_tasks sample_fs ''/d'' = Inr ts"
    by (cases "extract_table_tasks sample_fs ''/d''") auto
  have dirs: "source_dirs sample_fs ''/d'' = [''/d/src_a/'', ''/d/src_b/'']"
    and names: "concat (map (\<lambda>d. map (Pair d)
      (sql_names (list_dir sample_fs (''/d/src_a/'' @ d @ ''/'')))) (list_dir sample_fs ''/d/src_a/'')) =
      [(''a'', ''1'')]"
    by (simp_all add: source_dirs_def list_dir_def sample_fs_def sql_names_def is_sql_def)
  from extract_table_tasks_complete [OF ts] dirs names
  have m: "map (\<lambda>t. (db t, table t)) ts = [(''a'', ''1'')]"
    and c: "\<forall>t\<in>set ts. csvs t = map (\<lambda>s. s @ db t @ ''/'' @ table t @ ''.csv'') [''/d/src_a/'', ''/d/src_b/'']"
    by auto
  from m obtain t where "ts = [t]" "db t = ''a''" "table t = ''1''" by auto
  with c ts m show ?thesis by simp
qed

text \<open>
  \<open>extract_table_tasks\<close> needs a source directory: it indexes the first one without a
  check, so a data path that is missing or empty is an out-of-range access.
\<close>

theorem extract_table_tasks_no_source:
  "list_dir fs path = [] \<Longrightarrow> extract_table_tasks fs path = Inl Out_Of_Bounds"
  by (simp add: extract_table_tasks_def)

theorem extract_table_tasks_no_source_witness:
  "extract_table_tasks \<lparr>fs_dir = (\<lambda>_. None), fs_file = (\<lambda>_. None)\<rparr> ''/nowhere'' = Inl Out_Of_Bounds"
  by (rule extract_table_tasks_no_source) (simp add: list_dir_def)

text \<open>
  A file with a name of fewer than four characters in the first database directory ends
  the extraction with \<open>std::out_of_range\<close>, whatever the other files are.
\<close>

theorem extract_table_tasks_short_name:
  assumes "source_dirs fs path = src # others" and "list_dir fs src = d # dbs"
    and "item \<in> set (list_dir fs (src @ d @ ''/''))" and "length item < 4"
  shows "extract_table_tasks fs path = Inl Throws_Out_Of_Range"
proof -
  have *: "item \<in> set items \<Longrightarrow> sql_items fs p items = Inl Throws_Out_Of_Range" for items p
  proof (induction items)
    case (Cons x xs)
    show ?case
    proof (cases "last_four x")
      case (Inl e)
      then show ?thesis by (simp add: last_four_def split: if_splits)
    next
      case (Inr s)
      with assms(4) Cons.prems have "item \<in> set xs" by (auto simp: last_four_Inr)
      with Inr Cons.IH show ?thesis by simp
    qed
  qed simp
  show ?thesis
    using assms * [OF assms(3)]
    by (simp add: extract_table_tasks_def source_dirs_def Let_def at_def)
qed

theorem extract_table_tasks_short_name_witness:
  "extract_table_tasks
     \<lparr>fs_dir = (\<lambda>p. if p = ''/d'' then Some [''s''] else if p = ''/d/s/'' then Some [''a'']
        else if p = ''/d/s/a/'' then Some [''1.sql'', ''tmp''] else None),
      fs_file = (\<lambda>_. None)\<rparr> ''/d'' = Inl Throws_Out_Of_Range"
  by (rule extract_table_tasks_short_name
      [where src = "''/d/s/''" and others = "[]" and d = "''a''" and dbs = "[]" and item = "''tmp''"])
    (simp_all add: source_dirs_def list_dir_def)

section \<open>main2\<close>

text \<open>
  \<^verbatim>\<open>main2\<close> of \<^verbatim>\<open>src/main.cpp\<close>: the live part of the planned entry point, up to the distribution
  of the tasks over the cores.  Its result is the vector that the commented-out rest would
  have worked on.  A null \<open>data_path\<close> reaches \<open>opendir\<close>.
\<close>

definition main2 :: "file_system \<Rightarrow> string list \<Rightarrow> TableTask list list res" where
  "main2 fs argv =
     rbind (parse_argv argv) (\<lambda>cfg.
     rbind (case data_path cfg of None \<Rightarrow> Inl Null_Deref | Some p \<Rightarrow> extract_table_tasks fs p) (\<lambda>ts.
       distribute_tasks ts NUM_CPU_CORES))"

text \<open>
  The tables of the first source, as pairs of a database and a name, and the task of such a table.
\<close>

definition found_tables :: "file_system \<Rightarrow> string \<Rightarrow> (string \<times> string) list" where
  "found_tables fs src0 =
     concat (map (\<lambda>d. map (Pair d) (sql_names (list_dir fs (src0 @ d @ ''/'')))) (list_dir fs src0))"

definition ddl_of :: "file_system \<Rightarrow> string \<Rightarrow> string \<times> string \<Rightarrow> string" where
  "ddl_of fs src0 = (\<lambda>(d, t). read_file fs (src0 @ d @ ''/'' @ t @ ''.sql''))"

definition task_for :: "file_system \<Rightarrow> string list \<Rightarrow> string \<Rightarrow> string \<times> string \<Rightarrow> TableTask" where
  "task_for fs srcs src0 = (\<lambda>(d, t).
     \<lparr>db = d, table = t, table_ddl = ddl_of fs src0 (d, t), ddl_info = projr (parse_ddl (ddl_of fs src0 (d, t))),
      csvs = map (\<lambda>s. s @ d @ ''/'' @ t @ ''.csv'') srcs\<rparr>)"

text \<open>
  A data path that can be read: it has a source, no file name in a database of the first one is
  shorter than its suffix, and every DDL text found there is parsed.
\<close>

definition readable_path :: "file_system \<Rightarrow> string \<Rightarrow> string \<Rightarrow> string list \<Rightarrow> bool" where
  "readable_path fs path src0 others \<longleftrightarrow> source_dirs fs path = src0 # others \<and>
     (\<forall>d\<in>set (list_dir fs src0). \<forall>item\<in>set (list_dir fs (src0 @ d @ ''/'')). 4 \<le> length item) \<and>
     (\<forall>dt\<in>set (found_tables fs src0). \<not> isl (parse_ddl (ddl_of fs src0 dt)))"

lemma table_tasks_for:
  assumes "\<forall>nm\<in>set nms. \<not> isl (parse_ddl (ddl_of fs src0 (d, nm)))"
  shows "table_tasks srcs d (map (\<lambda>nm. (nm, read_file fs (src0 @ d @ ''/'' @ nm @ ''.sql''))) nms) =
    Inr (map (task_for fs srcs src0) (map (Pair d) nms))"
  using assms
proof (induction nms)
  case (Cons nm nms)
  then obtain info where "parse_ddl (ddl_of fs src0 (d, nm)) = Inr info"
    by (cases "parse_ddl (ddl_of fs src0 (d, nm))") auto
  with Cons show ?case by (simp add: task_for_def ddl_of_def csv_paths_def)
qed simp

lemma db_tasks_for:
  assumes "\<forall>d\<in>set dbs. \<forall>item\<in>set (list_dir fs (src0 @ d @ ''/'')). 4 \<le> length item"
    and "\<forall>d\<in>set dbs. \<forall>nm\<in>set (sql_names (list_dir fs (src0 @ d @ ''/''))). \<not> isl (parse_ddl (ddl_of fs src0 (d, nm)))"
  shows "db_tasks fs srcs src0 dbs = Inr (map (task_for fs srcs src0)
    (concat (map (\<lambda>d. map (Pair d) (sql_names (list_dir fs (src0 @ d @ ''/'')))) dbs)))"
  using assms
proof (induction dbs)
  case (Cons d dbs)
  let ?p = "src0 @ d @ ''/''"
  have "sql_items fs ?p (list_dir fs ?p) =
      Inr (map (\<lambda>nm. (nm, read_file fs (?p @ nm @ ''.sql''))) (sql_names (list_dir fs ?p)))"
    using Cons.prems(1) by (subst sql_items_Inr) simp
  moreover have "table_tasks srcs d (map (\<lambda>nm. (nm, read_file fs (?p @ nm @ ''.sql''))) (sql_names (list_dir fs ?p))) =
      Inr (map (task_for fs srcs src0) (map (Pair d) (sql_names (list_dir fs ?p))))"
    using table_tasks_for [of "sql_names (list_dir fs ?p)" fs src0 d srcs] Cons.prems(2) by simp
  ultimately show ?case using Cons by (simp add: Let_def)
qed simp

lemma extract_table_tasks_for:
  assumes "readable_path fs path src0 others"
  shows "extract_table_tasks fs path = Inr (map (task_for fs (src0 # others) src0) (found_tables fs src0))"
proof -
  have s: "map (\<lambda>src. path @ ''/'' @ src @ ''/'') (list_dir fs path) = src0 # others"
    using assms by (simp add: readable_path_def source_dirs_def)
  have "db_tasks fs (src0 # others) src0 (list_dir fs src0) =
      Inr (map (task_for fs (src0 # others) src0) (found_tables fs src0))"
    using assms unfolding found_tables_def readable_path_def by (intro db_tasks_for) auto
  then show ?thesis by (simp only: extract_table_tasks_def Let_def s) (simp add: at_Inr_iff)
qed

text \<open>
  (C24) On the documented command line and a data path that can be read, \<open>main2\<close> gives the
  tables of the first source to the four cores: exactly one task for each, with its parsed DDL and a
  CSV file in every source, and the numbers of tasks differ by at most one.  A table that only
  another source has is not among them.
\<close>

theorem main2_assigns_every_table:
  assumes "port < 2 ^ 31" and "readable_path fs path src0 others"
  shows "\<exists>ret. main2 fs [prog, ''--data_path'', path, ''--dst_ip'', ip, ''--dst_port'', dec port,
      ''--dst_user'', user, ''--dst_password'', password] = Inr ret \<and>
    length ret = 4 \<and> mset (concat ret) = mset (map (task_for fs (src0 # others) src0) (found_tables fs src0)) \<and>
    (\<forall>core\<in>set ret. length core = length (found_tables fs src0) div 4 \<or>
       length core = length (found_tables fs src0) div 4 + 1)"
proof -
  let ?ts = "map (task_for fs (src0 # others) src0) (found_tables fs src0)"
  let ?ret = "map (\<lambda>c. share 4 c ?ts) [0..<4]"
  have "distribute_tasks ?ts NUM_CPU_CORES = Inr ?ret"
    using distribute_tasks_eq [of 4 ?ts] by (simp add: NUM_CPU_CORES_def)
  moreover have "mset (concat ?ret) = mset ?ts"
    using mset_shares [of 4 ?ts] by (simp only: mset_concat map_map comp_def sum_list_upt)
  moreover have "\<forall>core\<in>set ?ret. length core = length ?ts div 4 \<or> length core = length ?ts div 4 + 1"
    by (auto simp: length_share)
  ultimately show ?thesis
    using assms extract_table_tasks_for [OF assms(2)] by (simp add: main2_def parse_argv_dec del: upt.simps)
qed

theorem main2_assigns_every_table_witness:
  "\<exists>ret. main2 sample_fs [''run'', ''--data_path'', ''/d'', ''--dst_ip'', ''127.0.0.1'', ''--dst_port'',
      dec 3306, ''--dst_user'', ''root'', ''--dst_password'', ''123''] = Inr ret \<and> length ret = 4 \<and>
    mset (concat ret) = {#task_for sample_fs [''/d/src_a/'', ''/d/src_b/''] ''/d/src_a/'' (''a'', ''1'')#}"
proof -
  have f: "found_tables sample_fs ''/d/src_a/'' = [(''a'', ''1'')]"
    and s: "source_dirs sample_fs ''/d'' = [''/d/src_a/'', ''/d/src_b/'']"
    by (simp_all add: found_tables_def source_dirs_def list_dir_def sample_fs_def sql_names_def is_sql_def)
  have "\<not> isl (parse_ddl (ddl_of sample_fs ''/d/src_a/'' (''a'', ''1'')))" by code_simp
  then have "readable_path sample_fs ''/d'' ''/d/src_a/'' [''/d/src_b/'']"
    unfolding readable_path_def f s by (simp add: list_dir_def sample_fs_def)
  from main2_assigns_every_table [OF _ this, of 3306 "''run''" "''127.0.0.1''" "''root''" "''123''"] f
  show ?thesis by auto
qed

end
