(* ===== verification/Main_Program.thy ===== *)
theory Main_Program
  imports Cli
begin

text \<open>
  The entry point of \<^verbatim>\<open>src/src/main.cpp\<close>.  The MySQL client library is a parameter: a record of
  the functions \<open>main\<close> calls, over the states \<open>'c\<close> of a client.  The outcome of a run is the exit
  status, how many messages went to \<open>stderr\<close>, and the client that was closed, if any.
\<close>

record 'c mysql_library =
  mysql_init :: "'c option"
  mysql_real_connect :: "'c \<Rightarrow> string \<Rightarrow> string \<Rightarrow> string \<Rightarrow> bool \<times> 'c"
  mysql_query :: "'c \<Rightarrow> string \<Rightarrow> bool \<times> 'c"

record 'c outcome =
  exit_status :: int
  messages :: nat
  closed_client :: "'c option"

text \<open>The body of each \<open>if\<close>: print the error, close the client, \<open>exit\<close>.\<close>

definition give_up :: "int \<Rightarrow> 'c \<Rightarrow> 'c outcome" where
  "give_up status client = \<lparr>exit_status = status, messages = 1, closed_client = Some client\<rparr>"

text \<open>\<open>mysql_query\<close> returns whether there was an error; \<open>k\<close> is the rest of \<open>main\<close>.\<close>

definition query_or_exit :: "'c mysql_library \<Rightarrow> 'c \<Rightarrow> string \<Rightarrow> ('c \<Rightarrow> 'c outcome) \<Rightarrow> 'c outcome" where
  "query_or_exit lib client q k =
     (let (failed, client) = mysql_query lib client q in if failed then give_up 1 client else k client)"

definition main :: "'c mysql_library \<Rightarrow> string list \<Rightarrow> 'c outcome res" where
  "main lib argv =
     rbind (parse_argv argv) (\<lambda>cfg.
       Inr (case mysql_init lib of
          None \<Rightarrow> \<lparr>exit_status = -1, messages = 1, closed_client = None\<rparr>
        | Some client \<Rightarrow>
            (let (connected, client) = mysql_real_connect lib client ''219.228.148.87'' ''root'' ''@sqlAdmin2021''
             in if \<not> connected then give_up (-1) client
                else query_or_exit lib client ''create database if not exists demo'' (\<lambda>client.
                     query_or_exit lib client ''use demo'' (\<lambda>client.
                     query_or_exit lib client ''create table t (a int)'' (\<lambda>client.
                     query_or_exit lib client ''insert into t values (1)'' (\<lambda>client.
                       \<lparr>exit_status = 0, messages = 0, closed_client = Some client\<rparr>)))))))"

section \<open>What a run does\<close>

text \<open>The queries in order, and a client that has been given some of them.\<close>

definition demo_queries :: "string list" where
  "demo_queries =
     [''create database if not exists demo'', ''use demo'', ''create table t (a int)'',
      ''insert into t values (1)'']"

fun executed :: "'c mysql_library \<Rightarrow> 'c \<Rightarrow> string list \<Rightarrow> 'c" where
  "executed lib c [] = c"
| "executed lib c (q # qs) = executed lib (snd (mysql_query lib c q)) qs"

fun first_failure :: "'c mysql_library \<Rightarrow> 'c \<Rightarrow> string list \<Rightarrow> nat option" where
  "first_failure lib c [] = None"
| "first_failure lib c (q # qs) =
     (if fst (mysql_query lib c q) then Some 0
      else map_option Suc (first_failure lib (snd (mysql_query lib c q)) qs))"

fun run_script :: "'c mysql_library \<Rightarrow> 'c \<Rightarrow> string list \<Rightarrow> 'c outcome" where
  "run_script lib c [] = \<lparr>exit_status = 0, messages = 0, closed_client = Some c\<rparr>"
| "run_script lib c (q # qs) = query_or_exit lib c q (\<lambda>c. run_script lib c qs)"

lemma run_script_outcome:
  "run_script lib c qs =
   (case first_failure lib c qs of
      None \<Rightarrow> \<lparr>exit_status = 0, messages = 0, closed_client = Some (executed lib c qs)\<rparr>
    | Some n \<Rightarrow> give_up 1 (executed lib c (take (Suc n) qs)))"
  by (induction qs arbitrary: c)
     (auto simp: query_or_exit_def split: prod.splits option.splits)

text \<open>
  (C40) Every run that gets a client from the library closes it, in the state after the last
  query it was given: the queries are sent in order, the first one that fails is the last
  one sent, and the exit status is 0 exactly when all of them succeeded.  The destination on the
  command line plays no part.
\<close>

theorem main_closes_client:
  assumes "parse_argv argv = Inr cfg" and "mysql_init lib = Some c0"
    and "mysql_real_connect lib c0 ''219.228.148.87'' ''root'' ''@sqlAdmin2021'' = (connected, c)"
  shows "main lib argv =
    Inr (if \<not> connected then \<lparr>exit_status = -1, messages = 1, closed_client = Some c\<rparr>
         else (case first_failure lib c demo_queries of
             None \<Rightarrow> \<lparr>exit_status = 0, messages = 0, closed_client = Some (executed lib c demo_queries)\<rparr>
           | Some n \<Rightarrow> \<lparr>exit_status = 1, messages = 1,
               closed_client = Some (executed lib c (take (Suc n) demo_queries))\<rparr>))"
proof -
  have "main lib argv = Inr (if \<not> connected then give_up (-1) c else run_script lib c demo_queries)"
    using assms by (simp add: main_def demo_queries_def)
  then show ?thesis
    unfolding run_script_outcome by (simp add: give_up_def split: option.split)
qed

text \<open>A library whose client counts the queries and whose third query fails.\<close>

definition sample_library :: "nat mysql_library" where
  "sample_library =
     \<lparr>mysql_init = Some 0, mysql_real_connect = (\<lambda>c host user password. (True, c)),
      mysql_query = (\<lambda>c q. (c = 2, Suc c))\<rparr>"

theorem main_closes_client_witness:
  "main sample_library [''run'', ''--data_path'', ''/d'', ''--dst_ip'', ''127.0.0.1'', ''--dst_port'',
      dec 3306, ''--dst_user'', ''root'', ''--dst_password'', ''123''] =
    Inr \<lparr>exit_status = 1, messages = 1, closed_client = Some 3\<rparr>"
proof -
  have "parse_argv [''run'', ''--data_path'', ''/d'', ''--dst_ip'', ''127.0.0.1'', ''--dst_port'', dec 3306,
      ''--dst_user'', ''root'', ''--dst_password'', ''123''] =
    Inr \<lparr>data_path = Some ''/d'', dst_ip = Some ''127.0.0.1'', dst_user = Some ''root'',
         dst_password = Some ''123'', dst_port = 3306\<rparr>"
    using parse_argv_dec [of 3306] by simp
  from main_closes_client [OF this, of sample_library 0 True 0] show ?thesis
    by (simp add: sample_library_def demo_queries_def)
qed

end
