(* ===== verification/Sql.thy ===== *)
theory Sql
  imports Prelude
begin

text \<open>
  The SQL texts of \<^verbatim>\<open>src/src/query_builder.cpp\<close>: \<open>make_where_clause\<close>,
  \<open>make_update_statement\<close>, \<open>make_insert_statement\<close> and
  \<open>make_insert_where_not_exists_statement\<close>.  The members they read (\<open>field_names\<close>,
  \<open>unique_mask\<close>, \<open>table\<close>) are arguments.  The loops append to the accumulator as the code
  does; a \<open>pop_back\<close> on an empty string, an index past the field names and a shift by 32 or
  more are faults.
\<close>

abbreviation quote :: char where "quote \<equiv> CHR 0x27"

section \<open>The four statements\<close>

text \<open>The loop of \<open>make_where_clause\<close> from column \<open>i\<close> on, with the text so far.\<close>

fun where_loop :: "string list \<Rightarrow> 16 word \<Rightarrow> nat \<Rightarrow> string list \<Rightarrow> string \<Rightarrow> string res" where
  "where_loop names um i [] acc = Inr acc"
| "where_loop names um i (v # vs) acc =
     rbind (mask_bit um i) (\<lambda>b.
       if b
       then rbind (at names i) (\<lambda>n.
         where_loop names um (Suc i) vs (acc @ n @ ''='' @ [quote] @ v @ [quote] @ '' and''))
       else where_loop names um (Suc i) vs acc)"

definition make_where_clause :: "string list \<Rightarrow> 16 word \<Rightarrow> string list \<Rightarrow> string res" where
  "make_where_clause names um rec =
     rbind (where_loop names um 0 rec ''where '') (\<lambda>w.
     rbind (pop_back w) (\<lambda>w. rbind (pop_back w) (\<lambda>w. rbind (pop_back w) pop_back)))"

text \<open>The loop of \<open>make_update_statement\<close>.\<close>

fun set_loop :: "string list \<Rightarrow> 16 word \<Rightarrow> nat \<Rightarrow> string list \<Rightarrow> string \<Rightarrow> string res" where
  "set_loop names um i [] acc = Inr acc"
| "set_loop names um i (v # vs) acc =
     rbind (mask_bit um i) (\<lambda>b.
       if \<not> b
       then rbind (at names i) (\<lambda>n.
         set_loop names um (Suc i) vs (acc @ n @ ''='' @ [quote] @ v @ [quote] @ '',''))
       else set_loop names um (Suc i) vs acc)"

definition make_update_statement ::
  "string \<Rightarrow> string list \<Rightarrow> 16 word \<Rightarrow> string list \<Rightarrow> string res" where
  "make_update_statement tbl names um rec =
     rbind (set_loop names um 0 rec (''update `'' @ tbl @ ''` set '')) (\<lambda>ret.
     rbind (pop_back ret) (\<lambda>ret.
     rbind (make_where_clause names um rec) (\<lambda>w.
     rbind (at rec (length rec - 1)) (\<lambda>v.
       Inr (ret @ '' '' @ (w @ '' and `updated_at`<'' @ [quote] @ v @ [quote]))))))"

text \<open>
  The loop that writes the values of one record with commas between them; \<open>n\<close> is
  \<open>rec.size()\<close>.
\<close>

fun values_loop :: "nat \<Rightarrow> nat \<Rightarrow> string list \<Rightarrow> string \<Rightarrow> string" where
  "values_loop n i [] acc = acc"
| "values_loop n i (v # vs) acc =
     values_loop n (Suc i) vs
       (let acc = acc @ [quote] @ v @ [quote] in if i \<noteq> n - 1 then acc @ '','' else acc)"

fun rows_loop :: "string list list \<Rightarrow> string \<Rightarrow> string" where
  "rows_loop [] acc = acc"
| "rows_loop (rec # recs) acc =
     rows_loop recs (values_loop (length rec) 0 rec (acc @ ''('') @ ''),'')"

definition make_insert_statement :: "string \<Rightarrow> string list list \<Rightarrow> string res" where
  "make_insert_statement tbl records =
     pop_back (rows_loop records (''insert into `'' @ tbl @ ''` values''))"

definition make_insert_where_not_exists_statement ::
  "string \<Rightarrow> string list \<Rightarrow> 16 word \<Rightarrow> string list \<Rightarrow> string res" where
  "make_insert_where_not_exists_statement tbl names um rec =
     (let ret = values_loop (length rec) 0 rec (''insert into `'' @ tbl @ ''` select '');
          ret = ret @ '' where not exists(select 1 from `'' @ tbl @ ''` ''
      in rbind (make_where_clause names um rec) (\<lambda>w. Inr (ret @ w @ '')'')))"

section \<open>The texts, column by column\<close>

text \<open>The columns \<open>i\<close> with \<open>P i\<close>, with their values.\<close>

definition columns_where :: "(nat \<Rightarrow> bool) \<Rightarrow> nat \<Rightarrow> string list \<Rightarrow> string list \<Rightarrow> (string \<times> string) list" where
  "columns_where P i names vs = map snd (filter (\<lambda>p. P (fst p)) (enumerate i (zip names vs)))"

abbreviation key_columns_of :: "16 word \<Rightarrow> string list \<Rightarrow> string list \<Rightarrow> (string \<times> string) list" where
  "key_columns_of um names rec \<equiv> columns_where (bit um) 0 names rec"

abbreviation other_columns_of :: "16 word \<Rightarrow> string list \<Rightarrow> string list \<Rightarrow> (string \<times> string) list" where
  "other_columns_of um names rec \<equiv> columns_where (\<lambda>i. \<not> bit um i) 0 names rec"

fun assignment :: "string \<times> string \<Rightarrow> string" where
  "assignment (n, v) = n @ ''='' @ [quote] @ v @ [quote]"

definition quoted :: "string \<Rightarrow> string" where
  "quoted v = [quote] @ v @ [quote]"

lemma columns_where_Nil [simp]: "columns_where P i names [] = []"
  by (simp add: columns_where_def)

lemma columns_where_Cons [simp]:
  "columns_where P i (n # ns) (v # vs) =
     (if P i then (n, v) # columns_where P (Suc i) ns vs else columns_where P (Suc i) ns vs)"
  by (simp add: columns_where_def)

lemma columns_where_nonempty:
  "columns_where P i names vs \<noteq> [] \<longleftrightarrow> (\<exists>j < length (zip names vs). P (i + j))"
proof -
  have "columns_where P i names vs \<noteq> [] \<longleftrightarrow> (\<exists>p\<in>set (enumerate i (zip names vs)). P (fst p))"
    by (simp add: columns_where_def filter_empty_conv)
  also have "\<dots> \<longleftrightarrow> (\<exists>k. i \<le> k \<and> k < length (zip names vs) + i \<and> P k)"
    by (simp add: Bex_def in_set_enumerate_eq)
  also have "\<dots> \<longleftrightarrow> (\<exists>j < length (zip names vs). P (i + j))"
    by (metis add.commute add_less_cancel_left le_add1 le_add_diff_inverse)
  finally show ?thesis .
qed

lemma where_loop_text:
  assumes "length vs = length ns" and "i + length vs \<le> 32" and "drop i names = ns"
  shows "where_loop names um i vs acc =
    Inr (acc @ concat (map (\<lambda>p. assignment p @ '' and'') (columns_where (bit um) i ns vs)))"
  using assms
proof (induction vs ns arbitrary: i acc rule: list_induct2)
  case (Cons v vs n ns)
  from Cons.prems have "at names i = Inr n" "drop (Suc i) names = ns"
    using drop_Cons_nth [of i names n ns] by auto
  with Cons show ?case by (simp add: mask_bit_eq)
qed simp

lemma set_loop_text:
  assumes "length vs = length ns" and "i + length vs \<le> 32" and "drop i names = ns"
  shows "set_loop names um i vs acc =
    Inr (acc @ concat (map (\<lambda>p. assignment p @ '','') (columns_where (\<lambda>i. \<not> bit um i) i ns vs)))"
  using assms
proof (induction vs ns arbitrary: i acc rule: list_induct2)
  case (Cons v vs n ns)
  from Cons.prems have "at names i = Inr n" "drop (Suc i) names = ns"
    using drop_Cons_nth [of i names n ns] by auto
  with Cons show ?case by (simp add: mask_bit_eq)
qed simp

lemma values_loop_text:
  "i + length vs = n \<Longrightarrow> values_loop n i vs acc = acc @ join '','' (map quoted vs)"
proof (induction vs arbitrary: i acc)
  case (Cons v vs)
  then show ?case by (cases vs) (simp_all add: quoted_def Let_def)
qed simp

definition row_text :: "string list \<Rightarrow> string" where
  "row_text rec = ''('' @ join '','' (map quoted rec) @ '')''"

lemma rows_loop_text: "rows_loop recs acc = acc @ concat (map (\<lambda>r. row_text r @ '','') recs)"
  by (induction recs arbitrary: acc) (simp_all add: values_loop_text row_text_def)

lemma pop_back_append: "ys \<noteq> [] \<Longrightarrow> pop_back (xs @ ys) = Inr (xs @ butlast ys)"
  by (simp add: pop_back_def butlast_append)

lemma pop_back_four:
  "w = xs @ '' and'' \<Longrightarrow>
     rbind (pop_back w) (\<lambda>w. rbind (pop_back w) (\<lambda>w. rbind (pop_back w) pop_back)) = Inr xs"
  by (simp add: pop_back_append)

text \<open>A record of the table: one value per column, at most 32 columns.\<close>

definition record_ok :: "string list \<Rightarrow> string list \<Rightarrow> bool" where
  "record_ok names rec \<longleftrightarrow> length rec = length names \<and> length names \<le> 32"

lemma where_clause_text:
  assumes "record_ok names rec" and "key_columns_of um names rec \<noteq> []"
  shows "make_where_clause names um rec =
    Inr (''where '' @ join '' and'' (map assignment (key_columns_of um names rec)))"
proof -
  have "where_loop names um 0 rec ''where '' =
    Inr ((''where '' @ join '' and'' (map assignment (key_columns_of um names rec))) @ '' and'')"
    using assms where_loop_text [of rec names 0 names um "''where ''"]
    by (simp add: record_ok_def concat_map_sep)
  then show ?thesis by (simp add: make_where_clause_def pop_back_four del: append_assoc)
qed

lemma where_clause_no_key:
  assumes "record_ok names rec" and "key_columns_of um names rec = []"
  shows "make_where_clause names um rec = Inr ''wh''"
  using assms where_loop_text [of rec names 0 names um "''where ''"]
  by (simp add: make_where_clause_def record_ok_def pop_back_def)

section \<open>Reading an insert statement\<close>

text \<open>
  What a reader of the statement sees: a parenthesis opens a row, a value is the text
  between two quotes, a comma continues a row or the list of rows.  A backslash inside a
  value would start an escape sequence and is left out of the grammar.
\<close>

fun read_row :: "string list \<Rightarrow> string option \<Rightarrow> string \<Rightarrow> string list list option" where
  "read_row row (Some v) (c # s) =
     (if c = quote then read_row (row @ [v]) None s
      else if c = CHR 0x5C then None else read_row row (Some (v @ [c])) s)"
| "read_row row None (c # q # s) =
     (if c = CHR '','' \<and> q = quote then read_row row (Some []) s
      else if c = CHR '')'' \<and> q = CHR '',''
      then (case s of
              p # q' # s' \<Rightarrow>
                if p = CHR ''('' \<and> q' = quote
                then map_option ((#) row) (read_row [] (Some []) s') else None
            | _ \<Rightarrow> None)
      else None)"
| "read_row row None [c] = (if c = CHR '')'' then Some [row] else None)"
| "read_row row v [] = None"

definition read_rows :: "string \<Rightarrow> string list list option" where
  "read_rows s =
     (case s of
        p # q # s' \<Rightarrow> if p = CHR ''('' \<and> q = quote then read_row [] (Some []) s' else None
      | _ \<Rightarrow> None)"

definition read_insert :: "string \<Rightarrow> string \<Rightarrow> string list list option" where
  "read_insert tbl s =
     (let pre = ''insert into `'' @ tbl @ ''` values''
      in if take (length pre) s = pre then read_rows (drop (length pre) s) else None)"

definition plain_value :: "string \<Rightarrow> bool" where
  "plain_value v \<longleftrightarrow> quote \<notin> set v \<and> CHR 0x5C \<notin> set v"

lemma read_row_value:
  "plain_value v \<Longrightarrow>
     read_row row (Some u) (v @ quote # s) = read_row (row @ [u @ v]) None s"
  by (induction v arbitrary: u) (auto simp: plain_value_def)

lemma join_quoted:
  "join '','' (map quoted (v # vs)) = quote # v @ quote # concat (map (\<lambda>v. CHR '','' # quoted v) vs)"
  by (induction vs arbitrary: v) (simp_all add: quoted_def)

lemma read_row_values:
  "\<forall>v\<in>set vs. plain_value v \<Longrightarrow>
     read_row row None (concat (map (\<lambda>v. CHR '','' # quoted v) vs) @ s) = read_row (row @ vs) None s"
  by (induction vs arbitrary: row) (simp_all add: quoted_def read_row_value)

definition plain_record :: "string list \<Rightarrow> bool" where
  "plain_record rec \<longleftrightarrow> rec \<noteq> [] \<and> (\<forall>v\<in>set rec. plain_value v)"

lemma row_text_Cons:
  "row_text (v # vs) = CHR ''('' # quote # v @ quote # concat (map (\<lambda>v. CHR '','' # quoted v) vs) @ '')''"
  by (simp add: row_text_def join_quoted del: join.simps list.map)

lemma read_row_rows:
  "\<forall>r\<in>set recs. plain_record r \<Longrightarrow>
     read_row row None (CHR '')'' # concat (map (\<lambda>r. CHR '','' # row_text r) recs)) = Some (row # recs)"
proof (induction recs arbitrary: row)
  case (Cons r recs)
  then obtain v vs where r: "r = v # vs" "plain_value v" "\<forall>v\<in>set vs. plain_value v"
    by (cases r) (auto simp: plain_record_def)
  with Cons show ?case by (simp add: row_text_Cons read_row_value read_row_values)
qed simp

lemma join_Cons: "join sep (x # xs) = x @ concat (map (\<lambda>y. sep @ y) xs)"
  by (induction xs arbitrary: x) simp_all

lemma read_rows_text:
  assumes "recs \<noteq> []" and "\<forall>r\<in>set recs. plain_record r"
  shows "read_rows (join '','' (map row_text recs)) = Some recs"
proof -
  obtain v vs rs where r: "recs = (v # vs) # rs" "plain_value v" "\<forall>v\<in>set vs. plain_value v"
    using assms by (cases recs; cases "hd recs") (auto simp: plain_record_def)
  then show ?thesis using assms(2) read_row_rows [of rs "v # vs"]
    by (simp add: join_Cons row_text_Cons read_rows_def read_row_value read_row_values comp_def
        del: join.simps)
qed

lemma insert_statement_text:
  assumes "records \<noteq> []"
  shows "make_insert_statement tbl records =
    Inr (''insert into `'' @ tbl @ ''` values'' @ join '','' (map row_text records))"
proof -
  have "rows_loop records (''insert into `'' @ tbl @ ''` values'') =
      (''insert into `'' @ tbl @ ''` values'' @ join '','' (map row_text records)) @ '',''"
    using assms by (simp add: rows_loop_text concat_map_sep)
  then show ?thesis by (simp add: make_insert_statement_def del: append_assoc append_Cons)
qed

lemma update_statement_text:
  assumes "record_ok names rec" and "rec \<noteq> []"
    and "key_columns_of um names rec \<noteq> []" and "other_columns_of um names rec \<noteq> []"
  shows "make_update_statement tbl names um rec =
    Inr (''update `'' @ tbl @ ''` set '' @ join '','' (map assignment (other_columns_of um names rec)) @
      '' where '' @ join '' and'' (map assignment (key_columns_of um names rec)) @
      '' and `updated_at`<'' @ quoted (last rec))"
proof -
  have "set_loop names um 0 rec (''update `'' @ tbl @ ''` set '') =
      Inr ((''update `'' @ tbl @ ''` set '' @
        join '','' (map assignment (other_columns_of um names rec))) @ '','')"
    using assms set_loop_text [of rec names 0 names um "''update `'' @ tbl @ ''` set ''"]
    by (simp add: record_ok_def concat_map_sep)
  with assms show ?thesis
    by (simp add: make_update_statement_def where_clause_text at_Inr_iff last_conv_nth quoted_def
        del: append_assoc append_Cons)
qed

text \<open>A text that spans two elements of a list.\<close>

lemma join_split: "join sep (p @ (x @ sep @ y) # q) = join sep (p @ x # y # q)"
  by (cases p; cases q) (simp_all add: join_Cons del: join.simps)

lemma row_text_injected:
  "row_text (xs @ (u @ [quote] @ ''),('' @ [quote] @ v) # ys) = row_text (xs @ [u]) @ '','' @ row_text (v # ys)"
proof -
  have "join '','' (map quoted xs @ (quoted u @ ''),('' @ quoted v) # map quoted ys) =
      join '','' (map quoted xs @ [quoted u]) @ ''),('' @ join '','' (quoted v # map quoted ys)"
    by (cases xs; cases ys) (simp_all add: join_Cons del: join.simps)
  then show ?thesis by (simp add: row_text_def quoted_def)
qed

section \<open>Properties\<close>

text \<open>
  (C29) A record with a key column that is set and another that is not gives an update
  statement that assigns every other column in order, selects the row by the key columns,
  and guards it by the time stamp in the last column.
\<close>

theorem make_update_statement_text:
  assumes "record_ok names rec" and "rec \<noteq> []"
    and "key_columns_of um names rec \<noteq> []" and "other_columns_of um names rec \<noteq> []"
  shows "make_update_statement tbl names um rec =
    Inr (''update `'' @ tbl @ ''` set '' @ join '','' (map assignment (other_columns_of um names rec)) @
      '' where '' @ join '' and'' (map assignment (key_columns_of um names rec)) @
      '' and `updated_at`<'' @ quoted (last rec))"
  using assms by (rule update_statement_text)

theorem make_update_statement_text_witness:
  "make_update_statement ''t'' [''`id`'', ''`a`'', ''`updated_at`''] 1 [''7'', ''x'', ''2020''] =
    Inr (''update `t` set `a`='' @ quoted ''x'' @ '',`updated_at`='' @ quoted ''2020'' @
      '' where `id`='' @ quoted ''7'' @ '' and `updated_at`<'' @ quoted ''2020'')"
  using make_update_statement_text
    [of "[''`id`'', ''`a`'', ''`updated_at`'']" "[''7'', ''x'', ''2020'']" 1 "''t''"]
  by (simp add: record_ok_def quoted_def bit_1_iff)

text \<open>
  An insert statement of records whose values have neither quotes nor backslashes is
  read back as exactly these records.
\<close>

theorem insert_statement_roundtrip:
  assumes "records \<noteq> []" and "\<forall>r\<in>set records. plain_record r"
  shows "\<exists>s. make_insert_statement tbl records = Inr s \<and> read_insert tbl s = Some records"
  using insert_statement_text [OF assms(1), of tbl] read_rows_text [OF assms]
  by (simp add: read_insert_def)

theorem insert_statement_roundtrip_witness:
  "\<exists>s. make_insert_statement ''t'' [[''1'', ''a''], [''2'', []]] = Inr s \<and>
    read_insert ''t'' s = Some [[''1'', ''a''], [''2'', []]]"
  by (rule insert_statement_roundtrip) (simp_all add: plain_record_def plain_value_def)

text \<open>
  (C30) Values are not escaped: a value can close the row it stands in and open another.  In any
  batch, the record \<open>xs, u'),('v, ys\<close> gives a statement that inserts two rows in its place,
  \<open>xs, u\<close> and \<open>v, ys\<close>, and that is otherwise well-formed.
\<close>

theorem insert_statement_injection:
  assumes "\<forall>x\<in>set xs \<union> set ys \<union> {u, v}. plain_value x" and "\<forall>r\<in>set a \<union> set b. plain_record r"
  shows "\<exists>s. make_insert_statement tbl (a @ (xs @ [u @ [quote] @ ''),('' @ [quote] @ v] @ ys) # b) = Inr s \<and>
    read_insert tbl s = Some (a @ [xs @ [u], v # ys] @ b)"
proof -
  let ?r = "xs @ [u @ [quote] @ ''),('' @ [quote] @ v] @ ys"
  have r: "row_text ?r = row_text (xs @ [u]) @ '','' @ row_text (v # ys)"
    using row_text_injected [of xs u v ys] by simp
  have j: "join '','' (map row_text (a @ ?r # b)) = join '','' (map row_text (a @ [xs @ [u], v # ys] @ b))"
    using join_split [of "'',''" "map row_text a" "row_text (xs @ [u])" "row_text (v # ys)" "map row_text b"] r
    by simp
  have "make_insert_statement tbl (a @ ?r # b) = make_insert_statement tbl (a @ [xs @ [u], v # ys] @ b)"
    using insert_statement_text [of "a @ ?r # b" tbl, unfolded j]
      insert_statement_text [of "a @ [xs @ [u], v # ys] @ b" tbl]
    by (simp only: append_is_Nil_conv list.distinct simp_thms)
  moreover have "read_rows (join '','' (map row_text (a @ [xs @ [u], v # ys] @ b))) = Some (a @ [xs @ [u], v # ys] @ b)"
    using assms by (intro read_rows_text) (auto simp: plain_record_def)
  ultimately show ?thesis
    using insert_statement_text [of "a @ [xs @ [u], v # ys] @ b" tbl] by (simp add: read_insert_def)
qed

theorem insert_statement_injection_witness:
  "\<exists>s. make_insert_statement ''t'' [[''7'', ''x'' @ [quote] @ ''),('' @ [quote] @ ''8'', ''2020'']] = Inr s \<and>
    read_insert ''t'' s = Some [[''7'', ''x''], [''8'', ''2020'']]"
  using insert_statement_injection [of "[''7'']" "[''2020'']" "''x''" "''8''" "[]" "[]" "''t''"]
  by (simp add: plain_value_def)

text \<open>
  When no column is in the key mask, the four \<open>pop_back\<close>s that should remove the last
  \<^verbatim>\<open> and\<close> eat into the word \<^verbatim>\<open>where\<close>, and the insert-if-absent statement is not SQL.
\<close>

theorem where_clause_without_key:
  assumes "record_ok names rec" and "key_columns_of um names rec = []"
  shows "make_insert_where_not_exists_statement tbl names um rec =
    Inr (''insert into `'' @ tbl @ ''` select '' @ join '','' (map quoted rec) @
      '' where not exists(select 1 from `'' @ tbl @ ''` wh)'')"
  using where_clause_no_key [OF assms]
  by (simp add: make_insert_where_not_exists_statement_def values_loop_text)

theorem where_clause_without_key_witness:
  "make_insert_where_not_exists_statement ''t'' [''`updated_at`''] 0 [''2020''] =
    Inr (''insert into `t` select '' @ quoted ''2020'' @ '' where not exists(select 1 from `t` wh)'')"
  using where_clause_without_key [of "[''`updated_at`'']" "[''2020'']" 0 "''t''"]
  by (simp add: record_ok_def)

text \<open>
  With a key column, the insert-if-absent statement carries every value of the record
  and tests for a row with the same key.
\<close>

theorem insert_where_not_exists_text:
  assumes "record_ok names rec" and "key_columns_of um names rec \<noteq> []"
  shows "make_insert_where_not_exists_statement tbl names um rec =
    Inr (''insert into `'' @ tbl @ ''` select '' @ join '','' (map quoted rec) @
      '' where not exists(select 1 from `'' @ tbl @ ''` where '' @
      join '' and'' (map assignment (key_columns_of um names rec)) @ '')'')"
  using where_clause_text [OF assms]
  by (simp add: make_insert_where_not_exists_statement_def values_loop_text)

theorem insert_where_not_exists_text_witness:
  "make_insert_where_not_exists_statement ''t'' [''`id`'', ''`updated_at`''] 1 [''7'', ''2020''] =
    Inr (''insert into `t` select '' @ quoted ''7'' @ '','' @ quoted ''2020'' @
      '' where not exists(select 1 from `t` where `id`='' @ quoted ''7'' @ '')'')"
  using insert_where_not_exists_text [of "[''`id`'', ''`updated_at`'']" "[''7'', ''2020'']" 1 "''t''"]
  by (simp add: record_ok_def quoted_def bit_1_iff)

end
