(* ===== verification/Flat_Hash.thy ===== *)
theory Flat_Hash
  imports Prelude
begin

text \<open>
  The Robin Hood hash table of \<^verbatim>\<open>src/3rd/flat_hash_map/include/flat_hash_map.hpp\<close>
  (\<open>sherwood_v3_table\<close>) as \<open>shared::hash_set<XXH64_hash_t>\<close> instantiates it: the elements
  are 64-bit numbers, \<open>std::hash\<close> is the identity, the policy is \<open>fibonacci_hash_policy\<close>
  and \<open>_max_load_factor\<close> stays at 0.5, so that the comparisons with it are comparisons of
  doubled integers (exact in \<open>double\<close> below \<open>2 ^ 53\<close>).

  A pointer into the table is an index into the list of its entries; indexing past the list
  and reading the value of an entry that has none are faults.  \<open>lim\<close> is the largest number
  of entries the allocator of the shared segment grants in one allocation; a larger request
  throws \<open>std::bad_alloc\<close>.  \<open>grow\<close> and \<open>emplace\<close> call each other; \<open>emplace_at\<close> bounds the
  depth of that recursion, and 64 levels are shown to be enough.
\<close>

section \<open>Arithmetic of the sizes\<close>

definition smear :: "64 word \<Rightarrow> 64 word" where
  "smear v =
     (let v = v OR drop_bit 1 v; v = v OR drop_bit 2 v; v = v OR drop_bit 4 v;
          v = v OR drop_bit 8 v; v = v OR drop_bit 16 v
      in v OR drop_bit 32 v)"

definition log2_table :: "nat list" where
  "log2_table =
     [63,  0, 58,  1, 59, 47, 53,  2,
      60, 39, 48, 27, 54, 33, 42,  3,
      61, 51, 37, 40, 49, 18, 28, 20,
      55, 30, 34, 11, 43, 14, 22,  4,
      62, 57, 46, 52, 38, 26, 32, 41,
      50, 36, 17, 19, 29, 10, 13, 21,
      56, 45, 25, 31, 35, 16,  9, 12,
      44, 24, 15,  8, 23,  7,  6,  5]"

definition log2 :: "64 word \<Rightarrow> nat" where
  "log2 v = (let v = smear v in log2_table ! unat (drop_bit 58 ((v - drop_bit 1 v) * 0x07EDD5E59A4E28C2)))"

definition next_power_of_two :: "64 word \<Rightarrow> 64 word" where
  "next_power_of_two i = smear (i - 1) + 1"

text \<open>\<open>fibonacci_hash_policy\<close>.\<close>

definition index_for_hash :: "nat \<Rightarrow> 64 word \<Rightarrow> nat" where
  "index_for_hash sh h = unat (drop_bit sh (11400714819323198485 * h))"

definition next_size_over :: "nat \<Rightarrow> nat \<times> nat" where
  "next_size_over n =
     (let n = max 2 (next_power_of_two (of_nat n)) in (unat n, 64 - log2 n))"

definition compute_max_lookups :: "nat \<Rightarrow> nat" where
  "compute_max_lookups num_buckets = max 4 (log2 (of_nat num_buckets))"

definition window :: "nat \<Rightarrow> 64 word \<Rightarrow> 64 word \<Rightarrow> bool" where
  "window m w v \<longleftrightarrow> (\<forall>i. bit v i \<longleftrightarrow> (\<exists>k<m. bit w (i + k)))"

lemma window_double: "window m w v \<Longrightarrow> n = m + m \<Longrightarrow> window n w (v OR drop_bit m v)"
proof (unfold window_def, intro allI iffI)
  fix i assume v: "\<forall>i. bit v i \<longleftrightarrow> (\<exists>k<m. bit w (i + k))" and n: "n = m + m"
  {
    assume "bit (v OR drop_bit m v) i"
    then obtain k where "k < m" "bit w (i + k) \<or> bit w (i + (m + k))"
      by (auto simp: bit_or_iff bit_drop_bit_eq v ac_simps)
    then have "k < n \<and> bit w (i + k) \<or> m + k < n \<and> bit w (i + (m + k))"
      by (auto simp: n)
    then show "\<exists>k<n. bit w (i + k)" by blast
  next
    assume "\<exists>k<n. bit w (i + k)"
    then obtain k where k: "k < m + m" "bit w (i + k)" by (auto simp: n)
    show "bit (v OR drop_bit m v) i"
    proof (cases "k < m")
      case True
      then show ?thesis using k(2) by (auto simp: bit_or_iff v)
    next
      case False
      then have "bit v (m + i)" using k by (auto simp: v intro!: exI [of _ "k - m"] simp: ac_simps)
      then show ?thesis by (simp add: bit_or_iff bit_drop_bit_eq)
    qed
  }
qed

lemma bit_smear: "bit (smear w) i \<longleftrightarrow> (\<exists>j\<ge>i. bit w j)"
proof -
  have "window 1 w w" by (simp add: window_def)
  then have "window 64 w (smear w)"
    unfolding smear_def Let_def
    by (intro window_double [where m = 32] window_double [where m = 16] window_double [where m = 8]
        window_double [where m = 4] window_double [where m = 2] window_double [where m = 1]) simp_all
  then have "bit (smear w) i \<longleftrightarrow> (\<exists>k<64. bit w (i + k))" by (simp add: window_def)
  also have "\<dots> \<longleftrightarrow> (\<exists>j\<ge>i. bit w j)"
  proof
    assume "\<exists>j\<ge>i. bit w j"
    then obtain j where "i \<le> j" "bit w j" by blast
    moreover from this have "j < 64" using bit_imp_le_length [of w j] by simp
    ultimately show "\<exists>k<64. bit w (i + k)" by (intro exI [of _ "j - i"]) auto
  next
    assume "\<exists>k<64. bit w (i + k)"
    then show "\<exists>j\<ge>i. bit w j" by (blast intro: le_add1)
  qed
  finally show ?thesis .
qed

lemma smear_mask:
  assumes "unat w < 2 ^ k" and "k = 0 \<or> 2 ^ (k - 1) \<le> unat w" and "k \<le> 64"
  shows "smear w = mask k"
proof (rule bit_word_eqI)
  fix i assume "i < LENGTH(64)"
  have b: "bit w j \<longleftrightarrow> odd (unat w div 2 ^ j)" for j
    by (simp flip: bit_iff_odd add: bit_unsigned_iff)
  have hi: "\<not> bit w j" if "k \<le> j" for j
  proof -
    have "unat w < 2 ^ j" using assms(1) that
      by (meson less_le_trans one_le_numeral power_increasing)
    then show ?thesis by (simp add: b)
  qed
  have top: "bit w (k - 1)" if "k \<noteq> 0"
  proof -
    have "(2::nat) ^ k = 2 * 2 ^ (k - 1)" using that by (simp flip: power_Suc)
    then have "unat w div 2 ^ (k - 1) = 1"
      using assms(1,2) that by (intro div_nat_eqI) simp_all
    then show ?thesis by (simp add: b)
  qed
  show "bit (smear w) i \<longleftrightarrow> bit (mask k :: 64 word) i"
  proof (cases "i < k")
    case True
    then have "bit w (k - 1)" "i \<le> k - 1" using top by auto
    then have "bit (smear w) i" unfolding bit_smear by blast
    then show ?thesis using True \<open>i < LENGTH(64)\<close> by (simp add: bit_mask_iff)
  next
    case False
    then show ?thesis using hi by (auto simp: bit_smear bit_mask_iff)
  qed
qed

lemma bit_length:
  fixes m :: nat
  shows "\<exists>k. m < 2 ^ k \<and> (k = 0 \<or> 2 ^ (k - 1) \<le> m)"
proof -
  define k where "k = (LEAST k. m < 2 ^ k)"
  have "m < 2 ^ m" by (rule less_exp)
  then have "m < 2 ^ k" unfolding k_def by (rule LeastI)
  moreover have "k = 0 \<or> 2 ^ (k - 1) \<le> m"
  proof (cases k)
    case (Suc j)
    then have "\<not> m < 2 ^ j" using not_less_Least [of j "\<lambda>k. m < 2 ^ k", folded k_def] by simp
    then show ?thesis using Suc by simp
  qed simp
  ultimately show ?thesis by blast
qed

lemma next_power_of_two_exp:
  assumes "1 \<le> n" and "n \<le> 2 ^ 63"
  obtains k where "k \<le> 63" and "next_power_of_two (of_nat n) = 2 ^ k"
    and "n \<le> 2 ^ k" and "k = 0 \<or> 2 ^ (k - 1) < n"
proof -
  obtain k where k: "n - 1 < 2 ^ k" "k = 0 \<or> 2 ^ (k - 1) \<le> n - 1"
    using bit_length [of "n - 1"] by blast
  have "k \<le> 63"
  proof (rule ccontr)
    assume "\<not> k \<le> 63"
    then have "(2::nat) ^ 63 \<le> 2 ^ (k - 1)" by (intro power_increasing) simp_all
    then show False using k(2) \<open>\<not> k \<le> 63\<close> assms by linarith
  qed
  moreover have "(of_nat n - 1 :: 64 word) = of_nat (n - 1)"
    using assms(1) by (simp add: of_nat_diff)
  then have u: "unat (of_nat n - 1 :: 64 word) = n - 1"
    using assms by (simp add: unsigned_of_nat take_bit_nat_eq_self del: of_nat_diff One_nat_def)
  have "smear (of_nat n - 1) = mask k"
    by (rule smear_mask) (use k u \<open>k \<le> 63\<close> in simp_all)
  then have "next_power_of_two (of_nat n) = 2 ^ k"
    by (simp add: next_power_of_two_def mask_eq_exp_minus_1 push_bit_of_1)
  moreover have "n \<le> 2 ^ k" using k(1) by simp
  moreover have "k = 0 \<or> 2 ^ (k - 1) < n" using k(2) assms(1) by auto
  ultimately show ?thesis using that by blast
qed

lemma unat_two_power: "k < 64 \<Longrightarrow> unat (2 ^ k :: 64 word) = 2 ^ k"
proof -
  assume "k < 64"
  have "unat (of_nat (2 ^ k) :: 64 word) = take_bit 64 (2 ^ k)"
    by (simp only: unsigned_of_nat) simp
  also have "\<dots> = 2 ^ k"
    by (rule take_bit_nat_eq_self, rule power_strict_increasing) (use \<open>k < 64\<close> in simp_all)
  finally show ?thesis by simp
qed

text \<open>
  The multiplication of a power of two by the constant is a shift of it, whose upper six
  bits are different for each of the 64 shifts: the table sorts them out.
\<close>

lemma log2_table_check:
  "list_all (\<lambda>k. log2_table ! nat (0x07EDD5E59A4E28C2 * 2 ^ k mod 2 ^ 64 div 2 ^ 58) = k) [0..<64]"
  by code_simp

lemma log2_exp:
  assumes "k < 64"
  shows "log2 (2 ^ k) = k"
proof -
  have s: "smear (2 ^ k) = mask (Suc k)"
    using assms by (intro smear_mask) (simp_all add: unat_two_power)
  have "mask (Suc k) - drop_bit 1 (mask (Suc k)) = (2 ^ k :: 64 word)"
  proof -
    have "drop_bit 1 (mask (Suc k)) = (mask k :: 64 word)"
      by (rule bit_word_eqI) (use assms in \<open>auto simp: bit_drop_bit_eq bit_mask_iff\<close>)
    then show ?thesis by (simp add: mask_eq_exp_minus_1)
  qed
  then have "log2 (2 ^ k) = log2_table ! unat (drop_bit 58 (2 ^ k * 0x07EDD5E59A4E28C2 :: 64 word))"
    by (simp only: log2_def Let_def s)
  also have "unat (drop_bit 58 (2 ^ k * 0x07EDD5E59A4E28C2 :: 64 word)) =
      drop_bit 58 (2 ^ k * 0x07EDD5E59A4E28C2 mod 2 ^ 64)"
    unfolding unat_drop_bit_eq unat_word_ariths unat_two_power [OF assms] by simp
  also have "\<dots> = nat (0x07EDD5E59A4E28C2 * 2 ^ k mod 2 ^ 64 div 2 ^ 58)"
    unfolding drop_bit_eq_div by (simp add: nat_div_distrib nat_mod_distrib nat_mult_distrib nat_power_eq mult.commute)
  also have "log2_table ! \<dots> = k"
    using log2_table_check assms by (simp only: list_all_iff set_upt atLeastLessThan_iff) simp
  finally show ?thesis .
qed

lemma max_two_power:
  "k \<le> 63 \<Longrightarrow> max 2 (2 ^ k :: 64 word) = 2 ^ max 1 k"
proof (cases "k = 0")
  case False
  assume "k \<le> 63"
  have "(2 :: 64 word) \<le> 2 ^ k"
    using \<open>k \<le> 63\<close> False power_increasing [of 1 k "2::nat"]
    by (simp add: word_le_nat_alt unat_two_power)
  then show ?thesis using False by (simp add: max_def)
qed simp

text \<open>
  The table sizes are powers of two, and a hash is mapped to one of the \<open>2 ^ k\<close> slots by
  its upper \<open>k\<close> bits after a multiplication.
\<close>

lemma next_size_over_exp:
  assumes "1 \<le> n" and "n \<le> 2 ^ 63"
  obtains k where "1 \<le> k" and "k \<le> 63" and "next_size_over n = (2 ^ k, 64 - k)"
    and "n \<le> 2 ^ k" and "k = 1 \<or> 2 ^ (k - 1) < n"
proof -
  obtain k where k: "k \<le> 63" "next_power_of_two (of_nat n) = 2 ^ k"
    "n \<le> 2 ^ k" "k = 0 \<or> 2 ^ (k - 1) < n"
    by (rule next_power_of_two_exp [OF assms])
  have "next_size_over n = (2 ^ max 1 k, 64 - max 1 k)"
    using k(1) by (simp add: next_size_over_def k(2) max_two_power log2_exp unat_two_power)
  moreover have "n \<le> 2 ^ max 1 k"
    by (rule order.trans [OF k(3)], rule power_increasing) simp_all
  moreover have "max 1 k = 1 \<or> 2 ^ (max 1 k - 1) < n" using k(4) by (auto simp: max_def)
  ultimately show ?thesis using k(1) that [of "max 1 k"] by simp
qed

lemma compute_max_lookups_exp: "k \<le> 63 \<Longrightarrow> compute_max_lookups (2 ^ k) = max 4 k"
  using log2_exp [of k] by (simp add: compute_max_lookups_def push_bit_of_1)

lemma index_for_hash_less: "k \<le> 64 \<Longrightarrow> index_for_hash (64 - k) h < 2 ^ k"
proof -
  assume "k \<le> 64"
  have "unat (11400714819323198485 * h) < 2 ^ 64"
    using unsigned_less [of "11400714819323198485 * h :: 64 word", where 'a = nat] by simp
  also have "(2::nat) ^ 64 = 2 ^ k * 2 ^ (64 - k)" using \<open>k \<le> 64\<close> by (simp flip: power_add)
  finally show ?thesis
    unfolding index_for_hash_def unat_drop_bit_eq
    unfolding drop_bit_eq_div by (rule less_mult_imp_div_less)
qed

section \<open>The table\<close>

text \<open>
  An entry holds a value when its distance is not negative; the last entry of a table has
  distance 0 and no value, to stop iterators.
\<close>

record sherwood_v3_entry =
  distance_from_desired :: int
  entry_value :: "64 word option"

definition has_value :: "sherwood_v3_entry \<Rightarrow> bool" where
  "has_value e \<longleftrightarrow> distance_from_desired e \<ge> 0"

definition is_empty :: "sherwood_v3_entry \<Rightarrow> bool" where
  "is_empty e \<longleftrightarrow> distance_from_desired e < 0"

definition is_at_desired_position :: "sherwood_v3_entry \<Rightarrow> bool" where
  "is_at_desired_position e \<longleftrightarrow> distance_from_desired e \<le> 0"

definition vacant :: sherwood_v3_entry where
  "vacant = \<lparr>distance_from_desired = -1, entry_value = None\<rparr>"

definition special_end :: sherwood_v3_entry where
  "special_end = \<lparr>distance_from_desired = 0, entry_value = None\<rparr>"

definition emplaced :: "nat \<Rightarrow> 64 word \<Rightarrow> sherwood_v3_entry" where
  "emplaced d v = \<lparr>distance_from_desired = int d, entry_value = Some v\<rparr>"

definition value_of :: "sherwood_v3_entry \<Rightarrow> 64 word res" where
  "value_of e = (case entry_value e of None \<Rightarrow> Inl Uninitialised | Some v \<Rightarrow> Inr v)"

record flat_hash_set =
  entries :: "sherwood_v3_entry list"
  num_slots_minus_one :: nat
  shift :: nat
  max_lookups :: nat
  num_elements :: nat

definition empty_default_table :: "sherwood_v3_entry list" where
  "empty_default_table = [vacant, vacant, vacant, special_end]"

definition empty_set_table :: flat_hash_set where
  "empty_set_table =
     \<lparr>entries = empty_default_table, num_slots_minus_one = 0, shift = 63, max_lookups = 3,
      num_elements = 0\<rparr>"

definition bucket_count :: "flat_hash_set \<Rightarrow> nat" where
  "bucket_count t = (if num_slots_minus_one t \<noteq> 0 then num_slots_minus_one t + 1 else 0)"

text \<open>The position of \<open>end()\<close>.\<close>

definition end_pos :: "flat_hash_set \<Rightarrow> nat" where
  "end_pos t = num_slots_minus_one t + max_lookups t"

text \<open>
  The loop that \<open>find\<close> and \<open>emplace\<close> share: from position \<open>pos\<close> at distance \<open>d\<close>, the
  position of \<open>key\<close>, or where it would have to be.
\<close>

function probe :: "sherwood_v3_entry list \<Rightarrow> 64 word \<Rightarrow> nat \<Rightarrow> nat \<Rightarrow> (bool \<times> nat \<times> nat) res" where
  "probe es key pos d =
     rbind (at es pos) (\<lambda>e.
       if distance_from_desired e \<ge> int d
       then rbind (value_of e) (\<lambda>v.
         if v = key then Inr (True, pos, d) else probe es key (Suc pos) (Suc d))
       else Inr (False, pos, d))"
  by pat_completeness auto
termination
  by (relation "measure (\<lambda>(es, key, pos, d). length es - pos)") (auto simp: at_Inr_iff)

declare probe.simps [simp del]

definition find_pos :: "flat_hash_set \<Rightarrow> 64 word \<Rightarrow> nat res" where
  "find_pos t key =
     rbind (probe (entries t) key (index_for_hash (shift t) key) 0) (\<lambda>(found, pos, d).
       Inr (if found then pos else end_pos t))"

text \<open>
  The second half of \<open>emplace_new_key\<close>: the value \<open>c\<close> in hand is put at position \<open>pos\<close> if
  that is empty, changes places with a value nearer to its desired position, or moves on.
  The result is the value left in hand when \<open>max_lookups\<close> is reached.
\<close>

function displace :: "nat \<Rightarrow> sherwood_v3_entry list \<Rightarrow> nat \<Rightarrow> nat \<Rightarrow> 64 word \<Rightarrow>
    (sherwood_v3_entry list \<times> 64 word option) res" where
  "displace ml es pos d c =
     rbind (at es pos) (\<lambda>e.
       if is_empty e then Inr (es[pos := emplaced d c], None)
       else if distance_from_desired e < int d
       then rbind (value_of e) (\<lambda>v.
         displace ml (es[pos := emplaced d c]) (Suc pos) (Suc (nat (distance_from_desired e))) v)
       else if Suc d = ml then Inr (es, Some c)
       else displace ml es (Suc pos) (Suc d) c)"
  by pat_completeness auto
termination
  by (relation "measure (\<lambda>(ml, es, pos, d, c). length es - pos)") (auto simp: at_Inr_iff)

declare displace.simps [simp del]

text \<open>
  \<open>emplace_new_key\<close> with the functions \<open>grow\<close> and \<open>emplace\<close> it calls.  The result is the
  table, the position of the key and whether it is new.
\<close>

definition emplace_new_key ::
  "(flat_hash_set \<Rightarrow> flat_hash_set res) \<Rightarrow>
   (flat_hash_set \<Rightarrow> 64 word \<Rightarrow> (flat_hash_set \<times> nat \<times> bool) res) \<Rightarrow>
   flat_hash_set \<Rightarrow> nat \<Rightarrow> nat \<Rightarrow> 64 word \<Rightarrow> (flat_hash_set \<times> nat \<times> bool) res" where
  "emplace_new_key grow emplace t d pos key =
     (if num_slots_minus_one t = 0 \<or> d = max_lookups t \<or>
         2 * (num_elements t + 1) > num_slots_minus_one t + 1
      then rbind (grow t) (\<lambda>t. emplace t key)
      else rbind (at (entries t) pos) (\<lambda>e.
        if is_empty e
        then Inr (t\<lparr>entries := (entries t)[pos := emplaced d key],
                    num_elements := num_elements t + 1\<rparr>, pos, True)
        else rbind (value_of e) (\<lambda>v.
          rbind (displace (max_lookups t) ((entries t)[pos := emplaced d key]) (Suc pos)
                   (Suc (nat (distance_from_desired e))) v) (\<lambda>(es, rest).
            case rest of
              None \<Rightarrow> Inr (t\<lparr>entries := es, num_elements := num_elements t + 1\<rparr>, pos, True)
            | Some c \<Rightarrow>
                rbind (at es pos) (\<lambda>r. rbind (value_of r) (\<lambda>k.
                rbind (grow (t\<lparr>entries := es[pos := r\<lparr>entry_value := Some c\<rparr>]\<rparr>)) (\<lambda>t.
                  emplace t k)))))))"

definition emplace_once ::
  "(flat_hash_set \<Rightarrow> flat_hash_set res) \<Rightarrow>
   (flat_hash_set \<Rightarrow> 64 word \<Rightarrow> (flat_hash_set \<times> nat \<times> bool) res) \<Rightarrow>
   flat_hash_set \<Rightarrow> 64 word \<Rightarrow> (flat_hash_set \<times> nat \<times> bool) res" where
  "emplace_once grow emplace t key =
     rbind (probe (entries t) key (index_for_hash (shift t) key) 0) (\<lambda>(found, pos, d).
       if found then Inr (t, pos, False) else emplace_new_key grow emplace t d pos key)"

fun reinsert ::
  "(flat_hash_set \<Rightarrow> 64 word \<Rightarrow> (flat_hash_set \<times> nat \<times> bool) res) \<Rightarrow>
   sherwood_v3_entry list \<Rightarrow> flat_hash_set \<Rightarrow> flat_hash_set res" where
  "reinsert emplace [] t = Inr t"
| "reinsert emplace (e # es) t =
     (if has_value e
      then rbind (value_of e) (\<lambda>v. rbind (emplace t v) (\<lambda>(t, _, _). reinsert emplace es t))
      else reinsert emplace es t)"

definition reset_to_empty_state :: "flat_hash_set \<Rightarrow> flat_hash_set" where
  "reset_to_empty_state t =
     t\<lparr>entries := empty_default_table, num_slots_minus_one := 0, shift := 63, max_lookups := 3\<rparr>"

text \<open>\<open>std::ceil(num_elements / 0.5f)\<close> is twice the number of elements.\<close>

definition rehash ::
  "nat \<Rightarrow> (flat_hash_set \<Rightarrow> 64 word \<Rightarrow> (flat_hash_set \<times> nat \<times> bool) res) \<Rightarrow>
   flat_hash_set \<Rightarrow> nat \<Rightarrow> flat_hash_set res" where
  "rehash lim emplace t num_buckets =
     (let num_buckets = max num_buckets (2 * num_elements t) in
      if num_buckets = 0 then Inr (reset_to_empty_state t)
      else let (num_buckets, new_shift) = next_size_over num_buckets in
        if num_buckets = bucket_count t then Inr t
        else let new_max_lookups = compute_max_lookups num_buckets in
          rbind (check Throws_Bad_Alloc (num_buckets + new_max_lookups \<le> lim)) (\<lambda>_.
            reinsert emplace (take (num_slots_minus_one t + max_lookups t) (entries t))
              (t\<lparr>entries := replicate (num_buckets + new_max_lookups - 1) vacant @ [special_end],
                 num_slots_minus_one := num_buckets - 1, shift := new_shift,
                 max_lookups := new_max_lookups, num_elements := 0\<rparr>)))"

definition grow ::
  "nat \<Rightarrow> (flat_hash_set \<Rightarrow> 64 word \<Rightarrow> (flat_hash_set \<times> nat \<times> bool) res) \<Rightarrow>
   flat_hash_set \<Rightarrow> flat_hash_set res" where
  "grow lim emplace t = rehash lim emplace t (max 4 (2 * bucket_count t))"

primrec emplace_at :: "nat \<Rightarrow> nat \<Rightarrow> flat_hash_set \<Rightarrow> 64 word \<Rightarrow> (flat_hash_set \<times> nat \<times> bool) res" where
  "emplace_at lim 0 = (\<lambda>t key. Inl Stack_Overflow)"
| "emplace_at lim (Suc n) = emplace_once (grow lim (emplace_at lim n)) (emplace_at lim n)"

definition emplace :: "nat \<Rightarrow> flat_hash_set \<Rightarrow> 64 word \<Rightarrow> (flat_hash_set \<times> nat \<times> bool) res" where
  "emplace lim = emplace_at lim 64"

definition insert_key :: "nat \<Rightarrow> flat_hash_set \<Rightarrow> 64 word \<Rightarrow> flat_hash_set res" where
  "insert_key lim t key = rbind (emplace lim t key) (\<lambda>(t, _, _). Inr t)"

definition count :: "flat_hash_set \<Rightarrow> 64 word \<Rightarrow> nat res" where
  "count t key = rbind (find_pos t key) (\<lambda>pos. Inr (if pos = end_pos t then 0 else 1))"

definition num_buckets_for_reserve :: "nat \<Rightarrow> nat" where
  "num_buckets_for_reserve n = 2 * n"

definition reserve :: "nat \<Rightarrow> flat_hash_set \<Rightarrow> nat \<Rightarrow> flat_hash_set res" where
  "reserve lim t n =
     (let required_buckets = num_buckets_for_reserve n in
      if required_buckets > bucket_count t then rehash lim (emplace lim) t required_buckets else Inr t)"

definition clear :: "flat_hash_set \<Rightarrow> flat_hash_set" where
  "clear t =
     (let n = num_slots_minus_one t + max_lookups t in
      t\<lparr>entries := map (\<lambda>e. if has_value e then vacant else e) (take n (entries t)) @ drop n (entries t),
        num_elements := 0\<rparr>)"

section \<open>The invariant of the entries\<close>

text \<open>
  \<open>holds es i v\<close>: position \<open>i\<close> (not the last) holds the value \<open>v\<close>.
\<close>

definition holds :: "sherwood_v3_entry list \<Rightarrow> nat \<Rightarrow> 64 word \<Rightarrow> bool" where
  "holds es i v \<longleftrightarrow> Suc i < length es \<and> has_value (es ! i) \<and> entry_value (es ! i) = Some v"

definition elements :: "sherwood_v3_entry list \<Rightarrow> 64 word set" where
  "elements es = {v. \<exists>i. holds es i v}"

text \<open>
  A laid out table: every value stands at its desired position plus its distance, which is
  below \<open>ml\<close>; from one position to the next the distance grows by at most one (so the
  values are sorted by their desired positions and there is no gap before a value that is
  not at its desired position); no value stands twice.
\<close>

definition slot_ok :: "nat \<Rightarrow> nat \<Rightarrow> nat \<Rightarrow> sherwood_v3_entry \<Rightarrow> bool" where
  "slot_ok sh ml i e \<longleftrightarrow>
     distance_from_desired e = -1 \<or>
     (\<exists>d v. d < ml \<and> e = emplaced d v \<and> i = index_for_hash sh v + d)"

definition laid_out :: "nat \<Rightarrow> nat \<Rightarrow> nat \<Rightarrow> sherwood_v3_entry list \<Rightarrow> bool" where
  "laid_out sh slots ml es \<longleftrightarrow>
     0 < ml \<and> length es = slots + ml \<and> (\<forall>v. index_for_hash sh v < slots) \<and>
     distance_from_desired (es ! (slots + ml - 1)) = 0 \<and>
     (\<forall>i. Suc i < length es \<longrightarrow> slot_ok sh ml i (es ! i)) \<and>
     (\<forall>i. Suc (Suc i) < length es \<longrightarrow>
        distance_from_desired (es ! Suc i) \<le> distance_from_desired (es ! i) + 1) \<and>
     (\<forall>i j v. holds es i v \<longrightarrow> holds es j v \<longrightarrow> i = j)"

lemma emplaced_simps [simp]:
  "distance_from_desired (emplaced d v) = int d" "entry_value (emplaced d v) = Some v"
  "has_value (emplaced d v)" "\<not> is_empty (emplaced d v)" "value_of (emplaced d v) = Inr v"
  by (simp_all add: emplaced_def has_value_def is_empty_def value_of_def)

lemma emplaced_inject [simp]: "emplaced d v = emplaced d' v' \<longleftrightarrow> d = d' \<and> v = v'"
  by (simp add: emplaced_def)

lemma has_value_not_empty: "has_value e \<longleftrightarrow> \<not> is_empty e"
  by (auto simp: has_value_def is_empty_def)

lemma slot_cases:
  assumes "laid_out sh slots ml es" and "Suc i < length es"
  obtains (empty) "is_empty (es ! i)" "distance_from_desired (es ! i) = -1"
  | (filled) d v where "es ! i = emplaced d v" "d < ml" "i = index_for_hash sh v + d" "holds es i v"
proof -
  have "slot_ok sh ml i (es ! i)" using assms by (simp add: laid_out_def)
  then show ?thesis
    using empty filled assms(2) by (auto simp: slot_ok_def is_empty_def holds_def)
qed

lemma distance_low:
  assumes "laid_out sh slots ml es" and "i < length es"
  shows "distance_from_desired (es ! i) \<ge> -1"
proof (cases "Suc i < length es")
  case True
  with assms(1) show ?thesis by (cases rule: slot_cases) simp_all
next
  case False
  with assms have "i = slots + ml - 1" by (auto simp: laid_out_def)
  with assms(1) show ?thesis by (simp add: laid_out_def)
qed

lemma holds_filled:
  assumes "laid_out sh slots ml es" and "holds es i v"
  shows "\<exists>d. es ! i = emplaced d v \<and> d < ml \<and> i = index_for_hash sh v + d"
proof -
  have "Suc i < length es" using assms(2) by (simp add: holds_def)
  with assms(1) show ?thesis
  proof (cases rule: slot_cases)
    case empty
    then show ?thesis using assms(2) by (simp add: holds_def has_value_not_empty)
  next
    case (filled d w)
    then show ?thesis using assms(2) by (simp add: holds_def)
  qed
qed

text \<open>Before a value there is no entry that would make the search give up.\<close>

lemma robin_hood:
  assumes "laid_out sh slots ml es" and "i \<le> j" and "Suc j < length es"
  shows "distance_from_desired (es ! j) \<le> distance_from_desired (es ! i) + int (j - i)"
  using assms(2,3)
proof (induction j rule: dec_induct)
  case (step j)
  have "distance_from_desired (es ! Suc j) \<le> distance_from_desired (es ! j) + 1"
    using assms(1) step.prems by (simp add: laid_out_def)
  then show ?case using step by (simp add: Suc_diff_le)
qed simp

lemma probe_spec:
  assumes "laid_out sh slots ml es" and "h = index_for_hash sh key" and "d \<le> ml"
    and "\<And>i. holds es i key \<Longrightarrow> h + d \<le> i"
    and "0 < d \<longrightarrow> int d \<le> distance_from_desired (es ! (h + d - 1)) + 1"
  shows "\<exists>d'\<le>ml. probe es key (h + d) d = Inr (key \<in> elements es, h + d', d') \<and> h + d' < length es \<and>
    (if key \<in> elements es then holds es (h + d') key
     else distance_from_desired (es ! (h + d')) < int d' \<and>
       (0 < d' \<longrightarrow> int d' \<le> distance_from_desired (es ! (h + d' - 1)) + 1))"
  using assms(3-5)
proof (induction "ml - d" arbitrary: d rule: less_induct)
  case less
  have h: "h < slots" and len: "length es = slots + ml" "0 < ml"
    using assms(1,2) by (auto simp: laid_out_def)
  then have at: "at es (h + d) = Inr (es ! (h + d))" using less.prems(1) by simp
  show ?case
  proof (cases "distance_from_desired (es ! (h + d)) \<ge> int d")
    case False
    have "key \<notin> elements es"
    proof
      assume "key \<in> elements es"
      then obtain i where i: "holds es i key" by (auto simp: elements_def)
      then obtain e where e: "es ! i = emplaced e key" "i = h + e"
        using holds_filled [OF assms(1)] assms(2) by blast
      then have "int e \<le> distance_from_desired (es ! (h + d)) + int (i - (h + d))"
        using robin_hood [OF assms(1) less.prems(2) [OF i]] i by (simp add: holds_def)
      then show False using False less.prems(2) [OF i] e(2) by simp
    qed
    then show ?thesis using False less.prems(1,3) at h len
      by (intro exI [of _ d]) (auto simp: probe.simps [of es key "h + d" d])
  next
    case True
    have "Suc (h + d) < length es"
    proof (rule ccontr)
      assume "\<not> ?thesis"
      then have "h + d = slots + ml - 1" "d = ml" using h len less.prems(1) by auto
      then show False using True assms(1) len by (simp add: laid_out_def)
    qed
    from assms(1) this obtain e v where v: "es ! (h + d) = emplaced e v" "e < ml" "holds es (h + d) v"
      using True by (cases rule: slot_cases) auto
    with True have "d < ml" by simp
    show ?thesis
    proof (cases "v = key")
      case True
      then have "key \<in> elements es" using v(3) by (auto simp: elements_def)
      then show ?thesis using v True at \<open>d < ml\<close> \<open>Suc (h + d) < length es\<close> \<open>distance_from_desired (es ! (h + d)) \<ge> int d\<close>
        by (intro exI [of _ d]) (simp add: probe.simps [of es key "h + d" d])
    next
      case False
      have "h + Suc d \<le> i" if "holds es i key" for i
      proof -
        have "i \<noteq> h + d" using that v(3) False by (auto simp: holds_def)
        then show ?thesis using less.prems(2) [OF that] by simp
      qed
      then have "\<exists>d'\<le>ml. probe es key (h + Suc d) (Suc d) = Inr (key \<in> elements es, h + d', d') \<and>
        h + d' < length es \<and>
        (if key \<in> elements es then holds es (h + d') key
         else distance_from_desired (es ! (h + d')) < int d' \<and>
           (0 < d' \<longrightarrow> int d' \<le> distance_from_desired (es ! (h + d' - 1)) + 1))"
        using \<open>d < ml\<close> True by (intro less.hyps) auto
      moreover have "probe es key (h + d) d = probe es key (h + Suc d) (Suc d)"
        using at True v(1) False by (simp add: probe.simps [of es key "h + d" d])
      ultimately show ?thesis by simp
    qed
  qed
qed

section \<open>Placing a value\<close>

lemma holds_update:
  "Suc p < length es \<Longrightarrow> holds (es[p := emplaced d c]) i v \<longleftrightarrow> (if i = p then v = c else holds es i v)"
  by (auto simp: holds_def nth_list_update)

text \<open>
  A new value may stand at a position whose entry is nearer to its desired position; the
  value that stood there, if any, is out of the table then.
\<close>

lemma place:
  assumes l: "laid_out sh slots ml es" and p: "p = index_for_hash sh c + d" "d < ml"
    and less: "distance_from_desired (es ! p) < int d"
    and prev: "0 < d \<longrightarrow> int d \<le> distance_from_desired (es ! (p - 1)) + 1"
    and new: "c \<notin> elements es"
  shows "Suc p < length es" and "laid_out sh slots ml (es[p := emplaced d c])"
    and "elements (es[p := emplaced d c]) = insert c (elements es - {v. holds es p v})"
proof -
  have len: "length es = slots + ml" and "index_for_hash sh c < slots"
    using l by (auto simp: laid_out_def)
  with p show pl: "Suc p < length es" by simp
  show "elements (es[p := emplaced d c]) = insert c (elements es - {v. holds es p v})"
    using pl l new by (auto simp: elements_def holds_update laid_out_def split: if_splits)
  have next_le: "distance_from_desired (es[p := emplaced d c] ! Suc i)
      \<le> distance_from_desired (es[p := emplaced d c] ! i) + 1" if "Suc (Suc i) < length es" for i
  proof -
    have "distance_from_desired (es ! Suc i) \<le> distance_from_desired (es ! i) + 1"
      using l that by (simp add: laid_out_def)
    moreover have "distance_from_desired (es ! i) \<ge> -1"
      using distance_low [OF l] that by simp
    ultimately show ?thesis
      using less prev pl that by (cases "Suc i = p"; cases "i = p"; cases "d = 0") (auto simp: nth_list_update)
  qed
  show "laid_out sh slots ml (es[p := emplaced d c])"
    unfolding laid_out_def
    using l pl p new next_le
    by (auto simp: laid_out_def slot_ok_def nth_list_update holds_update elements_def split: if_splits)
qed

lemma elements_replace:
  assumes "laid_out sh slots ml es" and "holds es p k"
  shows "elements (es[p := emplaced d c]) = insert c (elements es - {k})"
proof -
  have other: "holds es i v \<and> i \<noteq> p \<longleftrightarrow> holds es i v \<and> v \<noteq> k" for i v
  proof -
    have "i = p" if "holds es i k" using assms that unfolding laid_out_def by blast
    moreover have "v = k" if "holds es p v" using assms(2) that by (simp add: holds_def)
    ultimately show ?thesis by auto
  qed
  have "Suc p < length es" using assms(2) by (simp add: holds_def)
  then have "v \<in> elements (es[p := emplaced d c]) \<longleftrightarrow> v = c \<or> (\<exists>i. holds es i v \<and> i \<noteq> p)" for v
    by (auto simp: elements_def holds_update)
  then show ?thesis by (auto simp: other elements_def)
qed

lemma elements_finite: "finite (elements es)"
proof -
  have "elements es \<subseteq> (\<lambda>i. the (entry_value (es ! i))) ` {..<length es}"
  proof
    fix v assume "v \<in> elements es"
    then obtain i where "Suc i < length es" "entry_value (es ! i) = Some v"
      by (auto simp: elements_def holds_def)
    then show "v \<in> (\<lambda>i. the (entry_value (es ! i))) ` {..<length es}"
      by (intro image_eqI [of _ _ i]) simp_all
  qed
  then show ?thesis by (rule finite_subset) simp
qed

text \<open>
  The displacement loop keeps the table laid out; the value in hand at the end and the
  values of the table are those of the start.
\<close>

lemma displace_spec:
  assumes "laid_out sh slots ml es" and "pos = index_for_hash sh c + d" and "d < ml" and "0 < d"
    and "int d \<le> distance_from_desired (es ! (pos - 1)) + 1" and "c \<notin> elements es"
  shows "\<exists>es' rest. displace ml es pos d c = Inr (es', rest) \<and> laid_out sh slots ml es' \<and>
    take pos es' = take pos es \<and>
    (case rest of None \<Rightarrow> elements es' = insert c (elements es)
     | Some c' \<Rightarrow> c' \<notin> elements es' \<and> insert c' (elements es') = insert c (elements es))"
  using assms
proof (induction ml es pos d c rule: displace.induct)
  case (1 ml es pos d c)
  note l = "1.prems"(1) and hyps = "1.prems"
  have "index_for_hash sh c < slots" "length es = slots + ml" using l by (auto simp: laid_out_def)
  then have pl: "Suc pos < length es" using hyps by simp
  then have at: "at es pos = Inr (es ! pos)" by simp
  have prev: "0 < d \<longrightarrow> int d \<le> distance_from_desired (es ! (pos - 1)) + 1" using hyps by simp
  from l pl show ?case
  proof (cases rule: slot_cases)
    case empty
    then have "\<not> holds es pos v" for v by (simp add: holds_def has_value_not_empty)
    moreover have "distance_from_desired (es ! pos) < int d" using empty by simp
    ultimately show ?thesis using place [OF l hyps(2,3) _ prev hyps(6)] at empty
      by (simp add: displace.simps [of ml es pos d c])
  next
    case (filled e v)
    let ?es = "es[pos := emplaced d c]"
    show ?thesis
    proof (cases "e < d")
      case True
      have less: "distance_from_desired (es ! pos) < int d" using filled True by simp
      note pl' = place [OF l hyps(2,3) less prev hyps(6)]
      have held: "{w. holds es pos w} = {v}" using filled by (auto simp: holds_def)
      have "v \<in> elements es" using filled by (auto simp: elements_def)
      then have "v \<noteq> c" using hyps(6) by auto
      then have "v \<notin> elements ?es" by (simp add: pl'(3) held)
      then have "\<exists>es' rest. displace ml ?es (Suc pos) (Suc e) v = Inr (es', rest) \<and> laid_out sh slots ml es' \<and>
          take (Suc pos) es' = take (Suc pos) ?es \<and>
          (case rest of None \<Rightarrow> elements es' = insert v (elements ?es)
           | Some c' \<Rightarrow> c' \<notin> elements es' \<and> insert c' (elements es') = insert v (elements ?es))"
        using "1.IH"(1) [OF at _ _ , of v] pl'(2) filled True hyps pl by (auto simp: less)
      then obtain es' rest where r: "displace ml ?es (Suc pos) (Suc e) v = Inr (es', rest)"
        "laid_out sh slots ml es'" "take (Suc pos) es' = take (Suc pos) ?es"
        "(case rest of None \<Rightarrow> elements es' = insert v (elements ?es)
           | Some c' \<Rightarrow> c' \<notin> elements es' \<and> insert c' (elements es') = insert v (elements ?es))" by blast
      have "take pos es' = take pos (take (Suc pos) es')" by simp
      also have "\<dots> = take pos es" using r(3) by simp
      finally have "take pos es' = take pos es" .
      moreover have "insert v (elements ?es) = insert c (elements es)"
        using \<open>v \<in> elements es\<close> by (auto simp: pl'(3) held)
      moreover have "displace ml es pos d c = displace ml ?es (Suc pos) (Suc e) v"
        using at filled(1) True by (simp add: displace.simps [of ml es pos d c])
      ultimately show ?thesis using r
        by (intro exI [of _ es'] exI [of _ rest]) (simp split: option.splits)
    next
      case False
      show ?thesis
      proof (cases "Suc d = ml")
        case True
        then show ?thesis using at filled(1) False l hyps(6)
          by (simp add: displace.simps [of ml es pos d c])
      next
        case False
        then have "\<exists>es' rest. displace ml es (Suc pos) (Suc d) c = Inr (es', rest) \<and> laid_out sh slots ml es' \<and>
            take (Suc pos) es' = take (Suc pos) es \<and>
            (case rest of None \<Rightarrow> elements es' = insert c (elements es)
             | Some c' \<Rightarrow> c' \<notin> elements es' \<and> insert c' (elements es') = insert c (elements es))"
          using "1.IH"(2) [OF at] filled \<open>\<not> e < d\<close> hyps by auto
        then obtain es' rest where r: "displace ml es (Suc pos) (Suc d) c = Inr (es', rest)"
          "laid_out sh slots ml es'" "take (Suc pos) es' = take (Suc pos) es"
          "(case rest of None \<Rightarrow> elements es' = insert c (elements es)
             | Some c' \<Rightarrow> c' \<notin> elements es' \<and> insert c' (elements es') = insert c (elements es))" by blast
        have "take pos es' = take pos (take (Suc pos) es')" by simp
        also have "\<dots> = take pos es" using r(3) by simp
        finally show ?thesis using r at filled(1) \<open>\<not> e < d\<close> False
          by (simp add: displace.simps [of ml es pos d c])
      qed
    qed
  qed
qed

section \<open>The invariant of the table\<close>

abbreviation members :: "flat_hash_set \<Rightarrow> 64 word set" where
  "members t \<equiv> elements (entries t)"

abbreviation slots :: "flat_hash_set \<Rightarrow> nat" where
  "slots t \<equiv> Suc (num_slots_minus_one t)"

text \<open>
  A table is the initial one, which has no buckets, or has \<open>2 ^ k\<close> of them, is laid out,
  counts its elements and is at most half full.
\<close>

definition sized :: "nat \<Rightarrow> nat \<Rightarrow> flat_hash_set \<Rightarrow> bool" where
  "sized lim k t \<longleftrightarrow>
     1 \<le> k \<and> k \<le> 63 \<and> slots t = 2 ^ k \<and> shift t = 64 - k \<and> max_lookups t = max 4 k \<and>
     2 ^ k + max 4 k \<le> lim \<and> laid_out (shift t) (slots t) (max_lookups t) (entries t) \<and>
     num_elements t = card (members t) \<and> 2 * num_elements t \<le> slots t"

definition table_ok :: "nat \<Rightarrow> flat_hash_set \<Rightarrow> bool" where
  "table_ok lim t \<longleftrightarrow> t = empty_set_table \<or> (\<exists>k. sized lim k t)"

definition oom :: "nat \<Rightarrow> nat \<Rightarrow> nat \<Rightarrow> fault \<Rightarrow> bool" where
  "oom lim n s e \<longleftrightarrow> e = Throws_Bad_Alloc \<or> e = Stack_Overflow \<and> s * 2 ^ n \<le> lim + 1"

text \<open>
  What an \<open>emplace\<close> with \<open>n\<close> levels of recursion left guarantees: it adds the key, says
  whether it was new and where it is, and can fail for want of memory only; running out of
  levels means that the table already has more than \<open>lim\<close> divided by \<open>2 ^ n\<close> buckets.
\<close>

definition emplace_result :: "nat \<Rightarrow> nat \<Rightarrow> flat_hash_set \<Rightarrow> 64 word \<Rightarrow> (flat_hash_set \<times> nat \<times> bool) res \<Rightarrow> bool" where
  "emplace_result lim n t key r \<longleftrightarrow>
     (case r of
        Inl e \<Rightarrow> oom lim n (slots t) e
      | Inr (t', pos, new) \<Rightarrow>
          table_ok lim t' \<and> members t' = insert key (members t) \<and> (new \<longleftrightarrow> key \<notin> members t) \<and>
          holds (entries t') pos key \<and> slots t \<le> slots t')"

definition emplace_ok :: "nat \<Rightarrow> nat \<Rightarrow> (flat_hash_set \<Rightarrow> 64 word \<Rightarrow> (flat_hash_set \<times> nat \<times> bool) res) \<Rightarrow> bool" where
  "emplace_ok lim n em \<longleftrightarrow> (\<forall>t key. table_ok lim t \<longrightarrow> emplace_result lim n t key (em t key))"

lemma oom_mono: "oom lim n s' e \<Longrightarrow> s \<le> s' \<Longrightarrow> oom lim n s e"
  unfolding oom_def by (auto intro: order_trans [OF mult_le_mono1])

lemma elements_set:
  "elements es = {v. \<exists>e\<in>set (take (length es - 1) es). has_value e \<and> entry_value e = Some v}"
proof -
  have "(\<exists>i. holds es i v) \<longleftrightarrow>
      (\<exists>e\<in>set (take (length es - 1) es). has_value e \<and> entry_value e = Some v)" for v
    by (auto simp: holds_def Bex_def in_set_conv_nth less_diff_conv)
  then show ?thesis by (simp add: elements_def)
qed

lemma elements_empty_table [simp]: "members empty_set_table = {}"
  by (auto simp: elements_set empty_set_table_def empty_default_table_def has_value_def vacant_def)

lemma table_shape:
  "table_ok lim t \<Longrightarrow> length (entries t) = slots t + max_lookups t"
  unfolding table_ok_def sized_def laid_out_def
  by (elim disjE exE conjE) (simp_all add: empty_set_table_def empty_default_table_def)

lemma sized_laid_out:
  "sized lim k t \<Longrightarrow> laid_out (shift t) (slots t) (max_lookups t) (entries t)"
  unfolding sized_def by blast

lemma table_values:
  assumes "table_ok lim t" and "e \<in> set (take (num_slots_minus_one t + max_lookups t) (entries t))"
    and "has_value e"
  shows "\<exists>v. entry_value e = Some v"
proof -
  from assms(2) obtain i where i: "i < num_slots_minus_one t + max_lookups t" "e = entries t ! i"
    "i < length (entries t)" by (auto simp: in_set_conv_nth)
  from assms(1) consider "t = empty_set_table" | k where "sized lim k t" by (auto simp: table_ok_def)
  then show ?thesis
  proof cases
    case 1
    then have "e \<in> set (take 3 empty_default_table)" using assms(2) by (simp add: empty_set_table_def)
    then show ?thesis using assms(3) by (simp add: empty_default_table_def has_value_def vacant_def)
  next
    case 2
    then have l: "laid_out (shift t) (slots t) (max_lookups t) (entries t)" by (rule sized_laid_out)
    moreover have "Suc i < length (entries t)" using i table_shape [OF assms(1)] by simp
    ultimately show ?thesis
      by (cases rule: slot_cases) (use i assms(3) in \<open>auto simp: has_value_not_empty\<close>)
  qed
qed

text \<open>A freshly allocated table.\<close>

lemma fresh_sized:
  assumes "1 \<le> k" and "k \<le> 63" and "2 ^ k + max 4 k \<le> lim"
    and t: "entries t = replicate (2 ^ k + max 4 k - 1) vacant @ [special_end]"
      "slots t = 2 ^ k" "shift t = 64 - k" "max_lookups t = max 4 k" "num_elements t = 0"
  shows "sized lim k t" and "members t = {}"
proof -
  have v: "entries t ! i = vacant" if "i < 2 ^ k + max 4 k - 1" for i
    using that by (simp add: t nth_append)
  have len: "length (entries t) = 2 ^ k + max 4 k" by (simp add: t)
  have no: "\<not> holds (entries t) i w" for i w
    using v [of i] len by (auto simp: holds_def has_value_def vacant_def)
  then show "members t = {}" by (simp add: elements_def)
  have "laid_out (shift t) (slots t) (max_lookups t) (entries t)"
    unfolding laid_out_def
    using no v len assms(2) index_for_hash_less [of k]
    by (auto simp: t slot_ok_def vacant_def nth_append special_end_def)
  then show "sized lim k t"
    using assms \<open>members t = {}\<close> by (simp add: sized_def)
qed

lemma reinsert_spec:
  assumes "emplace_ok lim n em"
  shows "table_ok lim t \<Longrightarrow> (\<And>e. e \<in> set es \<Longrightarrow> has_value e \<Longrightarrow> \<exists>v. entry_value e = Some v) \<Longrightarrow>
    (case reinsert em es t of
       Inl e \<Rightarrow> oom lim n (slots t) e
     | Inr t' \<Rightarrow> table_ok lim t' \<and> slots t \<le> slots t' \<and>
         members t' = members t \<union> {v. \<exists>e\<in>set es. has_value e \<and> entry_value e = Some v})"
proof (induction es arbitrary: t)
  case (Cons e es)
  show ?case
  proof (cases "has_value e")
    case False
    then show ?thesis using Cons.IH [OF Cons.prems(1)] Cons.prems(2) by (simp split: sum.splits)
  next
    case True
    then obtain v where v: "entry_value e = Some v" using Cons.prems(2) [of e] by auto
    then have val: "value_of e = Inr v" by (simp add: value_of_def)
    have r: "emplace_result lim n t v (em t v)"
      using assms Cons.prems(1) by (simp add: emplace_ok_def)
    show ?thesis
    proof (cases "em t v")
      case (Inl f)
      then show ?thesis using r True val by (auto simp: emplace_result_def)
    next
      case (Inr x)
      then obtain t' pos new where x: "em t v = Inr (t', pos, new)" by (cases x) auto
      with r have t': "table_ok lim t'" "members t' = insert v (members t)" "slots t \<le> slots t'"
        by (simp_all add: emplace_result_def)
      show ?thesis
        using Cons.IH [OF t'(1)] Cons.prems(2) True val x t'(2,3) v
        by (auto split: sum.splits intro: oom_mono)
    qed
  qed
qed simp

section \<open>Growing and inserting\<close>

text \<open>
  Everything that \<open>rehash\<close> needs of the table it empties: the entries before the last that
  have a distance have a value.  In \<open>emplace_new_key\<close> it is called on a table in which a
  value stands out of place.
\<close>

lemma rehash_spec:
  assumes em: "emplace_ok lim n em" and lim: "1 \<le> nb" "nb \<le> 2 ^ 63"
    and nb: "nb = max num_buckets (2 * num_elements t)" and "bucket_count t < nb"
    and vals: "\<And>e. e \<in> set (take (num_slots_minus_one t + max_lookups t) (entries t)) \<Longrightarrow>
      has_value e \<Longrightarrow> \<exists>v. entry_value e = Some v"
  shows "case rehash lim em t num_buckets of
      Inl e \<Rightarrow> oom lim n nb e
    | Inr t' \<Rightarrow> table_ok lim t' \<and> nb \<le> slots t' \<and>
        members t' = {v. \<exists>e\<in>set (take (num_slots_minus_one t + max_lookups t) (entries t)).
          has_value e \<and> entry_value e = Some v}"
proof -
  obtain k where k: "1 \<le> k" "k \<le> 63" "next_size_over nb = (2 ^ k, 64 - k)" "nb \<le> 2 ^ k"
    by (rule next_size_over_exp [OF lim])
  define new where "new = t\<lparr>entries := replicate (2 ^ k + max 4 k - 1) vacant @ [special_end],
      num_slots_minus_one := 2 ^ k - 1, shift := 64 - k, max_lookups := max 4 k, num_elements := 0\<rparr>"
  have r: "rehash lim em t num_buckets =
      rbind (check Throws_Bad_Alloc (2 ^ k + max 4 k \<le> lim)) (\<lambda>_.
        reinsert em (take (num_slots_minus_one t + max_lookups t) (entries t)) new)"
    using k lim(1) \<open>bucket_count t < nb\<close>
    by (simp add: rehash_def Let_def compute_max_lookups_exp new_def flip: nb)
  show ?thesis
  proof (cases "2 ^ k + max 4 k \<le> lim")
    case False
    then show ?thesis by (simp add: r check_def oom_def)
  next
    case True
    have "sized lim k new" "members new = {}"
      using fresh_sized [of k lim new] k(1,2) True by (simp_all add: new_def)
    moreover have "slots new = 2 ^ k" by (simp add: new_def)
    moreover have "table_ok lim new" using \<open>sized lim k new\<close> by (auto simp: table_ok_def)
    ultimately show ?thesis
      using reinsert_spec [OF em, of new "take (num_slots_minus_one t + max_lookups t) (entries t)"] vals k(4)
      by (auto simp: r True split: sum.splits intro: oom_mono)
  qed
qed

lemma table_bounds:
  assumes "table_ok lim t"
  shows "bucket_count t \<le> lim" and "2 * num_elements t \<le> slots t" and "slots t \<le> max 1 (bucket_count t)"
    and "slots t \<le> lim + 1"
  using assms by (auto simp: table_ok_def sized_def bucket_count_def empty_set_table_def)

lemma grow_spec:
  assumes em: "emplace_ok lim n em" and "lim \<le> 2 ^ 62"
    and t: "bucket_count t \<le> lim" "2 * num_elements t \<le> slots t"
    and vals: "\<And>e. e \<in> set (take (num_slots_minus_one t + max_lookups t) (entries t)) \<Longrightarrow>
      has_value e \<Longrightarrow> \<exists>v. entry_value e = Some v"
  shows "case grow lim em t of
      Inl e \<Rightarrow> oom lim (Suc n) (slots t) e
    | Inr t' \<Rightarrow> table_ok lim t' \<and> 2 * slots t \<le> slots t' \<and>
        members t' = {v. \<exists>e\<in>set (take (num_slots_minus_one t + max_lookups t) (entries t)).
          has_value e \<and> entry_value e = Some v}"
proof -
  define nb where "nb = max (max 4 (2 * bucket_count t)) (2 * num_elements t)"
  have ge: "2 * slots t \<le> nb" by (auto simp: nb_def bucket_count_def)
  have "slots t \<le> max 1 lim" using t(1) by (auto simp: bucket_count_def split: if_splits)
  then have "nb \<le> 2 ^ 63" using t assms(2) by (simp add: nb_def)
  moreover have "1 \<le> nb" "bucket_count t < nb" by (auto simp: nb_def)
  ultimately have r: "case grow lim em t of
      Inl e \<Rightarrow> oom lim n nb e
    | Inr t' \<Rightarrow> table_ok lim t' \<and> nb \<le> slots t' \<and>
        members t' = {v. \<exists>e\<in>set (take (num_slots_minus_one t + max_lookups t) (entries t)).
          has_value e \<and> entry_value e = Some v}"
    unfolding grow_def using rehash_spec [OF em, of nb] vals nb_def by blast
  have "oom lim (Suc n) (slots t) e" if "oom lim n nb e" for e
    using oom_mono [OF that ge] by (simp add: oom_def mult.assoc mult.left_commute)
  with r ge show ?thesis by (auto split: sum.splits)
qed

text \<open>The values a rehash moves, as a set.\<close>

definition moved :: "flat_hash_set \<Rightarrow> 64 word set" where
  "moved t = {v. \<exists>e\<in>set (take (num_slots_minus_one t + max_lookups t) (entries t)).
     has_value e \<and> entry_value e = Some v}"

lemma moved_members: "length (entries t) = slots t + max_lookups t \<Longrightarrow> moved t = members t"
  by (simp add: moved_def elements_set)

lemma grow_emplace:
  assumes em: "emplace_ok lim n em" and "lim \<le> 2 ^ 62"
    and "bucket_count t \<le> lim" "2 * num_elements t \<le> slots t"
    and "\<And>e. e \<in> set (take (num_slots_minus_one t + max_lookups t) (entries t)) \<Longrightarrow>
      has_value e \<Longrightarrow> \<exists>v. entry_value e = Some v"
  shows "case rbind (grow lim em t) (\<lambda>t. em t key) of
      Inl e \<Rightarrow> oom lim (Suc n) (slots t) e
    | Inr (t', pos, new) \<Rightarrow> table_ok lim t' \<and> members t' = insert key (moved t) \<and>
        (new \<longleftrightarrow> key \<notin> moved t) \<and> holds (entries t') pos key \<and> slots t \<le> slots t'"
proof (cases "grow lim em t")
  case (Inl e)
  then show ?thesis using grow_spec [OF assms] by simp
next
  case (Inr t1)
  then have t1: "table_ok lim t1" "2 * slots t \<le> slots t1" "members t1 = moved t"
    using grow_spec [OF assms] by (simp_all add: moved_def)
  then have r: "emplace_result lim n t1 key (em t1 key)" using em by (simp add: emplace_ok_def)
  show ?thesis
  proof (cases "em t1 key")
    case (Inl e)
    then have "oom lim n (2 * slots t) e"
      using r oom_mono [OF _ t1(2)] by (simp add: emplace_result_def)
    then show ?thesis using Inl \<open>grow lim em t = Inr t1\<close> by (simp add: oom_def ac_simps)
  next
    case (Inr x)
    then show ?thesis using r t1 \<open>grow lim em t = Inr t1\<close>
      by (cases x) (simp add: emplace_result_def)
  qed
qed

lemma sized_add:
  assumes "sized lim k t" and "laid_out (shift t) (slots t) (max_lookups t) es"
    and "elements es = insert key (members t)" and "key \<notin> members t"
    and "2 * (num_elements t + 1) \<le> slots t"
  shows "sized lim k (t\<lparr>entries := es, num_elements := num_elements t + 1\<rparr>)"
  using assms elements_finite [of "entries t"] unfolding sized_def by simp

lemma emplace_new_key_spec:
  assumes em: "emplace_ok lim n em" and lim: "lim \<le> 2 ^ 62" and s: "sized lim k t"
    and new: "key \<notin> members t" and pos: "pos = index_for_hash (shift t) key + d" "d \<le> max_lookups t"
    and less: "distance_from_desired (entries t ! pos) < int d"
    and prev: "0 < d \<longrightarrow> int d \<le> distance_from_desired (entries t ! (pos - 1)) + 1"
  shows "emplace_result lim (Suc n) t key (emplace_new_key (grow lim em) em t d pos key)"
proof -
  have ok: "table_ok lim t" using s by (auto simp: table_ok_def)
  then have same: "moved t = members t" by (intro moved_members table_shape)
  note l = sized_laid_out [OF s]
  show ?thesis
  proof (cases "num_slots_minus_one t = 0 \<or> d = max_lookups t \<or> 2 * (num_elements t + 1) > num_slots_minus_one t + 1")
    case True
    then have "emplace_new_key (grow lim em) em t d pos key = rbind (grow lim em t) (\<lambda>t. em t key)"
      by (simp add: emplace_new_key_def)
    then show ?thesis
      using grow_emplace [OF em lim table_bounds(1,2) [OF ok] table_values [OF ok], where key = key]
      unfolding emplace_result_def same by simp
  next
    case False
    then have d: "d < max_lookups t" and room: "2 * (num_elements t + 1) \<le> slots t" using pos by auto
    note pl = place [OF l pos(1) d less prev new]
    let ?es = "(entries t)[pos := emplaced d key]"
    have at: "at (entries t) pos = Inr (entries t ! pos)" using pl(1) by simp
    from l pl(1) show ?thesis
    proof (cases rule: slot_cases)
      case empty
      then have "\<not> holds (entries t) pos v" for v by (simp add: holds_def has_value_not_empty)
      then have "elements ?es = insert key (members t)" by (simp add: pl(3))
      then have "sized lim k (t\<lparr>entries := ?es, num_elements := num_elements t + 1\<rparr>)"
        by (rule sized_add [OF s pl(2) _ new room])
      moreover have "holds ?es pos key" using pl(1) by (simp add: holds_update)
      ultimately show ?thesis using False empty at new \<open>elements ?es = insert key (members t)\<close>
        by (auto simp: emplace_new_key_def emplace_result_def table_ok_def)
    next
      case (filled e v)
      have "e < d" using filled less by simp
      have held: "{w. holds (entries t) pos w} = {v}" using filled by (auto simp: holds_def)
      have "v \<in> members t" using filled by (auto simp: elements_def)
      then have "v \<noteq> key" using new by auto
      then have "v \<notin> elements ?es" by (simp add: pl(3) held)
      moreover have "int (Suc e) \<le> distance_from_desired (?es ! pos) + 1"
        using \<open>e < d\<close> pl(1) by simp
      ultimately obtain es rest where r:
        "displace (max_lookups t) ?es (Suc pos) (Suc e) v = Inr (es, rest)"
        "laid_out (shift t) (slots t) (max_lookups t) es" "take (Suc pos) es = take (Suc pos) ?es"
        "case rest of None \<Rightarrow> elements es = insert v (elements ?es)
         | Some c \<Rightarrow> c \<notin> elements es \<and> insert c (elements es) = insert v (elements ?es)"
        using displace_spec [OF pl(2), of "Suc pos" v "Suc e"] filled(3) \<open>e < d\<close> d by auto
      have all: "insert v (elements ?es) = insert key (members t)"
        using \<open>v \<in> members t\<close> by (auto simp: pl(3) held)
      have len: "length es = length (entries t)" using r(2) l by (simp add: laid_out_def)
      have "es ! pos = take (Suc pos) es ! pos" by simp
      then have es_pos: "es ! pos = emplaced d key" using r(3) pl(1) by simp
      have step: "emplace_new_key (grow lim em) em t d pos key =
        (case rest of
           None \<Rightarrow> Inr (t\<lparr>entries := es, num_elements := num_elements t + 1\<rparr>, pos, True)
         | Some c \<Rightarrow> rbind (grow lim em (t\<lparr>entries := es[pos := (emplaced d key)\<lparr>entry_value := Some c\<rparr>]\<rparr>))
             (\<lambda>t. em t key))"
        using False filled(1) at r(1) es_pos len pl(1)
        by (simp add: emplace_new_key_def split: option.split)
      show ?thesis
      proof (cases rest)
        case None
        have el: "elements es = insert key (members t)" using r(4) None all by simp
        have "sized lim k (t\<lparr>entries := es, num_elements := num_elements t + 1\<rparr>)"
          by (rule sized_add [OF s r(2) el new room])
        moreover have "holds es pos key" using es_pos pl(1) len by (simp add: holds_def)
        ultimately show ?thesis using new None el
          by (auto simp: step emplace_result_def table_ok_def)
      next
        case (Some c)
        let ?t = "t\<lparr>entries := es[pos := emplaced d c]\<rparr>"
        have t: "(emplaced d key)\<lparr>entry_value := Some c\<rparr> = emplaced d c" by (simp add: emplaced_def)
        have key: "holds es pos key" using es_pos pl(1) len by (simp add: holds_def)
        have c: "c \<notin> elements es" "insert c (elements es) = insert key (members t)"
          using r(4) Some all by simp_all
        have "moved ?t = elements (es[pos := emplaced d c])"
          using r(2) by (intro trans [OF moved_members]) (simp_all add: laid_out_def)
        also have "\<dots> = insert c (elements es - {key})"
          by (rule elements_replace [OF r(2) key])
        finally have moved: "moved ?t = insert c (elements es - {key})" .
        have "key \<in> elements es" using key by (auto simp: elements_def)
        then have moved': "insert key (moved ?t) = insert key (members t)" "key \<notin> moved ?t"
          using c by (auto simp: moved)
        have same_test: "(key \<notin> moved ?t) = (key \<notin> members t)" "slots ?t = slots t"
          using moved'(2) new by simp_all
        have vals: "\<exists>v. entry_value e = Some v"
          if "e \<in> set (take (num_slots_minus_one ?t + max_lookups ?t) (entries ?t))" "has_value e" for e
        proof -
          from that(1) obtain i where i: "e = es[pos := emplaced d c] ! i" "Suc i < length es"
            using r(2) by (auto simp: in_set_conv_nth laid_out_def)
          show ?thesis
          proof (cases "i = pos")
            case True
            then show ?thesis using i by simp
          next
            case False
            then have e: "e = es ! i" using i(1) by simp
            from r(2) i(2) show ?thesis
              by (cases rule: slot_cases) (use e that(2) in \<open>simp_all add: has_value_not_empty\<close>)
          qed
        qed
        have "bucket_count ?t \<le> lim" "2 * num_elements ?t \<le> slots ?t"
          using table_bounds(1,2) [OF ok] by (auto simp: bucket_count_def)
        from grow_emplace [OF em lim this vals, where key = key] show ?thesis
          unfolding step Some t option.case emplace_result_def moved'(1) same_test .
      qed
    qed
  qed
qed

lemma probe_table:
  assumes "table_ok lim t"
  shows "\<exists>pos d. probe (entries t) key (index_for_hash (shift t) key) 0 = Inr (key \<in> members t, pos, d) \<and>
    pos = index_for_hash (shift t) key + d \<and>
    (if key \<in> members t then holds (entries t) pos key
     else num_slots_minus_one t = 0 \<or>
       (d \<le> max_lookups t \<and> distance_from_desired (entries t ! pos) < int d \<and>
        (0 < d \<longrightarrow> int d \<le> distance_from_desired (entries t ! (pos - 1)) + 1)))"
proof -
  from assms consider "t = empty_set_table" | k where "sized lim k t" by (auto simp: table_ok_def)
  then show ?thesis
  proof cases
    case 1
    have "index_for_hash 63 key < 2" using index_for_hash_less [of 1 key] by simp
    then have "index_for_hash 63 key = 0 \<or> index_for_hash 63 key = 1" by linarith
    then have "at empty_default_table (index_for_hash 63 key) = Inr vacant"
      by (elim disjE) (simp_all add: empty_default_table_def)
    then have "probe empty_default_table key (index_for_hash 63 key) 0 =
        Inr (False, index_for_hash 63 key, 0)"
      by (simp add: probe.simps [of empty_default_table] vacant_def)
    then show ?thesis unfolding 1 elements_empty_table by (simp add: empty_set_table_def)
  next
    case 2
    note l = sized_laid_out [OF 2]
    have "index_for_hash (shift t) key + 0 \<le> i" if "holds (entries t) i key" for i
      using holds_filled [OF l that] by auto
    from probe_spec [OF l refl _ this] obtain d where
      "d \<le> max_lookups t" "probe (entries t) key (index_for_hash (shift t) key + 0) 0 =
        Inr (key \<in> members t, index_for_hash (shift t) key + d, d)"
      "if key \<in> members t then holds (entries t) (index_for_hash (shift t) key + d) key
       else distance_from_desired (entries t ! (index_for_hash (shift t) key + d)) < int d \<and>
        (0 < d \<longrightarrow> int d \<le> distance_from_desired (entries t ! (index_for_hash (shift t) key + d - 1)) + 1)"
      by auto
    then show ?thesis
      by (intro exI [of _ "index_for_hash (shift t) key + d"] exI [of _ d]) (auto split: if_splits)
  qed
qed

lemma emplace_once_ok:
  assumes em: "emplace_ok lim n em" and lim: "lim \<le> 2 ^ 62"
  shows "emplace_ok lim (Suc n) (emplace_once (grow lim em) em)"
proof (unfold emplace_ok_def, intro allI impI)
  fix t key assume ok: "table_ok lim t"
  obtain pos d where p: "probe (entries t) key (index_for_hash (shift t) key) 0 = Inr (key \<in> members t, pos, d)"
    "pos = index_for_hash (shift t) key + d"
    "if key \<in> members t then holds (entries t) pos key
     else num_slots_minus_one t = 0 \<or>
       (d \<le> max_lookups t \<and> distance_from_desired (entries t ! pos) < int d \<and>
        (0 < d \<longrightarrow> int d \<le> distance_from_desired (entries t ! (pos - 1)) + 1))"
    using probe_table [OF ok, of key] by blast
  show "emplace_result lim (Suc n) t key (emplace_once (grow lim em) em t key)"
  proof (cases "key \<in> members t")
    case True
    then show ?thesis using p ok by (auto simp: emplace_once_def emplace_result_def)
  next
    case False
    then have step: "emplace_once (grow lim em) em t key = emplace_new_key (grow lim em) em t d pos key"
      using p(1) by (simp add: emplace_once_def)
    from ok consider "t = empty_set_table" | k where "sized lim k t" by (auto simp: table_ok_def)
    then show ?thesis
    proof cases
      case 1
      then have "emplace_new_key (grow lim em) em t d pos key = rbind (grow lim em t) (\<lambda>t. em t key)"
        by (simp add: emplace_new_key_def empty_set_table_def)
      then show ?thesis
        using grow_emplace [OF em lim table_bounds(1,2) [OF ok] table_values [OF ok], where key = key]
        unfolding step emplace_result_def moved_members [OF table_shape [OF ok]] by simp
    next
      case 2
      then have "num_slots_minus_one t \<noteq> 0"
        using power_increasing [of 1 k "2::nat"] by (auto simp: sized_def)
      then show ?thesis unfolding step
        using False p(2,3) by (intro emplace_new_key_spec [OF em lim 2]) auto
    qed
  qed
qed

lemma emplace_at_ok: "lim \<le> 2 ^ 62 \<Longrightarrow> emplace_ok lim n (emplace_at lim n)"
proof (induction n)
  case 0
  then show ?case
    using table_bounds(4) [of lim] by (simp add: emplace_ok_def emplace_result_def oom_def)
next
  case (Suc n)
  then show ?case by (simp add: emplace_once_ok)
qed

text \<open>
  With 64 levels the recursion always has room: a table that has doubled so often would be
  larger than any allocation.
\<close>

lemma emplace_spec:
  assumes "lim \<le> 2 ^ 62" and "table_ok lim t"
  shows "case emplace lim t key of
      Inl e \<Rightarrow> e = Throws_Bad_Alloc
    | Inr (t', pos, new) \<Rightarrow> table_ok lim t' \<and> members t' = insert key (members t) \<and>
        (new \<longleftrightarrow> key \<notin> members t) \<and> holds (entries t') pos key \<and> slots t \<le> slots t'"
proof -
  have "\<not> slots t * 2 ^ 64 \<le> lim + 1" using assms(1) by simp
  moreover have "emplace_result lim 64 t key (emplace lim t key)"
    using emplace_at_ok [OF assms(1), of 64] assms(2) by (simp add: emplace_def emplace_ok_def)
  ultimately show ?thesis by (auto simp: emplace_result_def oom_def split: sum.splits)
qed

lemma find_pos_spec:
  assumes "table_ok lim t"
  shows "\<exists>pos. find_pos t key = Inr pos \<and> (pos = end_pos t \<longleftrightarrow> key \<notin> members t) \<and>
    (key \<in> members t \<longrightarrow> holds (entries t) pos key)"
proof -
  obtain pos d where p: "probe (entries t) key (index_for_hash (shift t) key) 0 = Inr (key \<in> members t, pos, d)"
    "key \<in> members t \<longrightarrow> holds (entries t) pos key"
    using probe_table [OF assms, of key] by (auto split: if_splits)
  moreover have "pos \<noteq> end_pos t" if "holds (entries t) pos key"
    using that table_shape [OF assms] by (simp add: holds_def end_pos_def)
  ultimately show ?thesis by (auto simp: find_pos_def)
qed

lemma members_moved_set:
  "table_ok lim t \<Longrightarrow> {v. \<exists>e\<in>set (take (num_slots_minus_one t + max_lookups t) (entries t)).
     has_value e \<and> entry_value e = Some v} = members t"
  using moved_members [OF table_shape] by (simp add: moved_def)

lemma reserve_spec:
  assumes "lim \<le> 2 ^ 62" and "table_ok lim t" and "n \<le> 2 ^ 62"
  shows "case reserve lim t n of
      Inl e \<Rightarrow> e = Throws_Bad_Alloc
    | Inr t' \<Rightarrow> table_ok lim t' \<and> members t' = members t \<and> 2 * n \<le> slots t'"
proof (cases "2 * n > bucket_count t")
  case False
  then show ?thesis using assms(2) by (auto simp: reserve_def num_buckets_for_reserve_def bucket_count_def
        split: if_splits)
next
  case True
  define nb where "nb = max (2 * n) (2 * num_elements t)"
  have "slots t \<le> 2 ^ 62 + 1" using table_bounds(4) [OF assms(2)] assms(1) by simp
  then have nb: "1 \<le> nb" "nb \<le> 2 ^ 63" "bucket_count t < nb"
    using True assms(3) table_bounds(2) [OF assms(2)] by (auto simp: nb_def)
  have em: "emplace_ok lim 64 (emplace lim)"
    unfolding emplace_def by (rule emplace_at_ok) (rule assms(1))
  have "2 * n \<le> nb" by (simp add: nb_def)
  moreover have "\<not> oom lim 64 nb Stack_Overflow" using nb(1) assms(1) by (simp add: oom_def)
  moreover have "reserve lim t n = rehash lim (emplace lim) t (2 * n)"
    using True by (simp add: reserve_def num_buckets_for_reserve_def)
  ultimately show ?thesis
    using rehash_spec [OF em nb(1,2) nb_def nb(3) table_values [OF assms(2)]]
    unfolding members_moved_set [OF assms(2)]
    by (auto simp: oom_def split: sum.splits)
qed

section \<open>New tables\<close>

definition fresh :: "nat \<Rightarrow> flat_hash_set" where
  "fresh k =
     \<lparr>entries = replicate (2 ^ k + max 4 k - 1) vacant @ [special_end],
      num_slots_minus_one = 2 ^ k - 1, shift = 64 - k, max_lookups = max 4 k, num_elements = 0\<rparr>"

lemma empty_set_table_simps:
  "entries empty_set_table = empty_default_table" "num_slots_minus_one empty_set_table = 0"
  "shift empty_set_table = 63" "num_elements empty_set_table = 0"
  by (simp_all add: empty_set_table_def)

lemma next_size_over_eq:
  assumes "1 \<le> k" and "k \<le> 63" and "n \<le> 2 ^ k" and "2 ^ (k - 1) < n"
  shows "next_size_over n = (2 ^ k, 64 - k)"
proof -
  have "(2::nat) ^ k \<le> 2 ^ 63" using assms(2) by (rule power_increasing) simp
  then have n: "1 \<le> n" "n \<le> 2 ^ 63" using assms(3,4) by linarith+
  obtain j where j: "1 \<le> j" "next_size_over n = (2 ^ j, 64 - j)" "n \<le> 2 ^ j" "j = 1 \<or> 2 ^ (j - 1) < n"
    by (rule next_size_over_exp [OF n])
  have "\<not> j < k"
  proof
    assume "j < k"
    then have "(2::nat) ^ j \<le> 2 ^ (k - 1)" by (intro power_increasing) simp_all
    then show False using j(3) assms(4) by linarith
  qed
  moreover have "\<not> k < j"
  proof
    assume "k < j"
    then have "(2::nat) ^ k \<le> 2 ^ (j - 1)" by (intro power_increasing) simp_all
    then show False using j(4) assms(1,3) \<open>k < j\<close> by linarith
  qed
  ultimately show ?thesis using j(2) by simp
qed

lemma rehash_empty:
  assumes "1 \<le> k" and "k \<le> 63" and "n \<le> 2 ^ k" and "2 ^ (k - 1) < n" and "2 ^ k + max 4 k \<le> lim"
  shows "rehash lim em empty_set_table n = Inr (fresh k)"
proof -
  have "reinsert em (replicate 3 vacant) t = Inr t" for t
    by (simp add: numeral_3_eq_3 has_value_def vacant_def)
  then show ?thesis
    using assms(4,5)
    by (simp add: rehash_def empty_set_table_def empty_default_table_def next_size_over_eq [OF assms(1-4)]
        compute_max_lookups_exp [OF assms(2)] bucket_count_def fresh_def numeral_3_eq_3 Let_def)
qed

lemma emplace_fresh:
  assumes "1 \<le> k" and "k \<le> 63"
  shows "emplace_once gr em (fresh k) key =
    (let h = index_for_hash (64 - k) key in
     Inr ((fresh k)\<lparr>entries := (entries (fresh k))[h := emplaced 0 key], num_elements := 1\<rparr>, h, True))"
proof -
  let ?h = "index_for_hash (64 - k) key"
  have h: "?h < 2 ^ k" using index_for_hash_less [of k key] assms(2) by simp
  then have "?h < 2 ^ k + max 4 k - 1" by linarith
  then have at: "at (entries (fresh k)) ?h = Inr vacant"
    by (simp add: fresh_def at_def nth_append)
  have "2 ^ 1 \<le> (2::nat) ^ k" using assms(1) by (rule power_increasing) simp
  then have two: "2 \<le> (2::nat) ^ k" by simp
  have "probe (entries (fresh k)) key ?h 0 = Inr (False, ?h, 0)"
    by (simp add: probe.simps [of "entries (fresh k)" key ?h 0] at vacant_def)
  then show ?thesis
    using two at by (simp add: emplace_once_def emplace_new_key_def fresh_def Let_def is_empty_def vacant_def)
qed

section \<open>The interface the query builder uses\<close>

text \<open>
  What a client relies on: a lookup answers membership, an insertion that does not fail
  adds the element.  From these laws alone, the test-and-insert of \<open>next_query\<close> tells
  apart the first record with a key from later ones.
\<close>

locale recorded_keys =
  fixes ok :: "'t \<Rightarrow> bool" and elems :: "'t \<Rightarrow> 'k set"
    and look :: "'t \<Rightarrow> 'k \<Rightarrow> bool res" and ins :: "'t \<Rightarrow> 'k \<Rightarrow> 't res"
  assumes look: "ok t \<Longrightarrow> look t x = Inr (x \<in> elems t)"
    and ins: "ok t \<Longrightarrow> ins t x = Inr t' \<Longrightarrow> ok t' \<and> elems t' = insert x (elems t)"
begin

lemma test_and_insert:
  assumes "ok t"
    and "rbind (look t x) (\<lambda>f. if f then Inr (True, t) else rbind (ins t x) (\<lambda>t. Inr (False, t))) = Inr (f, t')"
  shows "ok t' \<and> f = (x \<in> elems t) \<and> elems t' = insert x (elems t)"
  using assms ins [OF assms(1)]
  by (auto simp: look [OF assms(1)] rbind_Inr_iff insert_absorb split: if_splits)

lemma ins_mono: "ok t \<Longrightarrow> ins t x = Inr t' \<Longrightarrow> elems t \<subseteq> elems t'"
  using ins by blast

end

text \<open>\<open>find(key) != end()\<close>.\<close>

definition contains :: "flat_hash_set \<Rightarrow> 64 word \<Rightarrow> bool res" where
  "contains t key = rbind (find_pos t key) (\<lambda>pos. Inr (pos \<noteq> end_pos t))"

definition set_ok :: "nat \<Rightarrow> flat_hash_set \<Rightarrow> bool" where
  "set_ok lim t \<longleftrightarrow> lim \<le> 2 ^ 62 \<and> table_ok lim t"

interpretation flat: recorded_keys "set_ok lim" members contains "insert_key lim" for lim
proof
  fix t x assume "set_ok lim t"
  then show "contains t x = Inr (x \<in> members t)"
    using find_pos_spec [of lim t x] by (auto simp: contains_def set_ok_def)
next
  fix t x t' assume "set_ok lim t" "insert_key lim t x = Inr t'"
  then show "set_ok lim t' \<and> members t' = insert x (members t)"
    using emplace_spec [of lim t x] by (auto simp: insert_key_def set_ok_def rbind_Inr_iff)
qed

lemma reserve_empty:
  assumes "18874368 \<le> lim"
  shows "\<exists>t. reserve lim empty_set_table 6700000 = Inr t \<and> sized lim 24 t \<and> slots t = 16777216 \<and>
    members t = {}"
proof -
  have "reserve lim empty_set_table 6700000 = Inr (fresh 24)"
    using assms rehash_empty [of 24 13400000 lim "emplace lim"]
    by (simp add: reserve_def num_buckets_for_reserve_def bucket_count_def empty_set_table_def Let_def)
  moreover have "sized lim 24 (fresh 24)" "members (fresh 24) = {}"
    using fresh_sized [of 24 lim "fresh 24"] assms by (simp_all add: fresh_def)
  ultimately show ?thesis by (simp add: fresh_def)
qed

text \<open>The first key of a table.\<close>

lemma emplace_first: "emplace 100 empty_set_table 5 \<in> range Inr"
proof -
  have "emplace_at 100 (Suc (Suc n)) empty_set_table 5 \<in> range Inr" for n
  proof -
    have "probe empty_default_table 5 (index_for_hash 63 5) 0 = Inr (False, 0, 0)"
      by code_simp
    moreover have "rehash 100 (emplace_at 100 (Suc n)) empty_set_table 4 = Inr (fresh 2)"
      by (rule rehash_empty) simp_all
    ultimately show ?thesis
      by (simp add: emplace_once_def [of _ _ empty_set_table] emplace_new_key_def grow_def
          bucket_count_def empty_set_table_simps emplace_fresh Let_def)
  qed
  from this [of 62] show ?thesis by (simp add: emplace_def)
qed

lemma one_element_table:
  obtains t where "table_ok 100 t" and "members t = {5}"
proof -
  obtain t pos new where e: "emplace 100 empty_set_table 5 = Inr (t, pos, new)" using emplace_first by auto
  have "table_ok 100 empty_set_table" by (simp add: table_ok_def)
  with emplace_spec [of 100 empty_set_table 5] e that show ?thesis by auto
qed

section \<open>Properties\<close>

text \<open>
  (C13) \<open>find\<close> on a table that satisfies the invariant never leaves the table and never
  reads an entry without a value; it answers \<open>end()\<close> exactly when the key is not in the
  set, and else a position that holds the key.
\<close>

theorem find_correct:
  assumes "table_ok lim t"
  shows "\<exists>pos. find_pos t key = Inr pos \<and> (pos = end_pos t \<longleftrightarrow> key \<notin> members t) \<and>
    (key \<in> members t \<longrightarrow> holds (entries t) pos key)"
  using assms by (rule find_pos_spec)

text \<open>
  (C12) \<open>insert\<close> keeps the Robin Hood invariant and adds the key, through any displacements
  and rehashes; it fails only when the allocator has no room for a larger table, and the
  mutual recursion of \<open>emplace\<close> and \<open>grow\<close> always ends.
\<close>

theorem emplace_correct:
  assumes "lim \<le> 2 ^ 62" and "table_ok lim t"
  shows "case emplace lim t key of
      Inl e \<Rightarrow> e = Throws_Bad_Alloc
    | Inr (t', pos, new) \<Rightarrow> table_ok lim t' \<and> members t' = insert key (members t) \<and>
        (new \<longleftrightarrow> key \<notin> members t) \<and> holds (entries t') pos key"
  using emplace_spec [OF assms, of key] by (auto split: sum.splits)

theorem find_correct_witness:
  "\<exists>pos. find_pos empty_set_table 7 = Inr pos \<and>
    (pos = end_pos empty_set_table \<longleftrightarrow> 7 \<notin> members empty_set_table) \<and>
    (7 \<in> members empty_set_table \<longrightarrow> holds (entries empty_set_table) pos 7)"
  by (rule find_correct [of 100]) (simp add: table_ok_def)

theorem emplace_correct_witness:
  "\<exists>t pos. emplace 100 empty_set_table 5 = Inr (t, pos, True) \<and> table_ok 100 t \<and> members t = {5}"
proof -
  obtain t pos new where "emplace 100 empty_set_table 5 = Inr (t, pos, new)" using emplace_first by auto
  then show ?thesis
    using emplace_correct [of 100 empty_set_table 5] by (simp add: table_ok_def)
qed

text \<open>
  The constructor of the query builder reserves room for 6,700,000 keys.  The 288 MB of
  the shared segment are at most 18,874,368 entries of 16 bytes, which is enough: the
  reservation makes a table of 16,777,216 slots, half of which may be filled.
\<close>

theorem reserve_capacity:
  assumes "18874368 \<le> lim"
  shows "\<exists>t. reserve lim empty_set_table 6700000 = Inr t \<and> sized lim 24 t \<and> slots t = 16777216 \<and>
    members t = {}"
  using assms by (rule reserve_empty)

theorem reserve_capacity_witness:
  "\<exists>t. reserve 18874368 empty_set_table 6700000 = Inr t \<and> sized 18874368 24 t \<and>
    slots t = 16777216 \<and> members t = {}"
  by (rule reserve_capacity) simp

text \<open>
  (C27) A table that is half full takes no new key unless the allocator grants one of twice
  the size.  With 16,777,216 slots that is 8,388,608 keys, and the 288 MB of the shared
  segment do not hold the 33,554,457 entries of the next table: the constructor's size is
  also the limit, and a table of more keys ends with \<open>std::bad_alloc\<close>.
\<close>

theorem full_table_throws:
  assumes "sized lim k t" and "k \<le> 62" and "2 * card (members t) = slots t"
    and "key \<notin> members t" and "lim < 2 ^ (k + 1) + max 4 (k + 1)"
  shows "emplace lim t key = Inl Throws_Bad_Alloc"
proof -
  have ok: "table_ok lim t" using assms(1) by (auto simp: table_ok_def)
  have k: "1 \<le> k" "slots t = 2 ^ k" "num_elements t = card (members t)"
    using assms(1) by (auto simp: sized_def)
  then have pos: "num_slots_minus_one t \<noteq> 0"
    using power_increasing [of 1 k "2::nat"] by auto
  have "next_size_over (2 ^ (k + 1)) = (2 ^ (k + 1), 64 - (k + 1))"
    by (rule next_size_over_eq) (use assms(2) in simp_all)
  moreover have "max (max 4 (2 * bucket_count t)) (2 * num_elements t) = 2 ^ (k + 1)"
    using k assms(3) pos power_increasing [of 1 k "2::nat"] by (simp add: bucket_count_def)
  moreover have "bucket_count t \<noteq> 2 ^ (k + 1)"
    using k(2) pos by (simp add: bucket_count_def)
  ultimately have "grow lim em t = Inl Throws_Bad_Alloc" for em
    using assms(2,5) compute_max_lookups_exp [of "k + 1"]
    by (simp add: grow_def rehash_def Let_def check_def)
  moreover obtain p d where
    "probe (entries t) key (index_for_hash (shift t) key) 0 = Inr (False, p, d)"
    using probe_table [OF ok, of key] assms(4) by auto
  moreover have "emplace lim = emplace_once (grow lim (emplace_at lim 63)) (emplace_at lim 63)"
    by (simp only: emplace_def emplace_at.simps(2) [symmetric]) simp
  moreover have "2 * (num_elements t + 1) > num_slots_minus_one t + 1"
    using assms(3) k(3) by simp
  ultimately show ?thesis by (simp add: emplace_once_def emplace_new_key_def)
qed

theorem full_table_throws_witness:
  "\<exists>t. sized 6 1 t \<and> members t = {5} \<and> emplace 6 t 9 = Inl Throws_Bad_Alloc"
proof -
  let ?es = "(entries (fresh 1))[0 := emplaced 0 5]"
  let ?t = "(fresh 1)\<lparr>entries := ?es, num_elements := num_elements (fresh 1) + 1\<rparr>"
  have s: "sized 6 1 (fresh 1)" "members (fresh 1) = {}"
    using fresh_sized [of 1 6 "fresh 1"] by (simp_all add: fresh_def)
  have "index_for_hash (shift (fresh 1)) 5 = 0"
    by (simp add: fresh_def) code_simp
  moreover have v: "entries (fresh 1) ! 0 = vacant"
    by (simp add: fresh_def nth_append numeral_2_eq_2 eval_nat_numeral)
  then have "\<not> holds (entries (fresh 1)) 0 v" for v by (simp add: holds_def has_value_def vacant_def)
  ultimately have pl: "laid_out (shift (fresh 1)) (slots (fresh 1)) (max_lookups (fresh 1)) ?es"
    "elements ?es = {5}"
    using place [OF sized_laid_out [OF s(1)], of 0 5 0] s(2) v
    by (auto simp: fresh_def vacant_def)
  have t: "sized 6 1 ?t"
    by (rule sized_add [OF s(1) pl(1), of 5]) (use s(2) pl(2) in \<open>auto simp: fresh_def\<close>)
  then have "emplace 6 ?t 9 = Inl Throws_Bad_Alloc"
    by (rule full_table_throws) (use pl(2) in \<open>auto simp: fresh_def\<close>)
  with t pl(2) show ?thesis by (intro exI [of _ ?t]) simp
qed

end
