(* ===== verification/Hash_Room.thy ===== *)
theory Hash_Room
  imports Flat_Hash
begin

text \<open>
  When the hash table allocates: never, as long as its keys are no more than the positions a look-up
  may probe and fill at most half of the slots.  A value at distance \<open>d\<close> has \<open>d\<close> values before it,
  so the distances of so few keys stay below the limit, wherever the hash function puts them.
\<close>

lemma crowd:
  assumes l: "laid_out sh n ml es" and p: "Suc p < length es" and d: "int d \<le> distance_from_desired (es ! p)"
  shows "d < card (elements es)"
proof -
  let ?f = "\<lambda>i. the (entry_value (es ! i))" and ?I = "{p - d..p}"
  from l p have "d \<le> p" by (cases rule: slot_cases) (use d in auto)
  have held: "holds es i (?f i)" if "i \<in> ?I" for i
  proof -
    have i: "i \<le> p" "Suc i < length es" "p - i \<le> d" using that p by auto
    have "distance_from_desired (es ! i) \<ge> 0"
      using robin_hood [OF l i(1) p] d i(3) by linarith
    with l i(2) show ?thesis by (cases rule: slot_cases) auto
  qed
  have "inj_on ?f ?I"
  proof (rule inj_onI)
    fix i j assume "i \<in> ?I" "j \<in> ?I" "?f i = ?f j"
    then show "i = j" using held [of i] held [of j] l unfolding laid_out_def by metis
  qed
  then have "card ?I \<le> card (elements es)"
    using held by (intro card_inj_on_le [of ?f]) (auto simp: elements_finite, auto simp: elements_def)
  then show ?thesis using \<open>d \<le> p\<close> by simp
qed

lemma displace_rest:
  "displace ml es pos d c = Inr (es', Some c') \<Longrightarrow> 0 < d \<Longrightarrow>
     \<exists>p<length es'. distance_from_desired (es' ! p) \<ge> int (ml - 1)"
proof (induction ml es pos d c rule: displace.induct)
  case (1 ml es pos d c)
  show ?case
  proof (cases "at es pos")
    case (Inl e)
    then show ?thesis using "1.prems" by (simp add: displace.simps [of ml es pos d c])
  next
    case (Inr e)
    then have e: "pos < length es" "es ! pos = e" by (auto simp: at_Inr_iff)
    show ?thesis
      using "1.prems" "1.IH" [OF Inr] Inr e
      by (auto simp: displace.simps [of ml es pos d c] rbind_Inr_iff split: if_splits)
  qed
qed

text \<open>A table with room for the keys \<open>K\<close>, whatever their hashes.\<close>

definition spacious :: "nat \<Rightarrow> 64 word set \<Rightarrow> flat_hash_set \<Rightarrow> bool" where
  "spacious lim K t \<longleftrightarrow>
     (\<exists>k. sized lim k t) \<and> finite K \<and> members t \<subseteq> K \<and> card K \<le> max_lookups t \<and> 2 * card K \<le> slots t"

lemma spacious_subset: "spacious lim K t \<Longrightarrow> members t \<subseteq> K' \<Longrightarrow> K' \<subseteq> K \<Longrightarrow> spacious lim K' t"
  using card_mono [of K K'] finite_subset [of K' K] unfolding spacious_def by fastforce

text \<open>The table stays the same size: \<open>grow\<close> and the nested \<open>emplace\<close> are not called.\<close>

lemma emplace_once_room:
  assumes s: "sized lim k t" and new: "key \<notin> members t"
    and room: "card (members t) < max_lookups t" "2 * (card (members t) + 1) \<le> slots t"
  shows "\<exists>es pos. emplace_once g em t key =
    Inr (t\<lparr>entries := es, num_elements := num_elements t + 1\<rparr>, pos, True)"
proof -
  note l = sized_laid_out [OF s]
  have ok: "table_ok lim t" and k: "1 \<le> k" "slots t = 2 ^ k" "num_elements t = card (members t)" "4 \<le> max_lookups t"
    using s by (auto simp: sized_def table_ok_def)
  then have nz: "num_slots_minus_one t \<noteq> 0" using power_increasing [of 1 k "2::nat"] by auto
  obtain pos d where p: "probe (entries t) key (index_for_hash (shift t) key) 0 = Inr (False, pos, d)"
    "pos = index_for_hash (shift t) key + d" "d \<le> max_lookups t"
    "distance_from_desired (entries t ! pos) < int d"
    "0 < d \<longrightarrow> int d \<le> distance_from_desired (entries t ! (pos - 1)) + 1"
    using probe_table [OF ok, of key] new nz by auto
  have len: "length (entries t) = slots t + max_lookups t" "index_for_hash (shift t) key < slots t"
    using l by (auto simp: laid_out_def)
  have d: "d < max_lookups t"
  proof (rule ccontr)
    assume "\<not> d < max_lookups t"
    then have "d = max_lookups t" "0 < d" using p(3) k(4) by auto
    then have "int (d - 1) \<le> distance_from_desired (entries t ! (pos - 1))" "Suc (pos - 1) < length (entries t)"
      using p(2,5) len by auto
    from crowd [OF l this(2,1)] show False using room(1) \<open>d = _\<close> by simp
  qed
  note pl = place [OF l p(2) d p(4,5) new]
  let ?es = "(entries t)[pos := emplaced d key]"
  have step: "emplace_once g em t key = emplace_new_key g em t d pos key"
    using p(1) by (simp add: emplace_once_def)
  have go: "\<not> (num_slots_minus_one t = 0 \<or> d = max_lookups t \<or> 2 * (num_elements t + 1) > num_slots_minus_one t + 1)"
    using nz d room(2) k(3) by simp
  have at: "at (entries t) pos = Inr (entries t ! pos)" using pl(1) by simp
  from l pl(1) show ?thesis
  proof (cases rule: slot_cases)
    case empty
    then show ?thesis unfolding step using go at by (simp add: emplace_new_key_def) blast
  next
    case (filled e v)
    have "e < d" using filled p(4) by simp
    have held: "{w. holds (entries t) pos w} = {v}" using filled by (auto simp: holds_def)
    have "v \<in> members t" using filled by (auto simp: elements_def)
    then have v: "v \<notin> elements ?es" using new by (auto simp: pl(3) held)
    have "int (Suc e) \<le> distance_from_desired (?es ! pos) + 1" using \<open>e < d\<close> pl(1) by simp
    with v obtain es rest where r: "displace (max_lookups t) ?es (Suc pos) (Suc e) v = Inr (es, rest)"
      "laid_out (shift t) (slots t) (max_lookups t) es"
      "case rest of None \<Rightarrow> True | Some c \<Rightarrow> c \<notin> elements es \<and> insert c (elements es) = insert v (elements ?es)"
      using displace_spec [OF pl(2), of "Suc pos" v "Suc e"] filled(3) \<open>e < d\<close> d
      by (auto split: option.splits)
    have "rest = None"
    proof (rule ccontr)
      assume "rest \<noteq> None"
      then obtain c where c: "rest = Some c" by blast
      from displace_rest [OF r(1) [unfolded c]]
      obtain q where q: "q < length es" "distance_from_desired (es ! q) \<ge> int (max_lookups t - 1)" by auto
      have "q \<noteq> slots t + max_lookups t - 1" using q(2) r(2) k(4) by (auto simp: laid_out_def)
      then have "Suc q < length es" using q(1) r(2) by (auto simp: laid_out_def)
      from crowd [OF r(2) this q(2)] have full: "max_lookups t \<le> card (elements es)" using k(4) by linarith
      have "insert c (elements es) = insert key (members t)" "c \<notin> elements es"
        using r(3) c \<open>v \<in> members t\<close> by (auto simp: pl(3) held)
      then have "Suc (card (elements es)) = Suc (card (members t))"
        using elements_finite new by (metis card_insert_disjoint)
      then show False using full room(1) by simp
    qed
    then show ?thesis unfolding step using go at r(1) filled(1) by (simp add: emplace_new_key_def) blast
  qed
qed

lemma emplace_spacious:
  assumes lim: "lim \<le> 2 ^ 62" and sp: "spacious lim K t" and "key \<in> K"
  shows "\<exists>t' pos new. emplace lim t key = Inr (t', pos, new) \<and> spacious lim K t' \<and> slots t' = slots t"
proof -
  obtain k where s: "sized lim k t" and K: "finite K" "members t \<subseteq> K" "card K \<le> max_lookups t" "2 * card K \<le> slots t"
    using sp by (auto simp: spacious_def)
  have ok: "table_ok lim t" using s by (auto simp: table_ok_def)
  have once: "emplace lim = emplace_once (grow lim (emplace_at lim 63)) (emplace_at lim 63)"
    by (simp only: emplace_def emplace_at.simps(2) [symmetric]) simp
  show ?thesis
  proof (cases "key \<in> members t")
    case True
    then obtain pos d where "probe (entries t) key (index_for_hash (shift t) key) 0 = Inr (True, pos, d)"
      using probe_table [OF ok, of key] by auto
    then show ?thesis using sp
      by (intro exI [of _ t] exI [of _ pos] exI [of _ False]) (simp add: once emplace_once_def)
  next
    case False
    have "card (insert key (members t)) \<le> card K" using K assms(3) by (intro card_mono) auto
    then have "Suc (card (members t)) \<le> card K" using False elements_finite by simp
    then obtain es pos where e: "emplace lim t key = Inr (t\<lparr>entries := es, num_elements := num_elements t + 1\<rparr>, pos, True)"
      using emplace_once_room [OF s False, of "grow lim (emplace_at lim 63)" "emplace_at lim 63"] K(3,4)
      unfolding once by auto
    let ?t = "t\<lparr>entries := es, num_elements := num_elements t + 1\<rparr>"
    have "table_ok lim ?t" "members ?t = insert key (members t)" using emplace_spec [OF lim ok, of key] e by simp_all
    moreover have "?t \<noteq> empty_set_table"
      using s power_increasing [of 1 k "2::nat"] by (auto simp: sized_def empty_set_table_def dest!: arg_cong [where f = num_slots_minus_one])
    ultimately have "spacious lim K ?t" using K assms(3) by (auto simp: spacious_def table_ok_def)
    then show ?thesis using e by (intro exI [of _ ?t] exI [of _ pos] exI [of _ True]) simp
  qed
qed

text \<open>The table that the constructor of the query builder reserves has room for 24 keys.\<close>

definition reserved :: "nat \<Rightarrow> 64 word set \<Rightarrow> flat_hash_set \<Rightarrow> bool" where
  "reserved lim K t \<longleftrightarrow> spacious lim K t \<and> slots t = 16777216"

lemma insert_key_reserved:
  assumes "lim \<le> 2 ^ 62" and "reserved lim K t" and "key \<in> K"
  shows "\<exists>t'. insert_key lim t key = Inr t' \<and> reserved lim K t'"
  using emplace_spacious [of lim K t key] assms by (auto simp: insert_key_def reserved_def)

text \<open>
  Up to 24 keys, a segment of the program's size, and a table that is new or was reserved before: the
  reservation succeeds, and so does every insertion.
\<close>

definition room_for :: "nat \<Rightarrow> 64 word set \<Rightarrow> flat_hash_set \<Rightarrow> bool" where
  "room_for lim K t \<longleftrightarrow>
     18874368 \<le> lim \<and> finite K \<and> card K \<le> 24 \<and> (t = empty_set_table \<or> reserved lim K t)"

lemma reserve_room:
  assumes "room_for lim K t"
  shows "\<exists>t'. reserve lim t 6700000 = Inr t' \<and> reserved lim K t'"
proof -
  have assms: "18874368 \<le> lim" "finite K" "card K \<le> 24" "t = empty_set_table \<or> reserved lim K t"
    using assms by (auto simp: room_for_def)
  from assms(4) show ?thesis
  proof
    assume "t = empty_set_table"
    then obtain t' where t': "reserve lim t 6700000 = Inr t'" "sized lim 24 t'" "slots t' = 16777216" "members t' = {}"
      using reserve_empty [OF assms(1)] by blast
    moreover have "max_lookups t' = 24" using t'(2) by (simp add: sized_def)
    ultimately have "spacious lim K t'" using assms(2,3) by (auto simp: spacious_def)
    with t' show ?thesis by (simp add: reserved_def)
  next
    assume "reserved lim K t"
    then show ?thesis by (auto simp: reserve_def num_buckets_for_reserve_def bucket_count_def reserved_def)
  qed
qed

section \<open>The interface with room\<close>

text \<open>
  What a client may rely on while there is room for the keys it will ask for: no insertion fails.
\<close>

locale roomy_keys = recorded_keys ok elems look ins
  for ok :: "'t \<Rightarrow> bool" and elems :: "'t \<Rightarrow> 'k set"
    and look :: "'t \<Rightarrow> 'k \<Rightarrow> bool res" and ins :: "'t \<Rightarrow> 'k \<Rightarrow> 't res" +
  fixes room :: "'k set \<Rightarrow> 't \<Rightarrow> bool"
  assumes room_ins: "ok t \<Longrightarrow> room K t \<Longrightarrow> x \<in> K \<Longrightarrow> \<exists>t'. ins t x = Inr t' \<and> room K t'"
begin

lemma no_failure: "ok t \<Longrightarrow> room K t \<Longrightarrow> x \<in> K \<Longrightarrow> ins t x \<noteq> Inl e"
  using room_ins [of t K x] by auto

lemma keeps_room: "ok t \<Longrightarrow> room K t \<Longrightarrow> x \<in> K \<Longrightarrow> ins t x = Inr t' \<Longrightarrow> room K t'"
  using room_ins [of t K x] by auto

lemma test_and_insert_total:
  assumes "ok t" and "room K t" and "x \<in> K"
  shows "\<exists>t'. rbind (look t x) (\<lambda>f. if f then Inr (True, t) else rbind (ins t x) (\<lambda>t. Inr (False, t))) =
    Inr (x \<in> elems t, t') \<and> ok t' \<and> room K t' \<and> elems t' = insert x (elems t)"
  using room_ins [OF assms] ins [OF assms(1)] assms by (auto simp: look [OF assms(1)] insert_absorb)

end

interpretation flat_room: roomy_keys "set_ok lim" members contains "insert_key lim" "reserved lim" for lim
  by unfold_locales (rule insert_key_reserved; simp add: set_ok_def)

end
