(* ===== verification/Flat_Hash_Ops.thy ===== *)
theory Flat_Hash_Ops
  imports Flat_Hash
begin

text \<open>
  The operations of \<open>sherwood_v3_table\<close> the query builder does not call: erasing, iterating,
  comparing, swapping and copying.  An iterator is a position of the table.
\<close>

section \<open>Iterators\<close>

text \<open>The loops of \<open>begin\<close> and \<open>operator++\<close>: on to the next entry that is not empty.\<close>

function seek_value :: "sherwood_v3_entry list \<Rightarrow> nat \<Rightarrow> nat res" where
  "seek_value es pos = rbind (at es pos) (\<lambda>e. if is_empty e then seek_value es (Suc pos) else Inr pos)"
  by pat_completeness auto
termination
  by (relation "measure (\<lambda>(es, pos). length es - pos)") (auto simp: at_Inr_iff)

declare seek_value.simps [simp del]

definition begin_pos :: "flat_hash_set \<Rightarrow> nat res" where
  "begin_pos t = seek_value (entries t) 0"

definition next_pos :: "flat_hash_set \<Rightarrow> nat \<Rightarrow> nat res" where
  "next_pos t pos = seek_value (entries t) (Suc pos)"

lemma seek_value_bounds: "seek_value es pos = Inr q \<Longrightarrow> pos \<le> q \<and> q < length es"
proof (induction es pos rule: seek_value.induct)
  case (1 es pos)
  from "1.prems" obtain e where e: "at es pos = Inr e"
    "(if is_empty e then seek_value es (Suc pos) else Inr pos) = Inr q"
    by (auto simp: seek_value.simps [of es pos] rbind_Inr_iff)
  with "1.IH" [OF e(1)] show ?case by (auto simp: at_Inr_iff split: if_splits)
qed

text \<open>A range-based \<open>for\<close> over the table: the values it visits.\<close>

function iterate :: "flat_hash_set \<Rightarrow> nat \<Rightarrow> 64 word list res" where
  "iterate t pos =
     (if pos = end_pos t then Inr []
      else rbind (at (entries t) pos) (\<lambda>e. rbind (value_of e) (\<lambda>v.
        rbind (next_pos t pos) (\<lambda>p. rbind (iterate t p) (\<lambda>vs. Inr (v # vs))))))"
  by pat_completeness auto
termination
  by (relation "measure (\<lambda>(t, pos). length (entries t) - pos)")
     (auto simp: next_pos_def dest!: seek_value_bounds)

declare iterate.simps [simp del]

definition values_in :: "flat_hash_set \<Rightarrow> 64 word list res" where
  "values_in t = rbind (begin_pos t) (iterate t)"

section \<open>Erasing\<close>

definition destroy_value :: "sherwood_v3_entry \<Rightarrow> sherwood_v3_entry" where
  "destroy_value e = vacant"

text \<open>
  The loop of \<open>erase\<close>: the entry after the gap moves into it, until one is where it wants to be.
\<close>

function close_gap :: "sherwood_v3_entry list \<Rightarrow> nat \<Rightarrow> sherwood_v3_entry list res" where
  "close_gap es cur =
     rbind (at es (Suc cur)) (\<lambda>e.
       if is_at_desired_position e then Inr es
       else rbind (value_of e) (\<lambda>v.
         close_gap ((es[cur := emplaced (nat (distance_from_desired e - 1)) v])[Suc cur := destroy_value e])
           (Suc cur)))"
  by pat_completeness auto
termination
  by (relation "measure (\<lambda>(es, cur). length es - cur)") (auto simp: at_Inr_iff)

declare close_gap.simps [simp del]

definition erase_at :: "flat_hash_set \<Rightarrow> nat \<Rightarrow> flat_hash_set res" where
  "erase_at t pos =
     rbind (at (entries t) pos) (\<lambda>e.
     rbind (close_gap ((entries t)[pos := destroy_value e]) pos) (\<lambda>es.
       Inr (t\<lparr>entries := es, num_elements := num_elements t - 1\<rparr>)))"

definition erase :: "flat_hash_set \<Rightarrow> 64 word \<Rightarrow> (nat \<times> flat_hash_set) res" where
  "erase t key =
     rbind (find_pos t key) (\<lambda>found.
       if found = end_pos t then Inr (0, t) else rbind (erase_at t found) (\<lambda>t. Inr (1, t)))"

section \<open>Whole tables\<close>

definition size_of :: "flat_hash_set \<Rightarrow> nat" where
  "size_of t = num_elements t"

definition empty_set :: "flat_hash_set \<Rightarrow> bool" where
  "empty_set t \<longleftrightarrow> num_elements t = 0"

definition bucket :: "flat_hash_set \<Rightarrow> 64 word \<Rightarrow> nat" where
  "bucket t key = index_for_hash (shift t) key"

fun all_found :: "flat_hash_set \<Rightarrow> 64 word list \<Rightarrow> bool res" where
  "all_found t [] = Inr True"
| "all_found t (v # vs) = rbind (find_pos t v) (\<lambda>pos. if pos = end_pos t then Inr False else all_found t vs)"

definition set_eq :: "flat_hash_set \<Rightarrow> flat_hash_set \<Rightarrow> bool res" where
  "set_eq lhs rhs =
     (if size_of lhs \<noteq> size_of rhs then Inr False else rbind (values_in lhs) (all_found rhs))"

definition swap_pointers :: "flat_hash_set \<Rightarrow> flat_hash_set \<Rightarrow> flat_hash_set \<times> flat_hash_set" where
  "swap_pointers t other =
     (t\<lparr>shift := shift other, entries := entries other, num_slots_minus_one := num_slots_minus_one other,
        num_elements := num_elements other, max_lookups := max_lookups other\<rparr>,
      other\<lparr>shift := shift t, entries := entries t, num_slots_minus_one := num_slots_minus_one t,
        num_elements := num_elements t, max_lookups := max_lookups t\<rparr>)"

fun insert_range :: "nat \<Rightarrow> flat_hash_set \<Rightarrow> 64 word list \<Rightarrow> flat_hash_set res" where
  "insert_range lim t [] = Inr t"
| "insert_range lim t (v # vs) = rbind (insert_key lim t v) (\<lambda>t. insert_range lim t vs)"

definition rehash_for_other_container :: "nat \<Rightarrow> flat_hash_set \<Rightarrow> flat_hash_set \<Rightarrow> flat_hash_set res" where
  "rehash_for_other_container lim t other =
     rehash lim (emplace lim) t (min (num_buckets_for_reserve (size_of other)) (bucket_count other))"

definition shrink_to_fit :: "nat \<Rightarrow> flat_hash_set \<Rightarrow> flat_hash_set res" where
  "shrink_to_fit lim t = rehash_for_other_container lim t t"

text \<open>
  The copy constructor; copy assignment (of another table: to itself it does nothing) clears the table
  first.  The allocators of the program do not propagate on assignment, so the branch that would
  give up the entries before the allocator changes (\<open>reset_to_empty_state\<close>) is not taken.
\<close>

definition copy_set :: "nat \<Rightarrow> flat_hash_set \<Rightarrow> flat_hash_set res" where
  "copy_set lim other =
     rbind (rehash_for_other_container lim empty_set_table other) (\<lambda>t.
     rbind (values_in other) (insert_range lim t))"

definition assign_set :: "nat \<Rightarrow> flat_hash_set \<Rightarrow> flat_hash_set \<Rightarrow> flat_hash_set res" where
  "assign_set lim t other =
     rbind (rehash_for_other_container lim (clear t) other) (\<lambda>t.
     rbind (values_in other) (insert_range lim t))"

section \<open>A table with a gap\<close>

text \<open>
  While \<open>erase\<close> moves values back, the entry at \<open>cur\<close> is empty and the one after it may be one
  step too far from its desired position; all else is as in a laid out table.
\<close>

definition gapped :: "nat \<Rightarrow> nat \<Rightarrow> nat \<Rightarrow> sherwood_v3_entry list \<Rightarrow> nat \<Rightarrow> bool" where
  "gapped sh sl ml es cur \<longleftrightarrow>
     0 < ml \<and> length es = sl + ml \<and> (\<forall>v. index_for_hash sh v < sl) \<and>
     distance_from_desired (es ! (sl + ml - 1)) = 0 \<and>
     Suc cur < length es \<and> es ! cur = vacant \<and>
     (\<forall>i. Suc i < length es \<longrightarrow> slot_ok sh ml i (es ! i)) \<and>
     (\<forall>i. Suc (Suc i) < length es \<longrightarrow> i \<noteq> cur \<longrightarrow>
        distance_from_desired (es ! Suc i) \<le> distance_from_desired (es ! i) + 1) \<and>
     (Suc (Suc cur) < length es \<longrightarrow> 0 < cur \<longrightarrow>
        distance_from_desired (es ! Suc cur) \<le> distance_from_desired (es ! (cur - 1)) + 2) \<and>
     (\<forall>i j v. holds es i v \<longrightarrow> holds es j v \<longrightarrow> i = j)"

lemma vacant_simps [simp]:
  "distance_from_desired vacant = -1" "\<not> has_value vacant" "is_empty vacant" "slot_ok sh ml i vacant"
  by (simp_all add: vacant_def has_value_def is_empty_def slot_ok_def)

lemma holds_vacate: "Suc p < length es \<Longrightarrow> holds (es[p := vacant]) i v \<longleftrightarrow> i \<noteq> p \<and> holds es i v"
  by (auto simp: holds_def nth_list_update)

lemma laid_out_gap:
  assumes "laid_out sh sl ml es" and "Suc pos < length es"
  shows "gapped sh sl ml (es[pos := vacant]) pos"
proof -
  have "distance_from_desired (es ! Suc pos) \<le> distance_from_desired (es ! (pos - 1)) + 2"
    if asm: "Suc (Suc pos) < length es" "0 < pos"
  proof -
    obtain q where q: "pos = Suc q" using asm(2) by (cases pos) auto
    have "distance_from_desired (es ! Suc q) \<le> distance_from_desired (es ! q) + 1"
      "distance_from_desired (es ! Suc pos) \<le> distance_from_desired (es ! pos) + 1"
      using assms(1) asm q by (auto simp: laid_out_def)
    then show ?thesis using q by simp
  qed
  moreover have "distance_from_desired (es[pos := vacant] ! Suc i) \<le> distance_from_desired (es[pos := vacant] ! i) + 1"
    if "Suc (Suc i) < length es" "i \<noteq> pos" for i
  proof -
    have "distance_from_desired (es ! Suc i) \<le> distance_from_desired (es ! i) + 1"
      using assms(1) that by (simp add: laid_out_def)
    then show ?thesis
      using distance_low [OF assms(1), of i] that by (cases "Suc i = pos") simp_all
  qed
  ultimately show ?thesis
    using assms unfolding gapped_def
    by (auto simp: laid_out_def nth_list_update holds_vacate)
qed

lemma gap_closed:
  assumes "gapped sh sl ml es cur" and "is_at_desired_position (es ! Suc cur)"
  shows "laid_out sh sl ml es"
proof -
  have "distance_from_desired (es ! Suc i) \<le> distance_from_desired (es ! i) + 1"
    if "Suc (Suc i) < length es" for i
    using assms that by (cases "i = cur") (auto simp: gapped_def is_at_desired_position_def)
  then show ?thesis using assms(1) by (auto simp: gapped_def laid_out_def)
qed

lemma gap_moves:
  assumes g: "gapped sh sl ml es cur" and far: "\<not> is_at_desired_position (es ! Suc cur)"
  obtains d v where "es ! Suc cur = emplaced (Suc d) v"
    "gapped sh sl ml ((es[cur := emplaced d v])[Suc cur := vacant]) (Suc cur)"
    "elements ((es[cur := emplaced d v])[Suc cur := vacant]) = elements es"
proof -
  have len: "length es = sl + ml" "Suc cur < length es" and last: "distance_from_desired (es ! (sl + ml - 1)) = 0"
    using g by (auto simp: gapped_def)
  have "Suc cur \<noteq> sl + ml - 1" using far last by (auto simp: is_at_desired_position_def)
  then have in_table: "Suc (Suc cur) < length es" using len by linarith
  have "slot_ok sh ml (Suc cur) (es ! Suc cur)" using g in_table by (simp add: gapped_def)
  then obtain e v where e: "es ! Suc cur = emplaced e v" "e < ml" "Suc cur = index_for_hash sh v + e" "0 < e"
    using far by (auto simp: slot_ok_def is_at_desired_position_def)
  then obtain d where d: "e = Suc d" by (cases e) auto
  let ?es = "(es[cur := emplaced d v])[Suc cur := vacant]"
  have held: "holds ?es i w \<longleftrightarrow> (if i = cur then w = v else i \<noteq> Suc cur \<and> holds es i w)" for i w
    using in_table by (auto simp: holds_def nth_list_update)
  have hv: "holds es (Suc cur) w \<longleftrightarrow> w = v" "\<not> holds es cur w" for w
    using e(1) in_table g by (auto simp: holds_def gapped_def)
  have unique: "i = j" if "holds ?es i w" "holds ?es j w" for i j w
  proof -
    have "i' = j'" if "holds es i' w'" "holds es j' w'" for i' j' w'
      using g that unfolding gapped_def by blast
    from this [of i w j] this [of "Suc cur" w] show ?thesis
      using that hv(1) unfolding held by (metis (full_types))
  qed
  have mono: "distance_from_desired (?es ! Suc i) \<le> distance_from_desired (?es ! i) + 1"
    if "Suc (Suc i) < length es" "i \<noteq> Suc cur" for i
  proof -
    consider "i = cur" | "Suc i = cur" | "i \<noteq> cur" "Suc i \<noteq> cur" by blast
    then show ?thesis
    proof cases
      case 2
      then have "distance_from_desired (es ! Suc cur) \<le> distance_from_desired (es ! i) + 2"
        using g in_table by (auto simp: gapped_def)
      then show ?thesis using 2 e(1) d that by (auto simp: nth_list_update)
    next
      case 3
      then show ?thesis using g that by (auto simp: gapped_def nth_list_update)
    qed (use in_table in \<open>simp add: nth_list_update\<close>)
  qed
  have two: "distance_from_desired (?es ! Suc (Suc cur)) \<le> distance_from_desired (?es ! cur) + 2"
    if "Suc (Suc (Suc cur)) < length es"
  proof -
    have "distance_from_desired (es ! Suc (Suc cur)) \<le> distance_from_desired (es ! Suc cur) + 1"
      using g that by (simp add: gapped_def)
    then show ?thesis using e(1) d that by (simp add: nth_list_update)
  qed
  have slot: "slot_ok sh ml i (?es ! i)" if "Suc i < length es" for i
    using g that e d in_table by (auto simp: gapped_def nth_list_update slot_ok_def)
  have "distance_from_desired (?es ! (sl + ml - 1)) = 0"
    using last in_table len by (auto simp: nth_list_update)
  then have "gapped sh sl ml ?es (Suc cur)"
    unfolding gapped_def using g len in_table slot mono two unique
    by (auto simp: gapped_def)
  moreover have "elements ?es = elements es"
  proof -
    have "x \<in> elements ?es \<longleftrightarrow> x = v \<or> (\<exists>i. i \<noteq> cur \<and> i \<noteq> Suc cur \<and> holds es i x)" for x
      unfolding elements_def mem_Collect_eq held by metis
    moreover have "x \<in> elements es \<longleftrightarrow> x = v \<or> (\<exists>i. i \<noteq> cur \<and> i \<noteq> Suc cur \<and> holds es i x)" for x
      unfolding elements_def mem_Collect_eq using hv by metis
    ultimately show ?thesis by blast
  qed
  ultimately show ?thesis using that e(1) d by blast
qed

lemma close_gap_spec:
  "gapped sh sl ml es cur \<Longrightarrow>
   \<exists>es'. close_gap es cur = Inr es' \<and> laid_out sh sl ml es' \<and> elements es' = elements es"
proof (induction es cur rule: close_gap.induct)
  case (1 es cur)
  have at: "at es (Suc cur) = Inr (es ! Suc cur)" using "1.prems" by (simp add: gapped_def)
  show ?case
  proof (cases "is_at_desired_position (es ! Suc cur)")
    case True
    then show ?thesis
      using at gap_closed [OF "1.prems"] by (simp add: close_gap.simps [of es cur])
  next
    case False
    obtain d v where d: "es ! Suc cur = emplaced (Suc d) v"
      "gapped sh sl ml ((es[cur := emplaced d v])[Suc cur := vacant]) (Suc cur)"
      "elements ((es[cur := emplaced d v])[Suc cur := vacant]) = elements es"
      by (rule gap_moves [OF "1.prems" False])
    have "close_gap es cur = close_gap ((es[cur := emplaced d v])[Suc cur := vacant]) (Suc cur)"
      using at False d(1) by (simp add: close_gap.simps [of es cur] destroy_value_def)
    moreover have "\<exists>es'. close_gap ((es[cur := emplaced d v])[Suc cur := vacant]) (Suc cur) = Inr es' \<and>
        laid_out sh sl ml es' \<and> elements es' = elements ((es[cur := emplaced d v])[Suc cur := vacant])"
      using "1.IH" [OF at False, of v] d(1,2) by (simp add: destroy_value_def)
    ultimately show ?thesis using d(3) by simp
  qed
qed

lemma erase_at_spec:
  assumes s: "sized lim k t" and h: "holds (entries t) pos key"
  shows "\<exists>t'. erase_at t pos = Inr t' \<and> sized lim k t' \<and> members t' = members t - {key}"
proof -
  note l = sized_laid_out [OF s]
  have p: "Suc pos < length (entries t)" using h by (simp add: holds_def)
  obtain es where es: "close_gap ((entries t)[pos := vacant]) pos = Inr es"
    "laid_out (shift t) (slots t) (max_lookups t) es" "elements es = elements ((entries t)[pos := vacant])"
    using close_gap_spec [OF laid_out_gap [OF l p]] by blast
  have "elements ((entries t)[pos := vacant]) = members t - {key}"
  proof -
    have "i = pos" if "holds (entries t) i key" for i
      using l h that unfolding laid_out_def by blast
    moreover have "v = key" if "holds (entries t) pos v" for v
      using h that by (simp add: holds_def)
    ultimately have "(\<exists>i. i \<noteq> pos \<and> holds (entries t) i v) \<longleftrightarrow> (\<exists>i. holds (entries t) i v) \<and> v \<noteq> key" for v
      by (cases "v = key") (blast, metis)
    then show ?thesis by (auto simp: elements_def holds_vacate [OF p])
  qed
  then have e: "elements es = members t - {key}" using es(3) by simp
  have k: "key \<in> members t" using h by (auto simp: elements_def)
  let ?t = "t\<lparr>entries := es, num_elements := num_elements t - 1\<rparr>"
  have "card (members t - {key}) = card (members t) - 1"
    by (rule card_Diff_singleton [OF k])
  moreover have "num_elements t = card (members t)" "2 * num_elements t \<le> slots t"
    using s by (simp_all add: sized_def)
  ultimately have "num_elements ?t = card (members ?t)" "2 * num_elements ?t \<le> slots ?t"
    using e by simp_all
  then have "sized lim k ?t"
    using s es(2) unfolding sized_def by simp
  moreover have "erase_at t pos = Inr ?t"
    using p es(1) by (simp add: erase_at_def destroy_value_def)
  ultimately show ?thesis using e by (intro exI [of _ ?t]) simp
qed

lemma erase_spec:
  assumes "table_ok lim t"
  shows "\<exists>t'. erase t key = Inr (if key \<in> members t then 1 else 0, t') \<and> table_ok lim t' \<and>
    members t' = members t - {key}"
proof -
  obtain pos where pos: "find_pos t key = Inr pos" "pos = end_pos t \<longleftrightarrow> key \<notin> members t"
    "key \<in> members t \<longrightarrow> holds (entries t) pos key"
    using find_pos_spec [OF assms, of key] by blast
  show ?thesis
  proof (cases "key \<in> members t")
    case False
    then show ?thesis using pos assms by (simp add: erase_def)
  next
    case True
    then have "t \<noteq> empty_set_table" by auto
    then obtain k where k: "sized lim k t" using assms by (auto simp: table_ok_def)
    obtain t' where "erase_at t pos = Inr t'" "sized lim k t'" "members t' = members t - {key}"
      using erase_at_spec [OF k, of pos key] pos(3) True by blast
    then show ?thesis using pos True by (auto simp: erase_def table_ok_def)
  qed
qed

section \<open>Visiting the values\<close>

text \<open>The values from a position on, by position.\<close>

definition vals :: "flat_hash_set \<Rightarrow> nat \<Rightarrow> 64 word list" where
  "vals t pos = map (\<lambda>i. the (entry_value (entries t ! i)))
     (filter (\<lambda>i. has_value (entries t ! i)) [pos..<end_pos t])"

lemma end_not_empty: "table_ok lim t \<Longrightarrow> end_pos t < length (entries t) \<and> \<not> is_empty (entries t ! end_pos t)"
proof -
  assume ok: "table_ok lim t"
  then consider "t = empty_set_table" | k where "sized lim k t" by (auto simp: table_ok_def)
  then show ?thesis
  proof cases
    case 1
    then show ?thesis
      by (simp add: end_pos_def empty_set_table_def empty_default_table_def special_end_def is_empty_def
          eval_nat_numeral)
  next
    case 2
    then show ?thesis
      using sized_laid_out [OF 2] table_shape [OF ok]
      by (simp add: laid_out_def end_pos_def is_empty_def)
  qed
qed

lemma value_there:
  assumes "table_ok lim t" and "i < end_pos t" and "has_value (entries t ! i)"
  shows "\<exists>v. entry_value (entries t ! i) = Some v"
proof -
  have "end_pos t < length (entries t)" using end_not_empty [OF assms(1)] by simp
  then have "entries t ! i \<in> set (take (end_pos t) (entries t))"
    using assms(2) by (auto simp: in_set_conv_nth)
  then show ?thesis using table_values [OF assms(1)] assms(3) by (simp add: end_pos_def)
qed

lemma iterate_from:
  assumes ok: "table_ok lim t" and "pos \<le> end_pos t"
  shows "rbind (seek_value (entries t) pos) (iterate t) = Inr (vals t pos)"
  using assms(2)
proof (induction "end_pos t - pos" arbitrary: pos)
  case 0
  then have "pos = end_pos t" by simp
  then show ?case
    using end_not_empty [OF ok]
    by (simp add: seek_value.simps [of "entries t" "end_pos t"] iterate.simps [of t "end_pos t"] vals_def)
next
  case (Suc n)
  then have lt: "pos < end_pos t" by simp
  then have at: "at (entries t) pos = Inr (entries t ! pos)" using end_not_empty [OF ok] by simp
  have IH: "rbind (seek_value (entries t) (Suc pos)) (iterate t) = Inr (vals t (Suc pos))"
    using Suc by auto
  have upt: "[pos..<end_pos t] = pos # [Suc pos..<end_pos t]" using lt by (rule upt_conv_Cons)
  show ?case
  proof (cases "is_empty (entries t ! pos)")
    case True
    then show ?thesis
      using at IH by (simp add: seek_value.simps [of "entries t" pos] vals_def upt has_value_not_empty)
  next
    case False
    then obtain v where v: "entry_value (entries t ! pos) = Some v"
      using value_there [OF ok lt] by (auto simp: has_value_not_empty)
    obtain q where q: "seek_value (entries t) (Suc pos) = Inr q" "iterate t q = Inr (vals t (Suc pos))"
      using IH by (auto simp: rbind_Inr_iff)
    have "iterate t pos = Inr (v # vals t (Suc pos))"
      using lt at v q by (simp add: iterate.simps [of t pos] value_of_def next_pos_def)
    then show ?thesis
      using at False v by (simp add: seek_value.simps [of "entries t" pos] vals_def upt has_value_not_empty)
  qed
qed

lemma values_in_spec:
  assumes "table_ok lim t"
  shows "\<exists>vs. values_in t = Inr vs \<and> set vs = members t \<and> distinct vs"
proof -
  have len: "length (entries t) = Suc (end_pos t)" using table_shape [OF assms] by (simp add: end_pos_def)
  have h: "holds (entries t) i v \<longleftrightarrow> i < end_pos t \<and> has_value (entries t ! i) \<and> the (entry_value (entries t ! i)) = v"
    for i v
    using value_there [OF assms, of i] len by (auto simp: holds_def)
  have "v \<in> set (vals t 0) \<longleftrightarrow> (\<exists>i. holds (entries t) i v)" for v
    by (auto simp: vals_def h)
  then have "set (vals t 0) = members t" by (auto simp: elements_def)
  moreover have "inj_on (\<lambda>i. the (entry_value (entries t ! i))) {i. i < end_pos t \<and> has_value (entries t ! i)}"
  proof (cases "t = empty_set_table")
    case True
    then have "\<not> holds (entries t) i v" for i v using elements_empty_table by (auto simp: elements_def)
    then show ?thesis unfolding h by (auto simp: inj_on_def)
  next
    case False
    then obtain k where "sized lim k t" using assms by (auto simp: table_ok_def)
    then have "\<forall>i j v. holds (entries t) i v \<longrightarrow> holds (entries t) j v \<longrightarrow> i = j"
      using sized_laid_out unfolding laid_out_def by blast
    then show ?thesis unfolding h by (auto simp: inj_on_def)
  qed
  then have "distinct (vals t 0)"
    unfolding vals_def distinct_map by (simp add: inj_on_def)
  moreover have "values_in t = Inr (vals t 0)"
    using iterate_from [OF assms, of 0] by (simp add: values_in_def begin_pos_def)
  ultimately show ?thesis by blast
qed

section \<open>Comparing and copying\<close>

lemma elements_default_table [simp]: "elements empty_default_table = {}"
  using elements_empty_table unfolding empty_set_table_simps .

lemma all_found_spec: "table_ok lim t \<Longrightarrow> all_found t vs = Inr (set vs \<subseteq> members t)"
proof (induction vs)
  case (Cons v vs)
  obtain pos where "find_pos t v = Inr pos" "pos = end_pos t \<longleftrightarrow> v \<notin> members t"
    using find_pos_spec [OF Cons.prems, of v] by blast
  with Cons show ?case by auto
qed simp

lemma size_members: "table_ok lim t \<Longrightarrow> size_of t = card (members t) \<and> finite (members t)"
  using elements_finite by (auto simp: table_ok_def size_of_def sized_def empty_set_table_simps)

lemma set_eq_spec:
  assumes "table_ok lim t" and "table_ok lim' t'"
  shows "set_eq t t' = Inr (members t = members t')"
proof -
  obtain vs where vs: "values_in t = Inr vs" "set vs = members t" using values_in_spec [OF assms(1)] by blast
  note s = size_members [OF assms(1)] size_members [OF assms(2)]
  show ?thesis
  proof (cases "size_of t = size_of t'")
    case True
    then have "members t \<subseteq> members t' \<longleftrightarrow> members t = members t'"
      using s by (metis card_subset_eq order_refl)
    then show ?thesis using True vs all_found_spec [OF assms(2)] by (simp add: set_eq_def)
  next
    case False
    then show ?thesis using s by (auto simp: set_eq_def)
  qed
qed

lemma insert_range_spec:
  "lim \<le> 2 ^ 62 \<Longrightarrow> table_ok lim t \<Longrightarrow>
   (case insert_range lim t vs of
      Inl e \<Rightarrow> e = Throws_Bad_Alloc
    | Inr t' \<Rightarrow> table_ok lim t' \<and> members t' = members t \<union> set vs)"
proof (induction vs arbitrary: t)
  case (Cons v vs)
  show ?case
  proof (cases "insert_key lim t v")
    case (Inl e)
    then show ?thesis
      using emplace_spec [OF Cons.prems, of v] by (auto simp: insert_key_def rbind_Inl_iff split: prod.splits)
  next
    case (Inr t1)
    then have "table_ok lim t1" "members t1 = insert v (members t)"
      using emplace_spec [OF Cons.prems, of v] by (auto simp: insert_key_def rbind_Inr_iff)
    then show ?thesis using Cons.IH [OF Cons.prems(1), of t1] Inr by (auto split: sum.splits)
  qed
qed simp

lemma reset_empty: "reset_to_empty_state empty_set_table = empty_set_table"
  by (simp add: reset_to_empty_state_def empty_set_table_def)

lemma rehash_for_copy:
  assumes "lim \<le> 2 ^ 62" and "table_ok lim other"
  shows "case rehash_for_other_container lim empty_set_table other of
      Inl e \<Rightarrow> e = Throws_Bad_Alloc
    | Inr t \<Rightarrow> table_ok lim t \<and> members t = {}"
proof -
  define nb where "nb = min (2 * num_elements other) (bucket_count other)"
  have r: "rehash_for_other_container lim empty_set_table other = rehash lim (emplace lim) empty_set_table nb"
    by (simp add: rehash_for_other_container_def num_buckets_for_reserve_def size_of_def nb_def)
  show ?thesis
  proof (cases "nb = 0")
    case True
    then have "rehash lim (emplace lim) empty_set_table nb = Inr empty_set_table"
      by (simp add: rehash_def empty_set_table_simps reset_empty)
    then show ?thesis by (simp add: r table_ok_def)
  next
    case False
    have em: "emplace_ok lim 64 (emplace lim)"
      unfolding emplace_def by (rule emplace_at_ok) (rule assms(1))
    have "nb \<le> 2 ^ 63" using table_bounds(1) [OF assms(2)] assms(1) by (simp add: nb_def)
    moreover have "\<not> oom lim 64 nb Stack_Overflow" using False assms(1) by (simp add: oom_def)
    moreover have "table_ok lim empty_set_table" by (simp add: table_ok_def)
    moreover have "bucket_count empty_set_table < nb"
      using False by (simp add: bucket_count_def empty_set_table_simps)
    ultimately show ?thesis
      using rehash_spec [OF em, of nb nb empty_set_table] False
        table_values [of lim empty_set_table] members_moved_set [of lim empty_set_table]
      unfolding r by (auto simp: oom_def empty_set_table_simps split: sum.splits)
  qed
qed

lemma copy_spec:
  assumes "lim \<le> 2 ^ 62" and "table_ok lim other"
  shows "case copy_set lim other of
      Inl e \<Rightarrow> e = Throws_Bad_Alloc
    | Inr t \<Rightarrow> table_ok lim t \<and> members t = members other"
proof -
  obtain vs where vs: "values_in other = Inr vs" "set vs = members other" using values_in_spec [OF assms(2)] by blast
  show ?thesis
  proof (cases "rehash_for_other_container lim empty_set_table other")
    case (Inl e)
    then show ?thesis using rehash_for_copy [OF assms] by (simp add: copy_set_def)
  next
    case (Inr t)
    then have "table_ok lim t" "members t = {}" using rehash_for_copy [OF assms] by auto
    then show ?thesis
      using insert_range_spec [OF assms(1), of t vs] vs Inr by (auto simp: copy_set_def split: sum.splits)
  qed
qed

section \<open>Properties\<close>

text \<open>
  (C14) \<open>erase\<close> removes exactly the key, tells whether it was there, and closes the gap it leaves so
  that the table satisfies the invariant again; it reads no entry outside the table or without a
  value.
\<close>

theorem erase_correct:
  assumes "table_ok lim t"
  shows "\<exists>t'. erase t key = Inr (if key \<in> members t then 1 else 0, t') \<and> table_ok lim t' \<and>
    members t' = members t - {key}"
  using assms by (rule erase_spec)

theorem erase_correct_witness:
  "\<exists>t t'. members t = {5} \<and> erase t 5 = Inr (1, t') \<and> table_ok 100 t' \<and> members t' = {}"
proof -
  obtain t where t: "table_ok 100 t" "members t = {5}"
    by (rule one_element_table)
  from erase_correct [OF t(1), of 5] t(2) obtain t' where "erase t 5 = Inr (1, t')" "table_ok 100 t'" "members t' = {}"
    by auto
  with t(2) show ?thesis by blast
qed

text \<open>
  (C21) Iterating from \<open>begin()\<close> to \<open>end()\<close> visits every value once, two tables compare equal exactly
  when they hold the same values, and a copy holds the values of the original.
\<close>

theorem iteration_correct:
  assumes "lim \<le> 2 ^ 62" and "table_ok lim t" and "table_ok lim t'"
  shows "\<exists>vs. values_in t = Inr vs \<and> set vs = members t \<and> distinct vs \<and>
    set_eq t t' = Inr (members t = members t') \<and>
    (case copy_set lim t of
       Inl e \<Rightarrow> e = Throws_Bad_Alloc
     | Inr c \<Rightarrow> table_ok lim c \<and> set_eq c t = Inr True)"
proof -
  have "case copy_set lim t of
       Inl e \<Rightarrow> e = Throws_Bad_Alloc
     | Inr c \<Rightarrow> table_ok lim c \<and> set_eq c t = Inr True"
    using copy_spec [OF assms(1,2)] set_eq_spec [OF _ assms(2)] by (auto split: sum.splits)
  with values_in_spec [OF assms(2)] set_eq_spec [OF assms(2,3)] show ?thesis by blast
qed

theorem iteration_correct_witness:
  "\<exists>t. values_in t = Inr [5] \<and> set_eq t empty_set_table = Inr False"
proof -
  obtain t where t: "table_ok 100 t" "members t = {5}"
    by (rule one_element_table)
  have "table_ok 100 empty_set_table" by (simp add: table_ok_def)
  from iteration_correct [OF _ t(1) this] obtain vs where "values_in t = Inr vs" "set vs = {5}" "distinct vs"
    "set_eq t empty_set_table = Inr False"
    using t(2) by auto
  moreover from this have "vs = [5]"
    by (cases vs; cases "tl vs") auto
  ultimately show ?thesis by blast
qed

end
