(* ===== verification/Flat_Hash_Ranges.thy ===== *)
theory Flat_Hash_Ranges
  imports Flat_Hash_Ops
begin

text \<open>
  The remaining operations of \<open>sherwood_v3_table\<close>: erasing a range, which moves the values behind it
  back by as many positions as they are displaced, and moving tables.
\<close>

section \<open>Erasing a range\<close>

text \<open>The first loop of \<open>erase(begin, end)\<close>: entries and \<open>num_elements\<close>.\<close>

function destroy_range :: "sherwood_v3_entry list \<Rightarrow> nat \<Rightarrow> nat \<Rightarrow> nat \<Rightarrow> (sherwood_v3_entry list \<times> nat) res" where
  "destroy_range es n it fin =
     (if it = fin then Inr (es, n)
      else rbind (at es it) (\<lambda>e.
        if has_value e then destroy_range (es[it := destroy_value e]) (n - 1) (Suc it) fin
        else destroy_range es n (Suc it) fin))"
  by pat_completeness auto
termination
  by (relation "measure (\<lambda>(es, n, it, fin). length es - it)") (auto simp: at_Inr_iff)

declare destroy_range.simps [simp del]

text \<open>The second loop: the entry at \<open>it\<close> moves back by \<open>num_to_move\<close> positions.\<close>

function move_back :: "sherwood_v3_entry list \<Rightarrow> nat \<Rightarrow> int \<Rightarrow> sherwood_v3_entry list res" where
  "move_back es it num_to_move =
     rbind (at es it) (\<lambda>e.
       if is_at_desired_position e then Inr es
       else rbind (check Out_Of_Bounds (num_to_move \<le> int it)) (\<lambda>_. rbind (value_of e) (\<lambda>v.
         let target = nat (int it - num_to_move);
             es = (es[target := emplaced (nat (distance_from_desired e - num_to_move)) v])[it := destroy_value e]
         in rbind (at es (Suc it)) (\<lambda>e.
              move_back es (Suc it) (min (distance_from_desired e) num_to_move)))))"
  by pat_completeness auto
termination
  by (relation "measure (\<lambda>(es, it, m). length es - it)") (auto simp: at_Inr_iff Let_def)

declare move_back.simps [simp del]

definition erase_range :: "flat_hash_set \<Rightarrow> nat \<Rightarrow> nat \<Rightarrow> (nat \<times> flat_hash_set) res" where
  "erase_range t begin_it end_it =
     (if begin_it = end_it then Inr (begin_it, t)
      else rbind (destroy_range (entries t) (num_elements t) begin_it end_it) (\<lambda>(es, n).
        let t = t\<lparr>entries := es, num_elements := n\<rparr> in
        if end_it = end_pos t then Inr (end_pos t, t)
        else rbind (at es end_it) (\<lambda>e.
          let num_to_move = min (distance_from_desired e) (int end_it - int begin_it) in
          rbind (move_back es end_it num_to_move) (\<lambda>es.
            Inr (nat (int end_it - num_to_move), t\<lparr>entries := es\<rparr>)))))"

text \<open>\<open>equal_range\<close>.\<close>

definition equal_range :: "flat_hash_set \<Rightarrow> 64 word \<Rightarrow> (nat \<times> nat) res" where
  "equal_range t key =
     rbind (find_pos t key) (\<lambda>found.
       if found = end_pos t then Inr (found, found) else rbind (next_pos t found) (\<lambda>p. Inr (found, p)))"

section \<open>A table with a wide gap\<close>

text \<open>
  The \<open>g\<close> entries before position \<open>it\<close> are empty, and the value at \<open>it\<close> may be as far from its
  desired position as if they were not.
\<close>

definition wide_gap :: "nat \<Rightarrow> nat \<Rightarrow> nat \<Rightarrow> sherwood_v3_entry list \<Rightarrow> nat \<Rightarrow> nat \<Rightarrow> bool" where
  "wide_gap sh sl ml es it g \<longleftrightarrow>
     0 < ml \<and> length es = sl + ml \<and> (\<forall>v. index_for_hash sh v < sl) \<and>
     distance_from_desired (es ! (sl + ml - 1)) = 0 \<and>
     0 < g \<and> g \<le> it \<and> it < length es \<and>
     (\<forall>i. it - g \<le> i \<longrightarrow> i < it \<longrightarrow> distance_from_desired (es ! i) = -1) \<and>
     (\<forall>i. Suc i < length es \<longrightarrow> slot_ok sh ml i (es ! i)) \<and>
     (\<forall>i. Suc (Suc i) < length es \<longrightarrow> Suc i \<noteq> it \<longrightarrow>
        distance_from_desired (es ! Suc i) \<le> distance_from_desired (es ! i) + 1) \<and>
     (Suc it < length es \<longrightarrow> g < it \<longrightarrow>
        distance_from_desired (es ! it) \<le> distance_from_desired (es ! (it - g - 1)) + 1 + int g) \<and>
     (\<forall>i j v. holds es i v \<longrightarrow> holds es j v \<longrightarrow> i = j)"

lemma slot_low: "slot_ok sh ml i e \<Longrightarrow> distance_from_desired e \<ge> -1"
  by (auto simp: slot_ok_def)

lemma wide_gap_low: "wide_gap sh sl ml es it g \<Longrightarrow> Suc i < length es \<Longrightarrow> distance_from_desired (es ! i) \<ge> -1"
  unfolding wide_gap_def by (blast intro: slot_low)

lemma wide_gap_closed:
  assumes g: "wide_gap sh sl ml es it g" and "is_at_desired_position (es ! it)"
  shows "laid_out sh sl ml es"
proof -
  have "distance_from_desired (es ! Suc i) \<le> distance_from_desired (es ! i) + 1"
    if "Suc (Suc i) < length es" for i
    using assms that wide_gap_low [OF g, of i]
    by (cases "Suc i = it") (auto simp: wide_gap_def is_at_desired_position_def)
  then show ?thesis using g by (auto simp: wide_gap_def laid_out_def)
qed

lemma wide_gap_moves:
  assumes w: "wide_gap sh sl ml es it g" and far: "\<not> is_at_desired_position (es ! it)"
  obtains d v m where "es ! it = emplaced d v" "0 < m" "m \<le> it" "int m = min (int d) (int g)" "m \<le> d"
    "wide_gap sh sl ml ((es[it - m := emplaced (d - m) v])[it := vacant]) (Suc it) m"
    "elements ((es[it - m := emplaced (d - m) v])[it := vacant]) = elements es"
    "Suc (Suc it) \<le> length es"
proof -
  have len: "length es = sl + ml" "it < length es" "0 < g" "g \<le> it"
    and last: "distance_from_desired (es ! (sl + ml - 1)) = 0"
    and gap: "\<And>i. it - g \<le> i \<Longrightarrow> i < it \<Longrightarrow> distance_from_desired (es ! i) = -1"
    using w by (auto simp: wide_gap_def)
  have "it \<noteq> sl + ml - 1" using far last by (auto simp: is_at_desired_position_def)
  then have it: "Suc it < length es" using len by linarith
  have "slot_ok sh ml it (es ! it)" using w it by (simp add: wide_gap_def)
  then obtain d v where e: "es ! it = emplaced d v" "d < ml" "it = index_for_hash sh v + d" "0 < d"
    using far by (auto simp: slot_ok_def is_at_desired_position_def)
  define m where "m = min d g"
  have m: "0 < m" "m \<le> d" "m \<le> g" "m \<le> it" using e(4) len by (auto simp: m_def)
  let ?p = "it - m" and ?es = "(es[it - m := emplaced (d - m) v])[it := vacant]"
  have p: "?p < it" "it - g \<le> ?p" using m by auto
  have held: "holds ?es i w \<longleftrightarrow> (if i = ?p then w = v else i \<noteq> it \<and> holds es i w)" for i w
    using it p by (auto simp: holds_def nth_list_update)
  have hv: "holds es it w \<longleftrightarrow> w = v" "\<not> holds es ?p w" for w
    using e(1) it gap [OF p(2,1)] by (auto simp: holds_def has_value_def)
  have unique: "i = j" if "holds ?es i w" "holds ?es j w" for i j w
  proof -
    have "i' = j'" if "holds es i' w'" "holds es j' w'" for i' j' w'
      using w that unfolding wide_gap_def by blast
    from this [of i w j] this [of it w] show ?thesis
      using that hv(1) unfolding held by (metis (full_types))
  qed
  have nth: "?es ! i = (if i = it then vacant else if i = ?p then emplaced (d - m) v else es ! i)" if "i < length es" for i
    using that it p by (simp add: nth_list_update)
  have before: "int (d - m) \<le> distance_from_desired (es ! (?p - 1)) + 1" if "0 < ?p"
  proof (cases "m = g")
    case True
    then have "int d \<le> distance_from_desired (es ! (?p - 1)) + 1 + int g"
      using w e(1) it that by (auto simp: wide_gap_def)
    then show ?thesis using True m(2) by linarith
  next
    case False
    then have "m = d" by (auto simp: m_def)
    moreover have "Suc (?p - 1) < length es" using it p that by linarith
    ultimately show ?thesis using wide_gap_low [OF w, of "?p - 1"] by simp
  qed
  have mono: "distance_from_desired (?es ! Suc i) \<le> distance_from_desired (?es ! i) + 1"
    if i: "Suc (Suc i) < length es" "i \<noteq> it" for i
  proof -
    have lt: "i < length es" "Suc i < length es" using i by auto
    consider "Suc i = ?p" | "i = ?p" | "Suc i = it" "i \<noteq> ?p" | "i \<noteq> ?p" "Suc i \<noteq> ?p" "Suc i \<noteq> it" by blast
    then show ?thesis
    proof cases
      case 1
      then have "?p - 1 = i" "0 < ?p" by auto
      then show ?thesis using before 1 i p unfolding nth [OF lt(1)] nth [OF lt(2)] by auto
    next
      case 2
      then have "Suc i \<le> it" using p by simp
      then have "Suc i = it \<or> distance_from_desired (es ! Suc i) = -1"
        by (cases "Suc i = it") (use gap [of "Suc i"] 2 p in auto)
      then show ?thesis using 2 i p unfolding nth [OF lt(1)] nth [OF lt(2)] by auto
    next
      case 3
      then show ?thesis using wide_gap_low [OF w, of i] i unfolding nth [OF lt(1)] nth [OF lt(2)] by auto
    next
      case 4
      then show ?thesis using w i unfolding nth [OF lt(1)] nth [OF lt(2)] by (auto simp: wide_gap_def)
    qed
  qed
  have far_next: "distance_from_desired (?es ! Suc it) \<le> distance_from_desired (?es ! (Suc it - m - 1)) + 1 + int m"
    if "Suc (Suc it) < length es"
  proof -
    have "distance_from_desired (es ! Suc it) \<le> distance_from_desired (es ! it) + 1"
      using w that by (auto simp: wide_gap_def)
    moreover have "Suc it - m - 1 = ?p" by simp
    ultimately show ?thesis using e(1) m(2) p it nth [of "Suc it"] nth [of ?p] by simp
  qed
  have slot: "slot_ok sh ml i (?es ! i)" if "Suc i < length es" for i
  proof -
    have "slot_ok sh ml ?p (emplaced (d - m) v)"
      unfolding slot_ok_def using e(2,3) m by (intro disjI2 exI [of _ "d - m"] exI [of _ v]) simp
    moreover have "slot_ok sh ml i (es ! i)" and i: "i < length es" using w that by (simp_all add: wide_gap_def)
    ultimately show ?thesis unfolding nth [OF i] by simp
  qed
  have vac: "distance_from_desired (?es ! i) = -1" if "Suc it - m \<le> i" "i < Suc it" for i
    using that nth [of i] gap [of i] it m p by (cases "i = it") auto
  have "?es ! (sl + ml - 1) = es ! (sl + ml - 1)" using nth [of "sl + ml - 1"] it len p by auto
  then have "distance_from_desired (?es ! (sl + ml - 1)) = 0" using last by simp
  moreover have "0 < ml" "\<forall>v. index_for_hash sh v < sl" "length ?es = sl + ml" "m \<le> Suc it" "Suc it < length ?es"
    using w it m by (simp_all add: wide_gap_def)
  moreover have "\<forall>i. Suc i < length ?es \<longrightarrow> slot_ok sh ml i (?es ! i)"
    "\<forall>i. Suc (Suc i) < length ?es \<longrightarrow> Suc i \<noteq> Suc it \<longrightarrow>
       distance_from_desired (?es ! Suc i) \<le> distance_from_desired (?es ! i) + 1"
    "Suc (Suc it) < length ?es \<longrightarrow>
       distance_from_desired (?es ! Suc it) \<le> distance_from_desired (?es ! (Suc it - m - 1)) + 1 + int m"
    using slot mono far_next by simp_all
  ultimately have "wide_gap sh sl ml ?es (Suc it) m"
    unfolding wide_gap_def using m(1) vac unique by blast
  moreover have "elements ?es = elements es"
  proof -
    have "x \<in> elements ?es \<longleftrightarrow> x = v \<or> (\<exists>i. i \<noteq> ?p \<and> i \<noteq> it \<and> holds es i x)" for x
      unfolding elements_def mem_Collect_eq held by metis
    moreover have "x \<in> elements es \<longleftrightarrow> x = v \<or> (\<exists>i. i \<noteq> ?p \<and> i \<noteq> it \<and> holds es i x)" for x
      unfolding elements_def mem_Collect_eq using hv by metis
    ultimately show ?thesis by blast
  qed
  ultimately show ?thesis using that [of d v m] e(1) m it by (simp add: m_def)
qed

lemma move_back_spec:
  "wide_gap sh sl ml es it g \<Longrightarrow> m = min (distance_from_desired (es ! it)) (int g) \<Longrightarrow>
   \<exists>es'. move_back es it m = Inr es' \<and> laid_out sh sl ml es' \<and> elements es' = elements es \<and>
     take (nat (int it - m)) es' = take (nat (int it - m)) es \<and>
     (\<forall>x. holds es it x \<longrightarrow> holds es' (nat (int it - m)) x)"
proof (induction es it m arbitrary: g rule: move_back.induct)
  case (1 es it m)
  have at: "at es it = Inr (es ! it)" using "1.prems" by (simp add: wide_gap_def)
  show ?case
  proof (cases "is_at_desired_position (es ! it)")
    case True
    moreover have "m = 0" if "holds es it x" for x
      using that True "1.prems" by (auto simp: holds_def has_value_def is_at_desired_position_def wide_gap_def)
    ultimately show ?thesis
      using at wide_gap_closed [OF "1.prems"(1)] by (auto simp: move_back.simps [of es it])
  next
    case False
    obtain d v n where d: "es ! it = emplaced d v" "0 < n" "n \<le> it" "int n = min (int d) (int g)" "n \<le> d"
      "wide_gap sh sl ml ((es[it - n := emplaced (d - n) v])[it := vacant]) (Suc it) n"
      "elements ((es[it - n := emplaced (d - n) v])[it := vacant]) = elements es"
      "Suc (Suc it) \<le> length es"
      by (rule wide_gap_moves [OF "1.prems"(1) False])
    let ?es = "(es[it - n := emplaced (d - n) v])[it := vacant]"
    have m: "m = int n" using "1.prems"(2) d(1,4) by simp
    have target: "nat (int it - m) = it - n" "nat (distance_from_desired (es ! it) - m) = d - n"
      using d(1) m by (simp_all add: nat_diff_distrib)
    have at': "at ?es (Suc it) = Inr (?es ! Suc it)" using d(8) by simp
    have raw: "at (es[nat (int it - m) := emplaced (nat (distance_from_desired (es ! it) - m)) v,
        it := destroy_value (es ! it)]) (Suc it) = Inr (?es ! Suc it)"
      using at' target by (simp add: destroy_value_def)
    let ?m = "min (distance_from_desired (?es ! Suc it)) m"
    have ch: "check Out_Of_Bounds (m \<le> int it) = Inr ()" using d(3) m by simp
    have v: "value_of (es ! it) = Inr v" using d(1) by simp
    have step: "move_back es it m = move_back ?es (Suc it) ?m"
      using False at at' v ch target by (simp add: move_back.simps [of es it m] Let_def destroy_value_def)
    have "\<exists>es'. move_back ?es (Suc it) ?m = Inr es' \<and> laid_out sh sl ml es' \<and>
        elements es' = elements ?es \<and> take (nat (int (Suc it) - ?m)) es' = take (nat (int (Suc it) - ?m)) ?es"
      using "1.IH" [OF at False ch v refl refl raw, of n] d(6) m
      unfolding target by (simp add: destroy_value_def) blast
    then obtain es' where es': "move_back ?es (Suc it) ?m = Inr es'" "laid_out sh sl ml es'"
      "elements es' = elements ?es" "take (nat (int (Suc it) - ?m)) es' = take (nat (int (Suc it) - ?m)) ?es" by blast
    have "it - n \<le> nat (int (Suc it) - ?m)" using m by linarith
    then have "take (it - n) es' = take (it - n) ?es"
      using arg_cong [OF es'(4), of "take (it - n)"] by (simp add: min_absorb1)
    also have "\<dots> = take (it - n) es" by simp
    finally have "take (it - n) es' = take (it - n) es" .
    moreover have "es' ! (it - n) = emplaced (d - n) v"
    proof -
      have "it - n < nat (int (Suc it) - ?m)" using m d(3) by linarith
      then have "es' ! (it - n) = ?es ! (it - n)"
        using arg_cong [OF es'(4), of "\<lambda>l. l ! (it - n)"] by simp
      then show ?thesis using d(2,3,8) by (simp add: nth_list_update)
    qed
    moreover have "length es' = length es" using es'(2) "1.prems"(1) by (simp add: laid_out_def wide_gap_def)
    moreover have "x = v" if "holds es it x" for x using that d(1) by (simp add: holds_def)
    ultimately show ?thesis using es' step d(7,8) target by (auto simp: holds_def)
  qed
qed

text \<open>The first loop keeps the count of the elements.\<close>

lemma destroy_range_spec:
  "it \<le> fin \<Longrightarrow> fin < length es \<Longrightarrow> \<forall>i. Suc i < length es \<longrightarrow> slot_ok sh ml i (es ! i) \<Longrightarrow>
   \<forall>i j v. holds es i v \<longrightarrow> holds es j v \<longrightarrow> i = j \<Longrightarrow> n = card (elements es) \<Longrightarrow>
   \<exists>es'. destroy_range es n it fin = Inr (es', card (elements es')) \<and> length es' = length es \<and>
     (\<forall>i<length es. if it \<le> i \<and> i < fin then distance_from_desired (es' ! i) = -1 else es' ! i = es ! i)"
proof (induction es n it fin rule: destroy_range.induct)
  case (1 es n it fin)
  show ?case
  proof (cases "it = fin")
    case True
    then have "destroy_range es n it fin = Inr (es, n)" using destroy_range.simps [of es n it fin] by simp
    then show ?thesis using "1.prems"(5) True by auto
  next
    case False
    then have it: "Suc it < length es" "Suc it \<le> fin" using "1.prems" by auto
    then have at: "at es it = Inr (es ! it)" by simp
    have slot: "slot_ok sh ml it (es ! it)" using "1.prems"(3) it by simp
    show ?thesis
    proof (cases "has_value (es ! it)")
      case True
      let ?es = "es[it := vacant]"
      obtain d v where v: "es ! it = emplaced d v" using slot True by (auto simp: slot_ok_def has_value_def)
      then have h: "holds es it v" using it by (simp add: holds_def)
      note held = holds_vacate [OF it(1)]
      have "elements ?es = elements es - {v}"
      proof -
        have "x \<in> elements ?es \<longleftrightarrow> x \<in> elements es \<and> x \<noteq> v" for x
          unfolding elements_def mem_Collect_eq held using "1.prems"(4) h by (metis holds_def option.inject)
        then show ?thesis by blast
      qed
      moreover have "v \<in> elements es" using h by (auto simp: elements_def)
      ultimately have "n - 1 = card (elements ?es)" using "1.prems"(5) by (simp add: card_Diff_singleton)
      moreover have "\<forall>i. Suc i < length ?es \<longrightarrow> slot_ok sh ml i (?es ! i)"
        using "1.prems"(3) it(1) by (simp add: nth_list_update)
      moreover have "\<forall>i j v. holds ?es i v \<longrightarrow> holds ?es j v \<longrightarrow> i = j"
        unfolding held using "1.prems"(4) by blast
      ultimately obtain es' where es': "destroy_range ?es (n - 1) (Suc it) fin = Inr (es', card (elements es'))"
        "length es' = length es"
        "\<forall>i<length es. if Suc it \<le> i \<and> i < fin then distance_from_desired (es' ! i) = -1 else es' ! i = ?es ! i"
        using "1.IH"(1) [OF False at True] it "1.prems"(2) by (auto simp: destroy_value_def)
      moreover have "destroy_range es n it fin = destroy_range ?es (n - 1) (Suc it) fin"
        using False at True by (simp add: destroy_range.simps [of es n it fin] destroy_value_def)
      moreover have "if it \<le> i \<and> i < fin then distance_from_desired (es' ! i) = -1 else es' ! i = es ! i"
        if "i < length es" for i
        using es'(3) [rule_format, OF that] it that by (cases "i = it") (auto simp: nth_list_update split: if_splits)
      ultimately show ?thesis by auto
    next
      case empty: False
      then have e: "distance_from_desired (es ! it) = -1" using slot by (auto simp: slot_ok_def)
      obtain es' where es': "destroy_range es n (Suc it) fin = Inr (es', card (elements es'))"
        "length es' = length es"
        "\<forall>i<length es. if Suc it \<le> i \<and> i < fin then distance_from_desired (es' ! i) = -1 else es' ! i = es ! i"
        using "1.IH"(2) [OF False at empty] it "1.prems" by auto
      moreover have "destroy_range es n it fin = destroy_range es n (Suc it) fin"
        using False at empty by (simp add: destroy_range.simps [of es n it fin])
      moreover have "if it \<le> i \<and> i < fin then distance_from_desired (es' ! i) = -1 else es' ! i = es ! i"
        if "i < length es" for i
        using es'(3) [rule_format, OF that] it e that by (cases "i = it") (auto split: if_splits)
      ultimately show ?thesis by auto
    qed
  qed
qed

text \<open>An iterator: \<open>end()\<close> or the position of a value.\<close>

definition iterator_ok :: "flat_hash_set \<Rightarrow> nat \<Rightarrow> bool" where
  "iterator_ok t p \<longleftrightarrow> p = end_pos t \<or> (\<exists>v. holds (entries t) p v)"

definition values_between :: "flat_hash_set \<Rightarrow> nat \<Rightarrow> nat \<Rightarrow> 64 word set" where
  "values_between t p q = {v. \<exists>i. p \<le> i \<and> i < q \<and> holds (entries t) i v}"

lemma erase_range_spec:
  assumes s: "sized lim k t" and b: "b \<le> e" and e: "iterator_ok t e"
  shows "\<exists>p t'. erase_range t b e = Inr (p, t') \<and> sized lim k t' \<and>
    members t' = members t - values_between t b e \<and>
    (if e = end_pos t then p = (if b = e then e else end_pos t') else \<forall>v. holds (entries t) e v \<longrightarrow> holds (entries t') p v)"
proof (cases "b = e")
  case True
  then show ?thesis using s by (auto simp: erase_range_def values_between_def)
next
  case False
  note l = sized_laid_out [OF s]
  have len: "length (entries t) = slots t + max_lookups t" "0 < max_lookups t"
    and dist: "distance_from_desired (entries t ! (slots t + max_lookups t - 1)) = 0"
    and uniq: "\<forall>i j v. holds (entries t) i v \<longrightarrow> holds (entries t) j v \<longrightarrow> i = j"
    and slot: "\<forall>i. Suc i < length (entries t) \<longrightarrow> slot_ok (shift t) (max_lookups t) i (entries t ! i)"
    using l by (auto simp: laid_out_def)
  have el: "e < length (entries t)" using e len by (auto simp: iterator_ok_def end_pos_def holds_def)
  have n: "num_elements t = card (members t)" using s by (simp add: sized_def)
  obtain es where es: "destroy_range (entries t) (num_elements t) b e = Inr (es, card (elements es))"
    "length es = length (entries t)"
    "\<forall>i<length (entries t). if b \<le> i \<and> i < e then distance_from_desired (es ! i) = -1 else es ! i = entries t ! i"
    using destroy_range_spec [OF b el slot uniq n] by blast
  have nth: "es ! i = entries t ! i" if "i < length (entries t)" "\<not> (b \<le> i \<and> i < e)" for i
    using es(3) [rule_format, OF that(1)] that(2) by (simp split: if_splits)
  have held: "holds es i v \<longleftrightarrow> \<not> (b \<le> i \<and> i < e) \<and> holds (entries t) i v" for i v
  proof (cases "i < length (entries t)")
    case True
    then show ?thesis using es(2) es(3) [rule_format, OF True] by (auto simp: holds_def has_value_def split: if_splits)
  qed (simp add: holds_def es(2))
  have els: "elements es = members t - values_between t b e"
    using uniq by (auto simp: elements_def values_between_def held)
  have slot': "\<forall>i. Suc i < length es \<longrightarrow> slot_ok (shift t) (max_lookups t) i (es ! i)"
  proof (intro allI impI)
    fix i assume "Suc i < length es"
    then have i: "Suc i < length (entries t)" "i < length (entries t)" using es(2) by simp_all
    show "slot_ok (shift t) (max_lookups t) i (es ! i)"
      using slot [rule_format, OF i(1)] es(3) [rule_format, OF i(2)] by (simp add: slot_ok_def split: if_splits)
  qed
  have last': "distance_from_desired (es ! (slots t + max_lookups t - 1)) = 0"
    using nth [of "slots t + max_lookups t - 1"] dist len el by auto
  have mono: "distance_from_desired (es ! Suc i) \<le> distance_from_desired (es ! i) + 1"
    if i: "Suc (Suc i) < length es" "Suc i \<noteq> e" for i
  proof (cases "b \<le> Suc i \<and> Suc i < e")
    case True
    then have "distance_from_desired (es ! Suc i) = -1" using es(2,3) i by auto
    moreover have "distance_from_desired (es ! i) \<ge> -1" using slot_low slot' i by (meson Suc_lessD)
    ultimately show ?thesis by simp
  next
    case False
    then have "\<not> (b \<le> i \<and> i < e)" using i(2) by auto
    moreover have "distance_from_desired (entries t ! Suc i) \<le> distance_from_desired (entries t ! i) + 1"
      using l i(1) es(2) by (auto simp: laid_out_def)
    ultimately show ?thesis using nth [of i] nth [of "Suc i"] i es(2) False by simp
  qed
  have fewer: "card (elements es) \<le> num_elements t"
    unfolding n els by (rule card_mono [OF elements_finite]) auto
  have kept: "sized lim k (t\<lparr>entries := es', num_elements := card (elements es)\<rparr>)"
    if "laid_out (shift t) (slots t) (max_lookups t) es'" "elements es' = elements es" for es'
    using that s fewer by (simp add: sized_def)
  show ?thesis
  proof (cases "e = end_pos t")
    case True
    have "laid_out (shift t) (slots t) (max_lookups t) es"
      unfolding laid_out_def using l es(2) last' slot' mono True held uniq
      by (auto simp: laid_out_def end_pos_def)
    then show ?thesis
      using kept els es(1) False True by (simp add: erase_range_def end_pos_def)
  next
    case inside: False
    then obtain v where v: "holds (entries t) e v" using e by (auto simp: iterator_ok_def)
    let ?g = "e - b"
    have e_at: "es ! e = entries t ! e" "Suc e < length (entries t)"
      using nth [OF el] v by (auto simp: holds_def)
    have far: "distance_from_desired (es ! e) \<le> distance_from_desired (es ! (e - ?g - 1)) + 1 + int ?g" if "?g < e"
    proof -
      have "e - ?g - 1 = b - 1" "b - 1 < e" "0 < b" using that b by auto
      moreover from this have "es ! (b - 1) = entries t ! (b - 1)" using el by (intro nth) auto
      moreover have "distance_from_desired (entries t ! e) \<le> distance_from_desired (entries t ! (b - 1)) + int (e - (b - 1))"
        using robin_hood [OF l, of "b - 1" e] e_at(2) \<open>b - 1 < e\<close> by simp
      ultimately show ?thesis using e_at(1) b by (simp add: of_nat_diff)
    qed
    have "wide_gap (shift t) (slots t) (max_lookups t) es e ?g"
    proof -
      have "\<forall>i. e - ?g \<le> i \<longrightarrow> i < e \<longrightarrow> distance_from_desired (es ! i) = -1" using es(3) el b by auto
      moreover have "0 < ?g" "?g \<le> e" "e < length es" "length es = slots t + max_lookups t"
        using b False el es(2) len by auto
      moreover have "\<forall>i j v. holds es i v \<longrightarrow> holds es j v \<longrightarrow> i = j" unfolding held using uniq by blast
      moreover have "\<forall>v. index_for_hash (shift t) v < slots t" using l by (simp add: laid_out_def)
      ultimately show ?thesis
        unfolding wide_gap_def using len(2) last' slot' mono far by blast
    qed
    then obtain es' where es': "move_back es e (min (distance_from_desired (es ! e)) (int ?g)) = Inr es'"
      "laid_out (shift t) (slots t) (max_lookups t) es'" "elements es' = elements es"
      "\<forall>x. holds es e x \<longrightarrow> holds es' (nat (int e - min (distance_from_desired (es ! e)) (int ?g))) x"
      using move_back_spec by blast
    have "erase_range t b e = Inr (nat (int e - min (distance_from_desired (es ! e)) (int ?g)),
        t\<lparr>entries := es', num_elements := card (elements es)\<rparr>)"
      using False inside es(1,2) es'(1) el b by (simp add: erase_range_def Let_def end_pos_def of_nat_diff)
    then show ?thesis
      using kept [OF es'(2,3)] es'(3,4) els held inside by auto
  qed
qed

end
