(* ===== verification/Flat_Hash_Programs.thy ===== *)
theory Flat_Hash_Programs
  imports Flat_Hash_Ranges
begin

text \<open>
  Any program over two hash tables: whatever operations of the class it calls, in whatever order, the
  tables stay well formed and the only fault is a refused allocation, and what the tables hold is
  what sets would hold.
\<close>

section \<open>Moving tables\<close>

text \<open>The move constructor; the moved-from table is empty.\<close>

definition move_set :: "flat_hash_set \<Rightarrow> flat_hash_set \<times> flat_hash_set" where
  "move_set other = swap_pointers empty_set_table other"

text \<open>
  Move assignment between different tables; what the allocator says of its propagation and whether the
  two allocators are equal are parameters.
\<close>

definition move_assign ::
  "nat \<Rightarrow> bool \<Rightarrow> bool \<Rightarrow> flat_hash_set \<Rightarrow> flat_hash_set \<Rightarrow> (flat_hash_set \<times> flat_hash_set) res" where
  "move_assign lim propagates equal_allocs t other =
     (if propagates then Inr (swap_pointers (reset_to_empty_state (clear t)) other)
      else if equal_allocs then Inr (swap_pointers t other)
      else rbind (rehash_for_other_container lim (clear t) other) (\<lambda>t.
        rbind (values_in other) (\<lambda>vs. rbind (insert_range lim t vs) (\<lambda>t. Inr (t, clear other)))))"

section \<open>Any rehash\<close>

lemma swap_pointers_eq: "swap_pointers (t :: flat_hash_set) other = (other, t)"
  by (simp add: swap_pointers_def)

lemma reset_eq: "num_elements t = 0 \<Longrightarrow> reset_to_empty_state t = empty_set_table"
  by (simp add: reset_to_empty_state_def empty_set_table_def)

lemma no_members:
  assumes "table_ok lim t" and "num_elements t = 0"
  shows "members t = {}"
  using assms elements_finite [of "entries t"] size_members [OF assms(1)] by (simp add: size_of_def)

lemma rehash_any:
  assumes "lim \<le> 2 ^ 62" and t: "table_ok lim t" and "n \<le> 2 ^ 63"
  shows "case rehash lim (emplace lim) t n of
      Inl e \<Rightarrow> e = Throws_Bad_Alloc
    | Inr t' \<Rightarrow> table_ok lim t' \<and> members t' = members t"
proof -
  define nb where "nb = max n (2 * num_elements t)"
  have bound: "2 * num_elements t \<le> 2 ^ 63"
    using table_bounds(2,4) [OF t] assms(1) by simp
  show ?thesis
  proof (cases "nb = 0")
    case True
    then have "rehash lim (emplace lim) t n = Inr empty_set_table"
      using reset_eq [of t] by (simp add: rehash_def nb_def)
    moreover have "members t = {}" using no_members [OF t] True by (simp add: nb_def)
    ultimately show ?thesis by (simp add: table_ok_def)
  next
    case False
    then have "1 \<le> nb" "nb \<le> 2 ^ 63" using assms(3) bound by (auto simp: nb_def)
    then obtain k where k: "1 \<le> k" "k \<le> 63" "next_size_over nb = (2 ^ k, 64 - k)" "nb \<le> 2 ^ k"
      by (rule next_size_over_exp)
    define new where "new = t\<lparr>entries := replicate (2 ^ k + max 4 k - 1) vacant @ [special_end],
        num_slots_minus_one := 2 ^ k - 1, shift := 64 - k, max_lookups := max 4 k, num_elements := 0\<rparr>"
    let ?old = "take (num_slots_minus_one t + max_lookups t) (entries t)"
    have r: "rehash lim (emplace lim) t n =
        (if 2 ^ k = bucket_count t then Inr t
         else rbind (check Throws_Bad_Alloc (2 ^ k + max 4 k \<le> lim)) (\<lambda>_. reinsert (emplace lim) ?old new))"
      using k False by (simp add: rehash_def Let_def compute_max_lookups_exp new_def flip: nb_def)
    show ?thesis
    proof (cases "2 ^ k \<noteq> bucket_count t \<and> 2 ^ k + max 4 k \<le> lim")
      case True
      have em: "emplace_ok lim 64 (emplace lim)"
        unfolding emplace_def by (rule emplace_at_ok) (rule assms(1))
      have new: "sized lim k new" "members new = {}"
        using fresh_sized [of k lim new] k(1,2) True by (simp_all add: new_def)
      then have "table_ok lim new" by (auto simp: table_ok_def)
      moreover have "\<not> oom lim 64 (slots new) Stack_Overflow" using assms(1) by (simp add: oom_def)
      ultimately show ?thesis
        using reinsert_spec [OF em, of new ?old] table_values [OF t] new(2) members_moved_set [OF t] True
        by (auto simp: r oom_def split: sum.splits)
    qed (auto simp: r t)
  qed
qed

lemma clear_spec:
  assumes "table_ok lim t"
  shows "table_ok lim (clear t)" and "members (clear t) = {}"
proof -
  have "table_ok lim (clear t) \<and> members (clear t) = {}"
    using assms unfolding table_ok_def
  proof
    assume "t = empty_set_table"
    moreover have "clear empty_set_table = empty_set_table" by code_simp
    ultimately show "(clear t = empty_set_table \<or> (\<exists>k. sized lim k (clear t))) \<and> members (clear t) = {}"
      by simp
  next
    assume "\<exists>k. sized lim k t"
    then obtain k where s: "sized lim k t" by blast
    note l = sized_laid_out [OF s]
    let ?es = "entries t" and ?n = "num_slots_minus_one t + max_lookups t"
    have len: "length ?es = slots t + max_lookups t" using l by (simp add: laid_out_def)
    have nth: "entries (clear t) ! i = (if i < ?n \<and> has_value (?es ! i) then vacant else ?es ! i)"
      if "i < length ?es" for i
      using that len by (auto simp: clear_def nth_append Let_def min_def less_Suc_eq)
    have len': "length (entries (clear t)) = length ?es" by (simp add: clear_def Let_def)
    have no: "\<not> holds (entries (clear t)) i v" for i v
      using nth [of i] len by (auto simp: holds_def len')
    have low: "distance_from_desired (entries (clear t) ! i) = -1" if "Suc i < length ?es" for i
    proof -
      have "slot_ok (shift t) (max_lookups t) i (?es ! i)" using l that by (simp add: laid_out_def)
      then show ?thesis using nth [of i] that len by (auto simp: slot_ok_def has_value_def)
    qed
    have "entries (clear t) ! ?n = ?es ! ?n" using nth [of ?n] len by simp
    then have "laid_out (shift t) (slots t) (max_lookups t) (entries (clear t))"
      unfolding laid_out_def using l len' low no by (auto simp: laid_out_def slot_ok_def)
    moreover have m: "elements (entries (clear t)) = {}" using no by (simp add: elements_def)
    ultimately have "sized lim k (clear t)" using s by (simp add: sized_def clear_def Let_def)
    then show "(clear t = empty_set_table \<or> (\<exists>k. sized lim k (clear t))) \<and> members (clear t) = {}"
      using m by blast
  qed
  then show "table_ok lim (clear t)" "members (clear t) = {}" by simp_all
qed

lemma rehash_for_other:
  assumes "lim \<le> 2 ^ 62" and "table_ok lim t" and "table_ok lim other"
  shows "case rehash_for_other_container lim t other of
      Inl e \<Rightarrow> e = Throws_Bad_Alloc
    | Inr t' \<Rightarrow> table_ok lim t' \<and> members t' = members t"
  unfolding rehash_for_other_container_def
  by (rule rehash_any [OF assms(1,2)]) (use table_bounds(1) [OF assms(3)] assms(1) in simp)

text \<open>What copy assignment and the last case of move assignment share.\<close>

lemma refill_spec:
  assumes "lim \<le> 2 ^ 62" and "table_ok lim t" and "table_ok lim other"
  shows "case rbind (rehash_for_other_container lim (clear t) other) (\<lambda>t.
        rbind (values_in other) (insert_range lim t)) of
      Inl e \<Rightarrow> e = Throws_Bad_Alloc
    | Inr t' \<Rightarrow> table_ok lim t' \<and> members t' = members other"
proof -
  note c = clear_spec [OF assms(2)]
  obtain vs where vs: "values_in other = Inr vs" "set vs = members other" using values_in_spec [OF assms(3)] by blast
  show ?thesis
  proof (cases "rehash_for_other_container lim (clear t) other")
    case (Inl e)
    then show ?thesis using rehash_for_other [OF assms(1) c(1) assms(3)] by simp
  next
    case (Inr t1)
    then have "table_ok lim t1" "members t1 = {}"
      using rehash_for_other [OF assms(1) c(1) assms(3)] c(2) by simp_all
    then show ?thesis
      using insert_range_spec [OF assms(1), of t1 vs] vs Inr by (auto split: sum.splits)
  qed
qed

lemma move_assign_spec:
  assumes "lim \<le> 2 ^ 62" and "table_ok lim t" and "table_ok lim other"
  shows "case move_assign lim p q t other of
      Inl e \<Rightarrow> e = Throws_Bad_Alloc
    | Inr (t', other') \<Rightarrow> table_ok lim t' \<and> table_ok lim other' \<and> members t' = members other"
proof -
  have "table_ok lim empty_set_table" by (simp add: table_ok_def)
  moreover have "reset_to_empty_state (clear t) = empty_set_table"
    by (rule reset_eq) (simp add: clear_def Let_def)
  moreover note clear_spec [OF assms(3)]
  moreover have "move_assign lim False False t other =
      rbind (rbind (rehash_for_other_container lim (clear t) other) (\<lambda>t.
        rbind (values_in other) (insert_range lim t))) (\<lambda>t. Inr (t, clear other))"
    by (simp add: move_assign_def rbind_assoc)
  ultimately show ?thesis
    using refill_spec [OF assms] assms
    by (cases p; cases q)
       (auto simp: move_assign_def [of _ True] move_assign_def [of _ False True] swap_pointers_eq split: sum.splits)
qed

section \<open>Constructors\<close>

text \<open>With a number of buckets, from a range and from an initializer list.\<close>

definition new_table :: "nat \<Rightarrow> nat \<Rightarrow> flat_hash_set res" where
  "new_table lim num_buckets = rehash lim (emplace lim) empty_set_table num_buckets"

definition table_from_range :: "nat \<Rightarrow> 64 word list \<Rightarrow> nat \<Rightarrow> flat_hash_set res" where
  "table_from_range lim vs num_buckets = rbind (new_table lim num_buckets) (\<lambda>t. insert_range lim t vs)"

definition table_from_list :: "nat \<Rightarrow> 64 word list \<Rightarrow> nat \<Rightarrow> flat_hash_set res" where
  "table_from_list lim il num_buckets =
     rbind (new_table lim num_buckets) (\<lambda>t.
     rbind (if num_buckets = 0 then rehash lim (emplace lim) t (length il) else Inr t) (\<lambda>t.
       insert_range lim t il))"

lemma fill_spec:
  assumes "lim \<le> 2 ^ 62" and "case m of Inl e \<Rightarrow> e = Throws_Bad_Alloc | Inr t \<Rightarrow> table_ok lim t \<and> members t = {}"
  shows "case rbind m (\<lambda>t. insert_range lim t vs) of
      Inl e \<Rightarrow> e = Throws_Bad_Alloc | Inr t \<Rightarrow> table_ok lim t \<and> members t = set vs"
proof (cases m)
  case (Inr t)
  then show ?thesis using assms(2) insert_range_spec [OF assms(1), of t vs] by (simp split: sum.splits)
qed (use assms(2) in simp)

lemma new_table_spec:
  assumes "lim \<le> 2 ^ 62" and "n \<le> 2 ^ 63"
  shows "case new_table lim n of
      Inl e \<Rightarrow> e = Throws_Bad_Alloc | Inr t \<Rightarrow> table_ok lim t \<and> members t = {}"
  using rehash_any [OF assms(1) _ assms(2), of empty_set_table] unfolding new_table_def
  by (simp add: table_ok_def split: sum.splits)

lemma table_from_range_spec:
  assumes "lim \<le> 2 ^ 62" and "n \<le> 2 ^ 63"
  shows "case table_from_range lim vs n of
      Inl e \<Rightarrow> e = Throws_Bad_Alloc | Inr t \<Rightarrow> table_ok lim t \<and> members t = set vs"
  unfolding table_from_range_def by (rule fill_spec [OF assms(1) new_table_spec [OF assms]])

lemma table_from_list_spec:
  assumes "lim \<le> 2 ^ 62" and "n \<le> 2 ^ 63" and "length il \<le> 2 ^ 63"
  shows "case table_from_list lim il n of
      Inl e \<Rightarrow> e = Throws_Bad_Alloc | Inr t \<Rightarrow> table_ok lim t \<and> members t = set il"
proof (cases "new_table lim n")
  case (Inl e)
  then show ?thesis using new_table_spec [OF assms(1,2)] by (simp add: table_from_list_def)
next
  case (Inr t)
  then have t: "table_ok lim t" "members t = {}" using new_table_spec [OF assms(1,2)] by simp_all
  have "case (if n = 0 then rehash lim (emplace lim) t (length il) else Inr t) of
      Inl e \<Rightarrow> e = Throws_Bad_Alloc | Inr t' \<Rightarrow> table_ok lim t' \<and> members t' = {}"
    using rehash_any [OF assms(1) t(1) assms(3)] t by (simp split: sum.splits)
  from fill_spec [OF assms(1) this] show ?thesis using Inr by (simp add: table_from_list_def)
qed

section \<open>Programs\<close>

text \<open>
  The operations on the first of two tables; the last ones involve the second.  The ends of a range
  are the iterators \<open>begin()\<close>, \<open>find(key)\<close> and \<open>end()\<close>.
\<close>

datatype table_op =
    Insert "64 word"
  | Erase "64 word"
  | Erase_Before "64 word"
  | Erase_From "64 word"
  | Clear
  | Reserve nat
  | Rehash nat
  | Shrink_To_Fit
  | Swap
  | Copy_Assign
  | Move_Assign bool bool
  | Construct "64 word list" nat
  | Construct_List "64 word list" nat

fun perform :: "nat \<Rightarrow> table_op \<Rightarrow> flat_hash_set \<times> flat_hash_set \<Rightarrow> (flat_hash_set \<times> flat_hash_set) res" where
  "perform lim (Insert v) (t, u) = rbind (insert_key lim t v) (\<lambda>t. Inr (t, u))"
| "perform lim (Erase v) (t, u) = rbind (erase t v) (\<lambda>(_, t). Inr (t, u))"
| "perform lim (Erase_Before v) (t, u) =
     rbind (begin_pos t) (\<lambda>b. rbind (find_pos t v) (\<lambda>e. rbind (erase_range t b e) (\<lambda>(_, t). Inr (t, u))))"
| "perform lim (Erase_From v) (t, u) =
     rbind (find_pos t v) (\<lambda>b. rbind (erase_range t b (end_pos t)) (\<lambda>(_, t). Inr (t, u)))"
| "perform lim Clear (t, u) = Inr (clear t, u)"
| "perform lim (Reserve n) (t, u) = rbind (reserve lim t n) (\<lambda>t. Inr (t, u))"
| "perform lim (Rehash n) (t, u) = rbind (rehash lim (emplace lim) t n) (\<lambda>t. Inr (t, u))"
| "perform lim Shrink_To_Fit (t, u) = rbind (shrink_to_fit lim t) (\<lambda>t. Inr (t, u))"
| "perform lim Swap (t, u) = Inr (swap_pointers t u)"
| "perform lim Copy_Assign (t, u) = rbind (assign_set lim t u) (\<lambda>t. Inr (t, u))"
| "perform lim (Move_Assign p q) (t, u) = move_assign lim p q t u"
| "perform lim (Construct vs n) (t, u) = rbind (table_from_range lim vs n) (\<lambda>t. Inr (t, u))"
| "perform lim (Construct_List vs n) (t, u) = rbind (table_from_list lim vs n) (\<lambda>t. Inr (t, u))"

fun run_program :: "nat \<Rightarrow> table_op list \<Rightarrow> flat_hash_set \<times> flat_hash_set \<Rightarrow> (flat_hash_set \<times> flat_hash_set) res" where
  "run_program lim [] ts = Inr ts"
| "run_program lim (op # ops) ts = rbind (perform lim op ts) (run_program lim ops)"

text \<open>The requests whose number of buckets fits in 64 bits.\<close>

fun in_range :: "table_op \<Rightarrow> bool" where
  "in_range (Reserve n) \<longleftrightarrow> n \<le> 2 ^ 62"
| "in_range (Rehash n) \<longleftrightarrow> n \<le> 2 ^ 63"
| "in_range (Construct vs n) \<longleftrightarrow> n \<le> 2 ^ 63"
| "in_range (Construct_List vs n) \<longleftrightarrow> n \<le> 2 ^ 63 \<and> length vs \<le> 2 ^ 63"
| "in_range op \<longleftrightarrow> True"

definition tables_ok :: "nat \<Rightarrow> flat_hash_set \<times> flat_hash_set \<Rightarrow> bool" where
  "tables_ok lim ts \<longleftrightarrow> table_ok lim (fst ts) \<and> table_ok lim (snd ts)"

text \<open>What an operation does to the sets; a range takes the values on one side of a value.\<close>

fun effect :: "table_op \<Rightarrow> 64 word set \<times> 64 word set \<Rightarrow> 64 word set \<times> 64 word set \<Rightarrow> bool" where
  "effect (Insert v) (S, U) (S', U') \<longleftrightarrow> S' = insert v S \<and> U' = U"
| "effect (Erase v) (S, U) (S', U') \<longleftrightarrow> S' = S - {v} \<and> U' = U"
| "effect (Erase_Before v) (S, U) (S', U') \<longleftrightarrow> (if v \<in> S then v \<in> S' \<and> S' \<subseteq> S else S' = {}) \<and> U' = U"
| "effect (Erase_From v) (S, U) (S', U') \<longleftrightarrow> (if v \<in> S then S' \<subseteq> S - {v} else S' = S) \<and> U' = U"
| "effect Clear (S, U) (S', U') \<longleftrightarrow> S' = {} \<and> U' = U"
| "effect (Reserve n) (S, U) (S', U') \<longleftrightarrow> S' = S \<and> U' = U"
| "effect (Rehash n) (S, U) (S', U') \<longleftrightarrow> S' = S \<and> U' = U"
| "effect Shrink_To_Fit (S, U) (S', U') \<longleftrightarrow> S' = S \<and> U' = U"
| "effect Swap (S, U) (S', U') \<longleftrightarrow> S' = U \<and> U' = S"
| "effect Copy_Assign (S, U) (S', U') \<longleftrightarrow> S' = U \<and> U' = U"
| "effect (Move_Assign p q) (S, U) (S', U') \<longleftrightarrow> S' = U"
| "effect (Construct vs n) (S, U) (S', U') \<longleftrightarrow> S' = set vs \<and> U' = U"
| "effect (Construct_List vs n) (S, U) (S', U') \<longleftrightarrow> S' = set vs \<and> U' = U"

fun effects :: "table_op list \<Rightarrow> 64 word set \<times> 64 word set \<Rightarrow> 64 word set \<times> 64 word set \<Rightarrow> bool" where
  "effects [] X Z \<longleftrightarrow> Z = X"
| "effects (op # ops) X Z \<longleftrightarrow> (\<exists>Y. effect op X Y \<and> effects ops Y Z)"

definition sets_of :: "flat_hash_set \<times> flat_hash_set \<Rightarrow> 64 word set \<times> 64 word set" where
  "sets_of ts = (members (fst ts), members (snd ts))"

section \<open>The ranges of programs\<close>

lemma seek_value_spec:
  assumes "table_ok lim t" and "p \<le> end_pos t"
  shows "\<exists>q. seek_value (entries t) p = Inr q \<and> p \<le> q \<and> q \<le> end_pos t \<and>
    (\<forall>i v. holds (entries t) i v \<longrightarrow> p \<le> i \<longrightarrow> q \<le> i)"
  using assms(2)
proof (induction "end_pos t - p" arbitrary: p)
  case 0
  then have "p = end_pos t" by simp
  then show ?case
    using end_not_empty [OF assms(1)] seek_value.simps [of "entries t" "end_pos t"] by auto
next
  case (Suc n)
  have p: "p < length (entries t)" using Suc.prems end_not_empty [OF assms(1)] by simp
  show ?case
  proof (cases "is_empty (entries t ! p)")
    case True
    then have "\<not> holds (entries t) p v" for v by (simp add: holds_def has_value_not_empty)
    moreover have "seek_value (entries t) p = seek_value (entries t) (Suc p)"
      using p True by (simp add: seek_value.simps [of "entries t" p])
    moreover have "n = end_pos t - Suc p" "Suc p \<le> end_pos t" using Suc.hyps(2) by auto
    ultimately show ?thesis using Suc.hyps(1) [of "Suc p"] by (metis Suc_leD Suc_leI le_neq_implies_less)
  next
    case False
    then show ?thesis using p Suc.prems by (auto simp: seek_value.simps [of "entries t" p])
  qed
qed

lemma begin_pos_spec:
  assumes "table_ok lim t"
  shows "\<exists>b. begin_pos t = Inr b \<and> b \<le> end_pos t \<and> (\<forall>i v. holds (entries t) i v \<longrightarrow> b \<le> i)"
  using seek_value_spec [OF assms, of 0] by (simp add: begin_pos_def)

lemma holds_before_end: "table_ok lim t \<Longrightarrow> holds (entries t) i v \<Longrightarrow> i < end_pos t"
  using table_shape [of lim t] by (simp add: holds_def end_pos_def)

text \<open>\<open>equal_range\<close> is a range with the value, if it is there, and nothing else.\<close>

lemma equal_range_spec:
  assumes t: "table_ok lim t"
  shows "\<exists>p q. equal_range t v = Inr (p, q) \<and> p \<le> q \<and> values_between t p q = members t \<inter> {v}"
proof -
  obtain p where p: "find_pos t v = Inr p" "p = end_pos t \<longleftrightarrow> v \<notin> members t"
    "v \<in> members t \<longrightarrow> holds (entries t) p v"
    using find_pos_spec [OF t, of v] by blast
  show ?thesis
  proof (cases "v \<in> members t")
    case False
    then have "equal_range t v = Inr (p, p)" using p(1,2) by (simp add: equal_range_def)
    then show ?thesis using False by (intro exI [of _ p]) (simp add: values_between_def)
  next
    case True
    then have h: "holds (entries t) p v" using p(3) by simp
    then have "Suc p \<le> end_pos t" using holds_before_end [OF t] by fastforce
    from seek_value_spec [OF t this] obtain q where q: "seek_value (entries t) (Suc p) = Inr q" "Suc p \<le> q"
      "\<forall>i v. holds (entries t) i v \<longrightarrow> Suc p \<le> i \<longrightarrow> q \<le> i" by blast
    have "x = v" if x: "holds (entries t) i x" "p \<le> i" "i < q" for i x
    proof -
      have "i = p" using q(3) x by (meson le_antisym not_less not_less_eq_eq)
      then show ?thesis using x(1) h by (simp add: holds_def)
    qed
    moreover have "p < q" using q(2) by simp
    ultimately have "values_between t p q = {v}" using h unfolding values_between_def by blast
    moreover have "equal_range t v = Inr (p, q)" using p True q(1) by (simp add: equal_range_def next_pos_def)
    ultimately show ?thesis using True q(2) by (intro exI [of _ p] exI [of _ q]) simp
  qed
qed

lemma erase_range_ok:
  assumes "table_ok lim t" and "b \<le> e" and "iterator_ok t e" and "b < e \<Longrightarrow> t \<noteq> empty_set_table"
  shows "\<exists>p t'. erase_range t b e = Inr (p, t') \<and> table_ok lim t' \<and> members t' = members t - values_between t b e"
proof (cases "b = e")
  case True
  then show ?thesis using assms(1) by (auto simp: erase_range_def values_between_def)
next
  case False
  then obtain k where "sized lim k t" using assms by (auto simp: table_ok_def)
  from erase_range_spec [OF this assms(2,3)] show ?thesis by (auto simp: table_ok_def)
qed

lemma empty_begin: "begin_pos empty_set_table = Inr (end_pos empty_set_table)"
  by code_simp

lemma erase_before_spec:
  assumes t: "table_ok lim t"
  shows "\<exists>b e p t'. begin_pos t = Inr b \<and> find_pos t v = Inr e \<and> erase_range t b e = Inr (p, t') \<and>
    table_ok lim t' \<and> (if v \<in> members t then v \<in> members t' \<and> members t' \<subseteq> members t else members t' = {})"
proof -
  obtain b where b: "begin_pos t = Inr b" "b \<le> end_pos t" "\<forall>i v. holds (entries t) i v \<longrightarrow> b \<le> i"
    using begin_pos_spec [OF t] by blast
  obtain e where e: "find_pos t v = Inr e" "e = end_pos t \<longleftrightarrow> v \<notin> members t"
    "v \<in> members t \<longrightarrow> holds (entries t) e v"
    using find_pos_spec [OF t, of v] by blast
  have it: "b \<le> e" "iterator_ok t e" using b(2,3) e by (auto simp: iterator_ok_def)
  have "t \<noteq> empty_set_table" if "b < e"
    using b(1) e empty_begin that by auto
  then obtain p t' where r: "erase_range t b e = Inr (p, t')" "table_ok lim t'"
    "members t' = members t - values_between t b e"
    using erase_range_ok [OF t it] by blast
  have "v \<in> members t'" if "v \<in> members t"
  proof -
    have "i = e" if "holds (entries t) i v" for i
    proof -
      from t \<open>v \<in> members t\<close> obtain k where "sized lim k t" by (auto simp: table_ok_def)
      from sized_laid_out [OF this] show ?thesis
        using that e(3) \<open>v \<in> members t\<close> unfolding laid_out_def by blast
    qed
    then show ?thesis using that by (auto simp: r(3) values_between_def)
  qed
  moreover have "members t' = {}" if "v \<notin> members t"
  proof -
    have "x \<in> values_between t b e" if x: "x \<in> members t" for x
    proof -
      obtain i where "holds (entries t) i x" using x by (auto simp: elements_def)
      then show ?thesis
        using b(3) e(2) \<open>v \<notin> members t\<close> holds_before_end [OF t, of i x]
        unfolding values_between_def by blast
    qed
    then show ?thesis by (auto simp: r(3))
  qed
  moreover have "members t' \<subseteq> members t" by (auto simp: r(3))
  ultimately show ?thesis using b(1) e(1) r(1,2) by auto
qed

lemma erase_from_spec:
  assumes t: "table_ok lim t"
  shows "\<exists>b p t'. find_pos t v = Inr b \<and> erase_range t b (end_pos t) = Inr (p, t') \<and> table_ok lim t' \<and>
    (if v \<in> members t then members t' \<subseteq> members t - {v} else members t' = members t)"
proof -
  obtain b where b: "find_pos t v = Inr b" "b = end_pos t \<longleftrightarrow> v \<notin> members t"
    "v \<in> members t \<longrightarrow> holds (entries t) b v"
    using find_pos_spec [OF t, of v] by blast
  have lt: "b < end_pos t" if "v \<in> members t" using holds_before_end [OF t] b(3) that by blast
  then have "b \<le> end_pos t" "b < end_pos t \<Longrightarrow> t \<noteq> empty_set_table"
    using b(2) by (cases "v \<in> members t"; auto)+
  moreover have "iterator_ok t (end_pos t)" by (simp add: iterator_ok_def)
  ultimately obtain p t' where r: "erase_range t b (end_pos t) = Inr (p, t')" "table_ok lim t'"
    "members t' = members t - values_between t b (end_pos t)"
    using erase_range_ok [OF t] by blast
  have "v \<in> values_between t b (end_pos t)" if "v \<in> members t"
    using b(3) lt that by (auto simp: values_between_def)
  moreover have "values_between t b (end_pos t) = {}" if "v \<notin> members t"
    using b(2) that by (simp add: values_between_def)
  ultimately show ?thesis using b(1) r by auto
qed

section \<open>Programs are safe\<close>

lemma perform_spec:
  assumes lim: "lim \<le> 2 ^ 62" and ok: "tables_ok lim ts" and "in_range op"
  shows "case perform lim op ts of
      Inl e \<Rightarrow> e = Throws_Bad_Alloc
    | Inr ts' \<Rightarrow> tables_ok lim ts' \<and> effect op (sets_of ts) (sets_of ts')"
proof -
  obtain t u where ts: "ts = (t, u)" by (cases ts)
  with ok have t: "table_ok lim t" and u: "table_ok lim u" by (simp_all add: tables_ok_def)
  note defs = ts tables_ok_def sets_of_def
  show ?thesis
  proof (cases op)
    case (Insert v)
    note r = emplace_spec [OF lim t, of v]
    show ?thesis
    proof (cases "emplace lim t v")
      case (Inl e)
      with r show ?thesis by (simp add: Insert defs insert_key_def)
    next
      case (Inr x)
      with r u show ?thesis by (cases x) (simp add: Insert defs insert_key_def)
    qed
  next
    case (Erase v)
    obtain t' where "erase t v = Inr (if v \<in> members t then 1 else 0, t')" "table_ok lim t'" "members t' = members t - {v}"
      using erase_spec [OF t, of v] by blast
    with Erase u show ?thesis by (simp add: defs)
  next
    case (Erase_Before v)
    obtain b e p t' where "begin_pos t = Inr b" "find_pos t v = Inr e" "erase_range t b e = Inr (p, t')"
      "table_ok lim t'" "if v \<in> members t then v \<in> members t' \<and> members t' \<subseteq> members t else members t' = {}"
      using erase_before_spec [OF t, of v] by blast
    with Erase_Before u show ?thesis by (simp add: defs)
  next
    case (Erase_From v)
    obtain b p t' where "find_pos t v = Inr b" "erase_range t b (end_pos t) = Inr (p, t')"
      "table_ok lim t'" "if v \<in> members t then members t' \<subseteq> members t - {v} else members t' = members t"
      using erase_from_spec [OF t, of v] by blast
    with Erase_From u show ?thesis by (simp add: defs)
  next
    case Clear
    then show ?thesis using clear_spec [OF t] u by (simp add: defs)
  next
    case (Reserve n)
    then show ?thesis using reserve_spec [OF lim t, of n] assms(3) u by (auto simp: defs split: sum.splits)
  next
    case (Rehash n)
    then show ?thesis using rehash_any [OF lim t, of n] assms(3) u by (auto simp: defs split: sum.splits)
  next
    case Shrink_To_Fit
    then show ?thesis
      using rehash_for_other [OF lim t t] u by (auto simp: defs shrink_to_fit_def split: sum.splits)
  next
    case Swap
    then show ?thesis using t u by (simp add: defs swap_pointers_eq)
  next
    case Copy_Assign
    then show ?thesis using refill_spec [OF lim t u] u by (auto simp: defs assign_set_def split: sum.splits)
  next
    case (Move_Assign p q)
    then show ?thesis using move_assign_spec [OF lim t u, of p q] by (auto simp: defs split: sum.splits)
  next
    case (Construct vs n)
    then show ?thesis using table_from_range_spec [OF lim, of n vs] assms(3) u by (auto simp: defs split: sum.splits)
  next
    case (Construct_List vs n)
    then show ?thesis using table_from_list_spec [OF lim, of n vs] assms(3) u by (auto simp: defs split: sum.splits)
  qed
qed

lemma run_program_spec:
  assumes lim: "lim \<le> 2 ^ 62" and "tables_ok lim ts" and "\<forall>op\<in>set ops. in_range op"
  shows "case run_program lim ops ts of
      Inl e \<Rightarrow> e = Throws_Bad_Alloc
    | Inr ts' \<Rightarrow> tables_ok lim ts' \<and> effects ops (sets_of ts) (sets_of ts')"
  using assms(2,3)
proof (induction ops arbitrary: ts)
  case (Cons op ops)
  then have r: "case perform lim op ts of
      Inl e \<Rightarrow> e = Throws_Bad_Alloc
    | Inr ts' \<Rightarrow> tables_ok lim ts' \<and> effect op (sets_of ts) (sets_of ts')"
    by (intro perform_spec [OF lim]) simp_all
  show ?case
  proof (cases "perform lim op ts")
    case (Inr ts1)
    have "effects (op # ops) (sets_of ts) X" if "effects ops (sets_of ts1) X" for X
      unfolding effects.simps using r Inr that by (intro exI [of _ "sets_of ts1"]) simp
    with r Inr Cons.IH [of ts1] Cons.prems(2) show ?thesis
      by (cases "run_program lim ops ts1") (simp_all del: effects.simps)
  qed (use r in simp)
qed simp

section \<open>Properties\<close>

text \<open>
  (C16) Well-formedness of programs: whatever sequence of insertions, erasures of keys and ranges,
  reservations, rehashes, swaps, copies, moves and constructions a program performs on two well-formed tables, no
  operation reads an entry outside the table or without a value, the only fault is
  \<open>std::bad_alloc\<close>, the tables end well formed, and they hold what sets would hold.
\<close>

theorem table_programs_safe:
  assumes "lim \<le> 2 ^ 62" and "tables_ok lim ts" and "\<forall>op\<in>set ops. in_range op"
  shows "case run_program lim ops ts of
      Inl e \<Rightarrow> e = Throws_Bad_Alloc
    | Inr ts' \<Rightarrow> tables_ok lim ts' \<and> effects ops (sets_of ts) (sets_of ts')"
  using assms by (rule run_program_spec)

theorem table_programs_safe_witness:
  "\<exists>ts. run_program 100 [Insert 5, Erase_From 5, Swap] (empty_set_table, empty_set_table) = Inr ts \<and>
     tables_ok 100 ts \<and> sets_of ts = ({}, {})"
proof -
  let ?ops = "[Insert 5, Erase_From 5, Swap] :: table_op list"
  obtain t pos new where e: "emplace 100 empty_set_table 5 = Inr (t, pos, new)" using emplace_first by auto
  then have t: "table_ok 100 t" using emplace_spec [of 100 empty_set_table 5] by (simp add: table_ok_def)
  obtain b p t' where "find_pos t 5 = Inr b" "erase_range t b (end_pos t) = Inr (p, t')"
    using erase_from_spec [OF t, of 5] by blast
  then have "run_program 100 ?ops (empty_set_table, empty_set_table) = Inr (empty_set_table, t')"
    using e by (simp add: insert_key_def swap_pointers_eq)
  then show ?thesis
    using table_programs_safe [of 100 "(empty_set_table, empty_set_table)" ?ops]
    by (auto simp: tables_ok_def table_ok_def sets_of_def)
qed

text \<open>
  Erasing the range between two iterators removes exactly the values between them, keeps the
  table well formed and its size, and answers an iterator to the value that followed the range.
\<close>

theorem erase_range_correct:
  assumes "sized lim k t" and "b \<le> e" and "iterator_ok t e"
  shows "\<exists>p t'. erase_range t b e = Inr (p, t') \<and> sized lim k t' \<and>
    members t' = members t - values_between t b e \<and>
    (\<forall>v. holds (entries t) e v \<longrightarrow> holds (entries t') p v)"
  using erase_range_spec [OF assms] holds_before_end [of lim t e] assms(1) by (auto simp: table_ok_def split: if_splits)

end
