(* ===== verification/Flat_Hash_Map.thy ===== *)
theory Flat_Hash_Map
  imports Flat_Hash_Ops "HOL-Library.Multiset"
begin

text \<open>
  \<open>ska::flat_hash_map\<close> (\<^verbatim>\<open>flat_hash_map.hpp\<close>): the table of \<open>Flat_Hash\<close> with pairs as values, hashed and
  compared by their first components (\<open>KeyOrValueHasher\<close>, \<open>KeyOrValueEquality\<close>); keys are 64-bit
  numbers as there.  The operations are those of the table for this instance of the template.  They
  are related to the ones on keys by forgetting the second components (\<open>keys_of\<close>), which settles where
  keys stand; what remains is that no pair is lost or changed, which is a statement on multisets.
\<close>

section \<open>The table of pairs\<close>

record 'v map_entry =
  me_distance :: int
  me_value :: "(64 word \<times> 'v) option"

record 'v flat_hash_map =
  hm_entries :: "'v map_entry list"
  hm_slots_minus_one :: nat
  hm_shift :: nat
  hm_max_lookups :: nat
  hm_elements :: nat

definition me_vacant :: "'v map_entry" where
  "me_vacant = \<lparr>me_distance = -1, me_value = None\<rparr>"

definition me_special_end :: "'v map_entry" where
  "me_special_end = \<lparr>me_distance = 0, me_value = None\<rparr>"

definition me_emplaced :: "nat \<Rightarrow> 64 word \<times> 'v \<Rightarrow> 'v map_entry" where
  "me_emplaced d p = \<lparr>me_distance = int d, me_value = Some p\<rparr>"

definition me_has_value :: "'v map_entry \<Rightarrow> bool" where
  "me_has_value e \<longleftrightarrow> me_distance e \<ge> 0"

definition me_is_empty :: "'v map_entry \<Rightarrow> bool" where
  "me_is_empty e \<longleftrightarrow> me_distance e < 0"

definition me_pair :: "'v map_entry \<Rightarrow> (64 word \<times> 'v) res" where
  "me_pair e = (case me_value e of None \<Rightarrow> Inl Uninitialised | Some p \<Rightarrow> Inr p)"

definition empty_map :: "'v flat_hash_map" where
  "empty_map =
     \<lparr>hm_entries = [me_vacant, me_vacant, me_vacant, me_special_end], hm_slots_minus_one = 0, hm_shift = 63,
      hm_max_lookups = 3, hm_elements = 0\<rparr>"

definition hm_bucket_count :: "'v flat_hash_map \<Rightarrow> nat" where
  "hm_bucket_count t = (if hm_slots_minus_one t \<noteq> 0 then hm_slots_minus_one t + 1 else 0)"

definition hm_end :: "'v flat_hash_map \<Rightarrow> nat" where
  "hm_end t = hm_slots_minus_one t + hm_max_lookups t"

text \<open>Hash and equality look at the first component; \<open>std::hash\<close> is the identity.\<close>

definition pair_hash :: "64 word \<times> 'v \<Rightarrow> 64 word" where
  [simp]: "pair_hash p = fst p"

definition key_equals :: "64 word \<Rightarrow> 64 word \<times> 'v \<Rightarrow> bool" where
  [simp]: "key_equals key p \<longleftrightarrow> key = fst p"

function hm_probe :: "'v map_entry list \<Rightarrow> 64 word \<Rightarrow> nat \<Rightarrow> nat \<Rightarrow> (bool \<times> nat \<times> nat) res" where
  "hm_probe es key pos d =
     rbind (at es pos) (\<lambda>e.
       if me_distance e \<ge> int d
       then rbind (me_pair e) (\<lambda>p.
         if key_equals key p then Inr (True, pos, d) else hm_probe es key (Suc pos) (Suc d))
       else Inr (False, pos, d))"
  by pat_completeness auto
termination
  by (relation "measure (\<lambda>(es, key, pos, d). length es - pos)") (auto simp: at_Inr_iff)

declare hm_probe.simps [simp del]

definition hm_find :: "'v flat_hash_map \<Rightarrow> 64 word \<Rightarrow> nat res" where
  "hm_find t key =
     rbind (hm_probe (hm_entries t) key (index_for_hash (hm_shift t) key) 0) (\<lambda>(found, pos, d).
       Inr (if found then pos else hm_end t))"

function hm_displace :: "nat \<Rightarrow> 'v map_entry list \<Rightarrow> nat \<Rightarrow> nat \<Rightarrow> 64 word \<times> 'v \<Rightarrow>
    ('v map_entry list \<times> (64 word \<times> 'v) option) res" where
  "hm_displace ml es pos d c =
     rbind (at es pos) (\<lambda>e.
       if me_is_empty e then Inr (es[pos := me_emplaced d c], None)
       else if me_distance e < int d
       then rbind (me_pair e) (\<lambda>v.
         hm_displace ml (es[pos := me_emplaced d c]) (Suc pos) (Suc (nat (me_distance e))) v)
       else if Suc d = ml then Inr (es, Some c)
       else hm_displace ml es (Suc pos) (Suc d) c)"
  by pat_completeness auto
termination
  by (relation "measure (\<lambda>(ml, es, pos, d, c). length es - pos)") (auto simp: at_Inr_iff)

declare hm_displace.simps [simp del]

type_synonym 'v hm_emplacer = "'v flat_hash_map \<Rightarrow> 64 word \<times> 'v \<Rightarrow> ('v flat_hash_map \<times> nat \<times> bool) res"

definition hm_emplace_new_key ::
  "('v flat_hash_map \<Rightarrow> 'v flat_hash_map res) \<Rightarrow> 'v hm_emplacer \<Rightarrow>
   'v flat_hash_map \<Rightarrow> nat \<Rightarrow> nat \<Rightarrow> 64 word \<times> 'v \<Rightarrow> ('v flat_hash_map \<times> nat \<times> bool) res" where
  "hm_emplace_new_key gr em t d pos p =
     (if hm_slots_minus_one t = 0 \<or> d = hm_max_lookups t \<or>
         2 * (hm_elements t + 1) > hm_slots_minus_one t + 1
      then rbind (gr t) (\<lambda>t. em t p)
      else rbind (at (hm_entries t) pos) (\<lambda>e.
        if me_is_empty e
        then Inr (t\<lparr>hm_entries := (hm_entries t)[pos := me_emplaced d p],
                    hm_elements := hm_elements t + 1\<rparr>, pos, True)
        else rbind (me_pair e) (\<lambda>v.
          rbind (hm_displace (hm_max_lookups t) ((hm_entries t)[pos := me_emplaced d p]) (Suc pos)
                   (Suc (nat (me_distance e))) v) (\<lambda>(es, rest).
            case rest of
              None \<Rightarrow> Inr (t\<lparr>hm_entries := es, hm_elements := hm_elements t + 1\<rparr>, pos, True)
            | Some c \<Rightarrow>
                rbind (at es pos) (\<lambda>r. rbind (me_pair r) (\<lambda>q.
                rbind (gr (t\<lparr>hm_entries := es[pos := r\<lparr>me_value := Some c\<rparr>]\<rparr>)) (\<lambda>t.
                  em t q)))))))"

definition hm_emplace_once ::
  "('v flat_hash_map \<Rightarrow> 'v flat_hash_map res) \<Rightarrow> 'v hm_emplacer \<Rightarrow> 'v hm_emplacer" where
  "hm_emplace_once gr em t p =
     rbind (hm_probe (hm_entries t) (fst p) (index_for_hash (hm_shift t) (pair_hash p)) 0) (\<lambda>(found, pos, d).
       if found then Inr (t, pos, False) else hm_emplace_new_key gr em t d pos p)"

fun hm_reinsert :: "'v hm_emplacer \<Rightarrow> 'v map_entry list \<Rightarrow> 'v flat_hash_map \<Rightarrow> 'v flat_hash_map res" where
  "hm_reinsert em [] t = Inr t"
| "hm_reinsert em (e # es) t =
     (if me_has_value e
      then rbind (me_pair e) (\<lambda>p. rbind (em t p) (\<lambda>(t, _, _). hm_reinsert em es t))
      else hm_reinsert em es t)"

definition hm_reset :: "'v flat_hash_map \<Rightarrow> 'v flat_hash_map" where
  "hm_reset t =
     t\<lparr>hm_entries := [me_vacant, me_vacant, me_vacant, me_special_end], hm_slots_minus_one := 0,
       hm_shift := 63, hm_max_lookups := 3\<rparr>"

definition hm_rehash :: "nat \<Rightarrow> 'v hm_emplacer \<Rightarrow> 'v flat_hash_map \<Rightarrow> nat \<Rightarrow> 'v flat_hash_map res" where
  "hm_rehash lim em t num_buckets =
     (let num_buckets = max num_buckets (2 * hm_elements t) in
      if num_buckets = 0 then Inr (hm_reset t)
      else let (num_buckets, new_shift) = next_size_over num_buckets in
        if num_buckets = hm_bucket_count t then Inr t
        else let new_max_lookups = compute_max_lookups num_buckets in
          rbind (check Throws_Bad_Alloc (num_buckets + new_max_lookups \<le> lim)) (\<lambda>_.
            hm_reinsert em (take (hm_slots_minus_one t + hm_max_lookups t) (hm_entries t))
              (t\<lparr>hm_entries := replicate (num_buckets + new_max_lookups - 1) me_vacant @ [me_special_end],
                 hm_slots_minus_one := num_buckets - 1, hm_shift := new_shift,
                 hm_max_lookups := new_max_lookups, hm_elements := 0\<rparr>)))"

definition hm_grow :: "nat \<Rightarrow> 'v hm_emplacer \<Rightarrow> 'v flat_hash_map \<Rightarrow> 'v flat_hash_map res" where
  "hm_grow lim em t = hm_rehash lim em t (max 4 (2 * hm_bucket_count t))"

primrec hm_emplace_at :: "nat \<Rightarrow> nat \<Rightarrow> 'v hm_emplacer" where
  "hm_emplace_at lim 0 = (\<lambda>t p. Inl Stack_Overflow)"
| "hm_emplace_at lim (Suc n) = hm_emplace_once (hm_grow lim (hm_emplace_at lim n)) (hm_emplace_at lim n)"

definition hm_emplace :: "nat \<Rightarrow> 'v hm_emplacer" where
  "hm_emplace lim = hm_emplace_at lim 64"

section \<open>The operations of the map\<close>

text \<open>
  A reference to a value is the position of its entry.  \<open>dflt\<close> is \<open>V()\<close>, what
  \<open>convertible_to_value\<close> becomes when \<open>operator[]\<close> makes a new entry.
\<close>

definition second_at :: "'v flat_hash_map \<Rightarrow> nat \<Rightarrow> 'v res" where
  "second_at t pos = rbind (at (hm_entries t) pos) (\<lambda>e. rbind (me_pair e) (\<lambda>p. Inr (snd p)))"

definition set_second :: "'v flat_hash_map \<Rightarrow> nat \<Rightarrow> 'v \<Rightarrow> 'v flat_hash_map res" where
  "set_second t pos v =
     rbind (at (hm_entries t) pos) (\<lambda>e. rbind (me_pair e) (\<lambda>p.
       Inr (t\<lparr>hm_entries := (hm_entries t)[pos := e\<lparr>me_value := Some (fst p, v)\<rparr>]\<rparr>)))"

definition subscript :: "nat \<Rightarrow> 'v \<Rightarrow> 'v flat_hash_map \<Rightarrow> 64 word \<Rightarrow> ('v flat_hash_map \<times> nat) res" where
  "subscript lim dflt t key = rbind (hm_emplace lim t (key, dflt)) (\<lambda>(t, pos, new). Inr (t, pos))"

definition at_key :: "'v flat_hash_map \<Rightarrow> 64 word \<Rightarrow> nat res" where
  "at_key t key =
     rbind (hm_find t key) (\<lambda>found. if found = hm_end t then Inl Throws_Out_Of_Range else Inr found)"

definition insert_or_assign :: "nat \<Rightarrow> 'v flat_hash_map \<Rightarrow> 64 word \<Rightarrow> 'v \<Rightarrow> ('v flat_hash_map \<times> nat \<times> bool) res" where
  "insert_or_assign lim t key m =
     rbind (hm_emplace lim t (key, m)) (\<lambda>(t, pos, new).
       if \<not> new then rbind (set_second t pos m) (\<lambda>t. Inr (t, pos, new)) else Inr (t, pos, new))"

function hm_close_gap :: "'v map_entry list \<Rightarrow> nat \<Rightarrow> 'v map_entry list res" where
  "hm_close_gap es cur =
     rbind (at es (Suc cur)) (\<lambda>e.
       if me_distance e \<le> 0 then Inr es
       else rbind (me_pair e) (\<lambda>p.
         hm_close_gap ((es[cur := me_emplaced (nat (me_distance e - 1)) p])[Suc cur := me_vacant]) (Suc cur)))"
  by pat_completeness auto
termination
  by (relation "measure (\<lambda>(es, cur). length es - cur)") (auto simp: at_Inr_iff)

declare hm_close_gap.simps [simp del]

definition hm_erase :: "'v flat_hash_map \<Rightarrow> 64 word \<Rightarrow> (nat \<times> 'v flat_hash_map) res" where
  "hm_erase t key =
     rbind (hm_find t key) (\<lambda>found.
       if found = hm_end t then Inr (0, t)
       else rbind (at (hm_entries t) found) (\<lambda>e.
         rbind (hm_close_gap ((hm_entries t)[found := me_vacant]) found) (\<lambda>es.
           Inr (1, t\<lparr>hm_entries := es, hm_elements := hm_elements t - 1\<rparr>))))"

function hm_seek :: "'v map_entry list \<Rightarrow> nat \<Rightarrow> nat res" where
  "hm_seek es pos = rbind (at es pos) (\<lambda>e. if me_is_empty e then hm_seek es (Suc pos) else Inr pos)"
  by pat_completeness auto
termination
  by (relation "measure (\<lambda>(es, pos). length es - pos)") (auto simp: at_Inr_iff)

declare hm_seek.simps [simp del]

lemma hm_seek_bounds: "hm_seek es pos = Inr q \<Longrightarrow> pos \<le> q \<and> q < length es"
proof (induction es pos rule: hm_seek.induct)
  case (1 es pos)
  from "1.prems" obtain e where e: "at es pos = Inr e"
    "(if me_is_empty e then hm_seek es (Suc pos) else Inr pos) = Inr q"
    by (auto simp: hm_seek.simps [of es pos] rbind_Inr_iff)
  with "1.IH" [OF e(1)] show ?case by (auto simp: at_Inr_iff split: if_splits)
qed

function hm_iterate :: "'v flat_hash_map \<Rightarrow> nat \<Rightarrow> (64 word \<times> 'v) list res" where
  "hm_iterate t pos =
     (if pos = hm_end t then Inr []
      else rbind (at (hm_entries t) pos) (\<lambda>e. rbind (me_pair e) (\<lambda>p.
        rbind (hm_seek (hm_entries t) (Suc pos)) (\<lambda>q. rbind (hm_iterate t q) (\<lambda>ps. Inr (p # ps))))))"
  by pat_completeness auto
termination
  by (relation "measure (\<lambda>(t, pos). length (hm_entries t) - pos)") (auto dest!: hm_seek_bounds)

declare hm_iterate.simps [simp del]

definition pairs_in :: "'v flat_hash_map \<Rightarrow> (64 word \<times> 'v) list res" where
  "pairs_in t = rbind (hm_seek (hm_entries t) 0) (hm_iterate t)"

fun all_equal :: "'v flat_hash_map \<Rightarrow> (64 word \<times> 'v) list \<Rightarrow> bool res" where
  "all_equal t [] = Inr True"
| "all_equal t (p # ps) =
     rbind (hm_find t (fst p)) (\<lambda>found.
       if found = hm_end t then Inr False
       else rbind (second_at t found) (\<lambda>v. if snd p \<noteq> v then Inr False else all_equal t ps))"

definition map_eq :: "'v flat_hash_map \<Rightarrow> 'v flat_hash_map \<Rightarrow> bool res" where
  "map_eq lhs rhs =
     (if hm_elements lhs \<noteq> hm_elements rhs then Inr False else rbind (pairs_in lhs) (all_equal rhs))"

definition map_neq :: "'v flat_hash_map \<Rightarrow> 'v flat_hash_map \<Rightarrow> bool res" where
  "map_neq lhs rhs = rbind (map_eq lhs rhs) (\<lambda>b. Inr (\<not> b))"

definition emplace_default :: "nat \<Rightarrow> 'v \<Rightarrow> 'v flat_hash_map \<Rightarrow> ('v flat_hash_map \<times> nat \<times> bool) res" where
  "emplace_default lim dflt t = hm_emplace lim t (0, dflt)"

section \<open>Forgetting the second components\<close>

definition key_entry :: "'v map_entry \<Rightarrow> sherwood_v3_entry" where
  "key_entry e = \<lparr>distance_from_desired = me_distance e, entry_value = map_option fst (me_value e)\<rparr>"

definition keys_of :: "'v flat_hash_map \<Rightarrow> flat_hash_set" where
  "keys_of t =
     \<lparr>entries = map key_entry (hm_entries t), num_slots_minus_one = hm_slots_minus_one t, shift = hm_shift t,
      max_lookups = hm_max_lookups t, num_elements = hm_elements t\<rparr>"

text \<open>An operation on pairs has the outcome of the one on keys, faults included.\<close>

definition map_res :: "('a \<Rightarrow> 'b) \<Rightarrow> 'a res \<Rightarrow> 'b res" where
  "map_res f m = (case m of Inl e \<Rightarrow> Inl e | Inr x \<Rightarrow> Inr (f x))"

lemma map_res_simps [simp]: "map_res f (Inl e) = Inl e" "map_res f (Inr x) = Inr (f x)"
  by (simp_all add: map_res_def)

lemma map_res_rbind:
  assumes "map_res h m = m'" and "\<And>x. m = Inr x \<Longrightarrow> map_res g (f x) = f' (h x)"
  shows "map_res g (rbind m f) = rbind m' f'"
  using assms by (cases m) auto

lemma map_res_id [simp]: "map_res id m = m"
  by (cases m) simp_all

lemma map_res_at: "map_res f (at xs i) = at (map f xs) i"
  by (simp add: at_def)

lemma key_entry_simps [simp]:
  "distance_from_desired (key_entry e) = me_distance e" "entry_value (key_entry e) = map_option fst (me_value e)"
  "has_value (key_entry e) = me_has_value e" "is_empty (key_entry e) = me_is_empty e"
  "key_entry (me_emplaced d p) = emplaced d (fst p)" "key_entry me_vacant = vacant"
  "key_entry me_special_end = special_end"
  by (simp_all add: key_entry_def has_value_def is_empty_def me_has_value_def me_is_empty_def me_emplaced_def
      emplaced_def me_vacant_def vacant_def me_special_end_def special_end_def)

lemma map_res_pair: "map_res fst (me_pair e) = value_of (key_entry e)"
  by (simp add: me_pair_def value_of_def split: option.split)

lemma keys_of_simps [simp]:
  "entries (keys_of t) = map key_entry (hm_entries t)" "num_slots_minus_one (keys_of t) = hm_slots_minus_one t"
  "shift (keys_of t) = hm_shift t" "max_lookups (keys_of t) = hm_max_lookups t" "num_elements (keys_of t) = hm_elements t"
  "bucket_count (keys_of t) = hm_bucket_count t" "end_pos (keys_of t) = hm_end t"
  by (simp_all add: keys_of_def bucket_count_def hm_bucket_count_def end_pos_def hm_end_def)

lemma keys_of_update [simp]:
  "keys_of (t\<lparr>hm_entries := es\<rparr>) = (keys_of t)\<lparr>entries := map key_entry es\<rparr>"
  "keys_of (t\<lparr>hm_elements := n\<rparr>) = (keys_of t)\<lparr>num_elements := n\<rparr>"
  "keys_of (t\<lparr>hm_slots_minus_one := n\<rparr>) = (keys_of t)\<lparr>num_slots_minus_one := n\<rparr>"
  "keys_of (t\<lparr>hm_shift := n\<rparr>) = (keys_of t)\<lparr>shift := n\<rparr>"
  "keys_of (t\<lparr>hm_max_lookups := n\<rparr>) = (keys_of t)\<lparr>max_lookups := n\<rparr>"
  by (simp_all add: keys_of_def)

lemma keys_probe: "hm_probe es key pos d = probe (map key_entry es) key pos d"
proof (induction es key pos d rule: hm_probe.induct)
  case (1 es key pos d)
  show ?case
  proof (cases "pos < length es")
    case True
    then show ?thesis
      using "1.IH" [of "es ! pos"]
      by (cases "me_value (es ! pos)")
         (auto simp: hm_probe.simps [of es] probe.simps [of "map key_entry es"] me_pair_def value_of_def)
  next
    case False
    then show ?thesis by (simp add: hm_probe.simps [of es] probe.simps [of "map key_entry es"])
  qed
qed

lemma keys_find: "hm_find t key = find_pos (keys_of t) key"
  unfolding hm_find_def find_pos_def keys_probe keys_of_simps ..

lemma keys_displace:
  "map_res (map_prod (map key_entry) (map_option fst)) (hm_displace ml es pos d c) =
     displace ml (map key_entry es) pos d (fst c)"
proof (induction ml es pos d c rule: hm_displace.induct)
  case (1 ml es pos d c)
  show ?case
  proof (cases "pos < length es")
    case True
    then show ?thesis
      using "1.IH" [of "es ! pos"]
      by (cases "me_value (es ! pos)")
         (auto simp: hm_displace.simps [of ml es] displace.simps [of ml "map key_entry es"] me_pair_def value_of_def map_update)
  next
    case False
    then show ?thesis by (simp add: hm_displace.simps [of ml es] displace.simps [of ml "map key_entry es"])
  qed
qed

abbreviation keys_result :: "'v flat_hash_map \<times> nat \<times> bool \<Rightarrow> flat_hash_set \<times> nat \<times> bool" where
  "keys_result \<equiv> map_prod keys_of id"

definition keys_like :: "'v hm_emplacer \<Rightarrow> (flat_hash_set \<Rightarrow> 64 word \<Rightarrow> (flat_hash_set \<times> nat \<times> bool) res) \<Rightarrow> bool" where
  "keys_like em em' \<longleftrightarrow> (\<forall>t p. map_res keys_result (em t p) = em' (keys_of t) (fst p))"

lemma keys_likeD: "keys_like em em' \<Longrightarrow> map_res keys_result (em t p) = em' (keys_of t) (fst p)"
  unfolding keys_like_def by blast

lemma keys_reinsert:
  assumes "keys_like em em'"
  shows "map_res keys_of (hm_reinsert em es t) = reinsert em' (map key_entry es) (keys_of t)"
proof (induction es arbitrary: t)
  case (Cons e es)
  have "map_res keys_of (rbind (me_pair e) (\<lambda>p. rbind (em t p) (\<lambda>(t, _, _). hm_reinsert em es t))) =
      rbind (value_of (key_entry e)) (\<lambda>v. rbind (em' (keys_of t) v) (\<lambda>(t, _, _). reinsert em' (map key_entry es) t))"
  proof (rule map_res_rbind [OF map_res_pair], rule map_res_rbind [OF keys_likeD [OF assms]])
    fix x :: "'a flat_hash_map \<times> nat \<times> bool"
    show "map_res keys_of (case x of (t, _, _) \<Rightarrow> hm_reinsert em es t) =
      (case keys_result x of (t, _, _) \<Rightarrow> reinsert em' (map key_entry es) t)"
      using Cons.IH by (simp split: prod.split)
  qed
  then show ?case using Cons.IH by simp
qed simp

lemma keys_rehash:
  assumes "keys_like em em'"
  shows "map_res keys_of (hm_rehash lim em t n) = rehash lim em' (keys_of t) n"
proof -
  define nb where "nb = max n (2 * hm_elements t)"
  obtain m sh where m: "next_size_over nb = (m, sh)" by (cases "next_size_over nb")
  show ?thesis
  proof (cases "nb = 0")
    case True
    then show ?thesis
      by (simp add: hm_rehash_def rehash_def hm_reset_def reset_to_empty_state_def empty_default_table_def flip: nb_def)
  next
    case False
    then show ?thesis
      using m keys_reinsert [OF assms]
      by (cases "m + compute_max_lookups m \<le> lim")
         (simp_all add: hm_rehash_def rehash_def check_def take_map Let_def flip: nb_def)
  qed
qed

lemma keys_grow:
  assumes "keys_like em em'"
  shows "map_res keys_of (hm_grow lim em t) = grow lim em' (keys_of t)"
  using keys_rehash [OF assms] by (simp add: hm_grow_def grow_def)

lemma keys_emplace_new_key:
  assumes "keys_like em em'"
  shows "map_res keys_result (hm_emplace_new_key (hm_grow lim em) em t d pos p) =
    emplace_new_key (grow lim em') em' (keys_of t) d pos (fst p)"
proof -
  have em: "map_res keys_result (em t p) = em' (keys_of t) (fst p)" for t p
    by (rule keys_likeD [OF assms])
  have ge: "map_res keys_result (rbind (hm_grow lim em t) (\<lambda>t. em t p)) =
      rbind (grow lim em' (keys_of t)) (\<lambda>t. em' t (fst p))" for t p
    by (rule map_res_rbind [OF keys_grow [OF assms]]) (rule em)
  show ?thesis
  proof (cases "hm_slots_minus_one t = 0 \<or> d = hm_max_lookups t \<or> 2 * (hm_elements t + 1) > hm_slots_minus_one t + 1")
    case True
    then show ?thesis using ge by (simp add: hm_emplace_new_key_def emplace_new_key_def)
  next
    case False
    let ?rest = "\<lambda>(es, rest). case rest of
        None \<Rightarrow> Inr (t\<lparr>hm_entries := es, hm_elements := hm_elements t + 1\<rparr>, pos, True)
      | Some c \<Rightarrow> rbind (at es pos) (\<lambda>r. rbind (me_pair r) (\<lambda>q.
          rbind (hm_grow lim em (t\<lparr>hm_entries := es[pos := r\<lparr>me_value := Some c\<rparr>]\<rparr>)) (\<lambda>t. em t q)))"
    let ?rest' = "\<lambda>(es, rest). case rest of
        None \<Rightarrow> Inr ((keys_of t)\<lparr>entries := es, num_elements := hm_elements t + 1\<rparr>, pos, True)
      | Some c \<Rightarrow> rbind (at es pos) (\<lambda>r. rbind (value_of r) (\<lambda>k.
          rbind (grow lim em' ((keys_of t)\<lparr>entries := es[pos := r\<lparr>entry_value := Some c\<rparr>]\<rparr>)) (\<lambda>t. em' t k)))"
    have rest: "map_res keys_result (?rest x) = ?rest' (map_prod (map key_entry) (map_option fst) x)" for x
    proof (cases x)
      case (Pair es r)
      show ?thesis
      proof (cases r)
        case (Some c)
        have u: "(key_entry e)\<lparr>entry_value := Some (fst c)\<rparr> = key_entry (e\<lparr>me_value := Some c\<rparr>)" for e
          by (simp add: key_entry_def)
        have g: "map_res keys_result (rbind (hm_grow lim em (t\<lparr>hm_entries := es[pos := e\<lparr>me_value := Some c\<rparr>]\<rparr>)) (\<lambda>t. em t q)) =
            rbind (grow lim em' ((keys_of t)\<lparr>entries := (map key_entry es)[pos := (key_entry e)\<lparr>entry_value := Some (fst c)\<rparr>]\<rparr>))
              (\<lambda>t. em' t (fst q))" for e q
          unfolding ge u by (simp add: map_update)
        have "map_res keys_result (rbind (at es pos) (\<lambda>r. rbind (me_pair r) (\<lambda>q.
            rbind (hm_grow lim em (t\<lparr>hm_entries := es[pos := r\<lparr>me_value := Some c\<rparr>]\<rparr>)) (\<lambda>t. em t q)))) =
          rbind (at (map key_entry es) pos) (\<lambda>r. rbind (value_of r) (\<lambda>k.
            rbind (grow lim em' ((keys_of t)\<lparr>entries := (map key_entry es)[pos := r\<lparr>entry_value := Some (fst c)\<rparr>]\<rparr>)) (\<lambda>t. em' t k)))"
          by (intro map_res_rbind [OF map_res_at] map_res_rbind [OF map_res_pair] g)
        then show ?thesis using Pair Some by simp
      qed (simp add: Pair)
    qed
    have "map_res keys_result (rbind (at (hm_entries t) pos) (\<lambda>e.
        if me_is_empty e
        then Inr (t\<lparr>hm_entries := (hm_entries t)[pos := me_emplaced d p], hm_elements := hm_elements t + 1\<rparr>, pos, True)
        else rbind (me_pair e) (\<lambda>v.
          rbind (hm_displace (hm_max_lookups t) ((hm_entries t)[pos := me_emplaced d p]) (Suc pos)
                   (Suc (nat (me_distance e))) v) ?rest))) =
      rbind (at (map key_entry (hm_entries t)) pos) (\<lambda>e.
        if is_empty e
        then Inr ((keys_of t)\<lparr>entries := (map key_entry (hm_entries t))[pos := emplaced d (fst p)],
                    num_elements := hm_elements t + 1\<rparr>, pos, True)
        else rbind (value_of e) (\<lambda>v.
          rbind (displace (hm_max_lookups t) ((map key_entry (hm_entries t))[pos := emplaced d (fst p)]) (Suc pos)
                   (Suc (nat (distance_from_desired e))) v) ?rest'))"
    proof (rule map_res_rbind [OF map_res_at])
      fix e
      have step: "map_res keys_result (rbind (me_pair e) (\<lambda>v.
          rbind (hm_displace (hm_max_lookups t) ((hm_entries t)[pos := me_emplaced d p]) (Suc pos)
                   (Suc (nat (me_distance e))) v) ?rest)) =
        rbind (value_of (key_entry e)) (\<lambda>v.
          rbind (displace (hm_max_lookups t) ((map key_entry (hm_entries t))[pos := emplaced d (fst p)]) (Suc pos)
                   (Suc (nat (distance_from_desired (key_entry e)))) v) ?rest')"
        by (rule map_res_rbind [OF map_res_pair],
            rule map_res_rbind [where h = "map_prod (map key_entry) (map_option fst)"])
           (simp add: keys_displace map_update, rule rest)
      show "map_res keys_result (if me_is_empty e
          then Inr (t\<lparr>hm_entries := (hm_entries t)[pos := me_emplaced d p], hm_elements := hm_elements t + 1\<rparr>, pos, True)
          else rbind (me_pair e) (\<lambda>v.
            rbind (hm_displace (hm_max_lookups t) ((hm_entries t)[pos := me_emplaced d p]) (Suc pos)
                     (Suc (nat (me_distance e))) v) ?rest)) =
        (if is_empty (key_entry e)
          then Inr ((keys_of t)\<lparr>entries := (map key_entry (hm_entries t))[pos := emplaced d (fst p)],
                      num_elements := hm_elements t + 1\<rparr>, pos, True)
          else rbind (value_of (key_entry e)) (\<lambda>v.
            rbind (displace (hm_max_lookups t) ((map key_entry (hm_entries t))[pos := emplaced d (fst p)]) (Suc pos)
                     (Suc (nat (distance_from_desired (key_entry e)))) v) ?rest'))"
      proof (cases "me_is_empty e")
        case False
        then show ?thesis by (simp only: key_entry_simps(4) if_False) (rule step)
      qed (simp add: map_update)
    qed
    then show ?thesis
      unfolding hm_emplace_new_key_def emplace_new_key_def keys_of_simps by (simp only: False if_False)
  qed
qed

lemma keys_emplace_once:
  assumes "keys_like em em'"
  shows "keys_like (hm_emplace_once (hm_grow lim em) em) (emplace_once (grow lim em') em')"
  unfolding keys_like_def hm_emplace_once_def emplace_once_def
  by (intro allI map_res_rbind [where h = id])
     (use keys_emplace_new_key [OF assms] in \<open>auto simp: keys_probe split: prod.split\<close>)

lemma keys_emplace: "keys_like (hm_emplace lim) (emplace lim)"
proof -
  have "keys_like (hm_emplace_at lim n) (emplace_at lim n)" for n
    by (induction n) (simp_all add: keys_emplace_once, simp add: keys_like_def)
  then show ?thesis by (simp add: hm_emplace_def emplace_def)
qed

section \<open>No pair is lost or changed\<close>

definition stored :: "'v map_entry \<Rightarrow> (64 word \<times> 'v) option" where
  "stored e = (if me_has_value e then me_value e else None)"

primrec opt_mset :: "'a option \<Rightarrow> 'a multiset" where
  "opt_mset None = {#}"
| "opt_mset (Some x) = {#x#}"

definition pairs_of :: "'v map_entry list \<Rightarrow> (64 word \<times> 'v) multiset" where
  "pairs_of es = sum_list (map (\<lambda>e. opt_mset (stored e)) es)"

abbreviation pairs :: "'v flat_hash_map \<Rightarrow> (64 word \<times> 'v) multiset" where
  "pairs t \<equiv> pairs_of (hm_entries t)"

text \<open>The last entry stops iterators and is never written.\<close>

definition closed :: "'v map_entry list \<Rightarrow> bool" where
  "closed es \<longleftrightarrow> es \<noteq> [] \<and> last es = me_special_end"

definition shaped :: "'v flat_hash_map \<Rightarrow> bool" where
  "shaped t \<longleftrightarrow> closed (hm_entries t) \<and> length (hm_entries t) = Suc (hm_end t)"

lemma stored_simps [simp]:
  "stored me_vacant = None" "stored me_special_end = None" "stored (me_emplaced d p) = Some p"
  "me_is_empty e \<Longrightarrow> stored e = None" "me_value (me_emplaced d p) = Some p"
  "\<not> me_is_empty me_special_end" "me_value me_special_end = None" "me_distance me_special_end = 0"
  "me_distance me_vacant = -1" "me_value me_vacant = None"
  by (simp_all add: stored_def me_vacant_def me_special_end_def me_emplaced_def me_has_value_def me_is_empty_def)

lemma pairs_of_simps [simp]:
  "pairs_of [] = {#}" "pairs_of (e # es) = opt_mset (stored e) + pairs_of es"
  "pairs_of (es @ es') = pairs_of es + pairs_of es'" "pairs_of (replicate n me_vacant) = {#}"
  by (simp_all add: pairs_of_def) (induction n; simp)

lemma pairs_of_update:
  "i < length es \<Longrightarrow> pairs_of (es[i := e]) + opt_mset (stored (es ! i)) = pairs_of es + opt_mset (stored e)"
proof (induction es arbitrary: i)
  case (Cons x es)
  show ?case
  proof (cases i)
    case (Suc j)
    then show ?thesis using Cons.IH [of j] Cons.prems by (simp add: add.assoc)
  qed (simp add: ac_simps)
qed simp

lemma me_pair_Inr: "me_pair e = Inr p \<longleftrightarrow> me_value e = Some p"
  by (simp add: me_pair_def split: option.split)

lemma closed_update:
  assumes "closed es" and "es ! i \<noteq> me_special_end" shows "closed (es[i := e])"
proof -
  have "i \<noteq> length es - 1" using assms by (auto simp: closed_def last_conv_nth)
  then show ?thesis using assms(1) by (simp add: closed_def last_list_update)
qed

lemma displace_pairs:
  assumes "hm_displace ml es pos d c = Inr (es', rest)" and "closed es"
  shows "closed es' \<and> length es' = length es \<and> take pos es' = take pos es \<and>
    pairs_of es' + opt_mset rest = add_mset c (pairs_of es)"
  using assms
proof (induction ml es pos d c arbitrary: es' rest rule: hm_displace.induct)
  case (1 ml es pos d c)
  from "1.prems"(1) have pos: "pos < length es"
    by (auto simp: hm_displace.simps [of ml es pos] rbind_Inr_iff at_Inr_iff)
  then have at: "at es pos = Inr (es ! pos)" by simp
  note step = hm_displace.simps [of ml es pos d c]
  have take: "take pos es' = take pos es" if "take (Suc pos) es' = take (Suc pos) es1" "take pos es1 = take pos es" for es' es1
    using that by (metis min.absorb1 le_SucI order_refl take_take)
  show ?case
  proof (cases "me_is_empty (es ! pos)")
    case True
    then have "es' = es[pos := me_emplaced d c]" "rest = None" "es ! pos \<noteq> me_special_end"
      using "1.prems"(1) at by (auto simp: step)
    then show ?thesis
      using pairs_of_update [OF pos, of "me_emplaced d c"] closed_update [OF "1.prems"(2)] True by simp
  next
    case False
    note full = False
    show ?thesis
    proof (cases "me_distance (es ! pos) < int d")
      case True
      let ?es = "es[pos := me_emplaced d c]"
      obtain v where v: "me_pair (es ! pos) = Inr v"
        "hm_displace ml ?es (Suc pos) (Suc (nat (me_distance (es ! pos)))) v = Inr (es', rest)"
        using "1.prems"(1) at full True by (auto simp: step rbind_Inr_iff)
      then have s: "stored (es ! pos) = Some v" "es ! pos \<noteq> me_special_end"
        using full by (auto simp: stored_def me_pair_Inr me_has_value_def me_is_empty_def)
      have "closed ?es" using closed_update [OF "1.prems"(2) s(2)] .
      from "1.IH"(1) [OF at full True v this]
      show ?thesis
        using pairs_of_update [OF pos, of "me_emplaced d c"] take [of es' ?es] s(1) by simp
    next
      case False
      show ?thesis
      proof (cases "Suc d = ml")
        case True
        then show ?thesis using "1.prems" at full False by (auto simp: step)
      next
        case ne: False
        then have "hm_displace ml es (Suc pos) (Suc d) c = Inr (es', rest)"
          using "1.prems"(1) at full False by (simp add: step)
        from "1.IH"(2) [OF at full False ne this "1.prems"(2)] show ?thesis using take [of es' es] by simp
      qed
    qed
  qed
qed

definition conserves :: "'v hm_emplacer \<Rightarrow> bool" where
  "conserves em \<longleftrightarrow> (\<forall>t p t' pos new. shaped t \<longrightarrow> em t p = Inr (t', pos, new) \<longrightarrow>
     shaped t' \<and> pairs t' \<subseteq># add_mset p (pairs t))"

lemma conservesD:
  "conserves em \<Longrightarrow> em t p = Inr (t', pos, new) \<Longrightarrow> shaped t \<Longrightarrow> shaped t' \<and> pairs t' \<subseteq># add_mset p (pairs t)"
  unfolding conserves_def by blast

lemma reinsert_pairs:
  assumes "conserves em" and "hm_reinsert em es t = Inr t'" and "shaped t"
  shows "shaped t' \<and> pairs t' \<subseteq># pairs_of es + pairs t"
  using assms(2,3)
proof (induction es arbitrary: t)
  case (Cons e es)
  show ?case
  proof (cases "me_has_value e")
    case True
    then obtain p t1 pos new where p: "me_value e = Some p" "em t p = Inr (t1, pos, new)" "hm_reinsert em es t1 = Inr t'"
      using Cons.prems(1) by (auto simp: rbind_Inr_iff me_pair_Inr)
    note c = conservesD [OF assms(1) p(2) Cons.prems(2)]
    then have "shaped t' \<and> pairs t' \<subseteq># pairs_of es + pairs t1" using Cons.IH [OF p(3)] by simp
    moreover have "pairs_of es + pairs t1 \<subseteq># pairs_of es + add_mset p (pairs t)" using c by simp
    ultimately show ?thesis using True p(1) by (auto simp: stored_def intro: subset_mset.order_trans)
  next
    case False
    then show ?thesis using Cons by (simp add: stored_def)
  qed
qed simp

lemma shaped_front: "shaped t \<Longrightarrow> pairs_of (take (hm_end t) (hm_entries t)) = pairs t"
proof -
  assume s: "shaped t"
  then have "hm_entries t = butlast (hm_entries t) @ [me_special_end]"
    by (simp add: shaped_def closed_def) (metis append_butlast_last_id)
  moreover have "take (hm_end t) (hm_entries t) = butlast (hm_entries t)"
    using s by (simp add: shaped_def butlast_conv_take)
  ultimately show ?thesis
    by (metis add.right_neutral opt_mset.simps(1) pairs_of_simps(1-3) stored_simps(2))
qed

lemma next_size_over_pos: "next_size_over n = (m, sh) \<Longrightarrow> 2 \<le> m"
proof -
  assume "next_size_over n = (m, sh)"
  then have "m = unat (max 2 (next_power_of_two (of_nat n)))" by (auto simp: next_size_over_def Let_def)
  moreover have "(2 :: 64 word) \<le> max 2 (next_power_of_two (of_nat n))" by simp
  ultimately show ?thesis unfolding word_le_nat_alt by simp
qed

lemma rehash_pairs:
  assumes "conserves em" and "hm_rehash lim em t n = Inr t'" and "shaped t"
  shows "shaped t' \<and> pairs t' \<subseteq># pairs t"
proof -
  define nb where "nb = max n (2 * hm_elements t)"
  obtain m sh where m: "next_size_over nb = (m, sh)" by (cases "next_size_over nb")
  consider (reset) "nb = 0" | (same) "nb \<noteq> 0" "m = hm_bucket_count t" | (move) "nb \<noteq> 0" "m \<noteq> hm_bucket_count t"
    by blast
  then show ?thesis
  proof cases
    case reset
    then have "t' = hm_reset t" using assms(2) by (simp add: hm_rehash_def flip: nb_def)
    then show ?thesis by (simp add: hm_reset_def shaped_def closed_def hm_end_def)
  next
    case same
    then have "t' = t" using assms(2) m by (simp add: hm_rehash_def flip: nb_def)
    then show ?thesis using assms(3) by simp
  next
    case move
    let ?t = "t\<lparr>hm_entries := replicate (m + compute_max_lookups m - 1) me_vacant @ [me_special_end],
         hm_slots_minus_one := m - 1, hm_shift := sh, hm_max_lookups := compute_max_lookups m, hm_elements := 0\<rparr>"
    have "hm_reinsert em (take (hm_end t) (hm_entries t)) ?t = Inr t'"
      using assms(2) m move by (auto simp: hm_rehash_def Let_def rbind_Inr_iff hm_end_def simp flip: nb_def)
    moreover have "shaped ?t" using next_size_over_pos [OF m] by (simp add: shaped_def closed_def hm_end_def)
    ultimately show ?thesis using reinsert_pairs [OF assms(1)] shaped_front [OF assms(3)] by fastforce
  qed
qed

lemma grow_pairs:
  assumes "conserves em" and "rbind (hm_grow lim em t) (\<lambda>t. em t p) = Inr (t', pos, new)" and "shaped t"
  shows "shaped t' \<and> pairs t' \<subseteq># add_mset p (pairs t)"
proof -
  obtain t1 where t1: "hm_rehash lim em t (max 4 (2 * hm_bucket_count t)) = Inr t1" "em t1 p = Inr (t', pos, new)"
    using assms(2) by (auto simp: rbind_Inr_iff hm_grow_def)
  note r = rehash_pairs [OF assms(1) t1(1) assms(3)]
  then have "shaped t' \<and> pairs t' \<subseteq># add_mset p (pairs t1)" using conservesD [OF assms(1) t1(2)] by simp
  moreover have "add_mset p (pairs t1) \<subseteq># add_mset p (pairs t)" using r by simp
  ultimately show ?thesis by (blast intro: subset_mset.order_trans)
qed

lemma emplace_new_key_pairs:
  assumes em: "conserves em" and r: "hm_emplace_new_key (hm_grow lim em) em t d pos p = Inr (t', pos', new)"
    and s: "shaped t"
  shows "shaped t' \<and> pairs t' \<subseteq># add_mset p (pairs t)"
proof (cases "hm_slots_minus_one t = 0 \<or> d = hm_max_lookups t \<or> 2 * (hm_elements t + 1) > hm_slots_minus_one t + 1")
  case True
  then have "rbind (hm_grow lim em t) (\<lambda>t. em t p) = Inr (t', pos', new)"
    using r by (simp add: hm_emplace_new_key_def)
  then show ?thesis by (rule grow_pairs [OF em _ s])
next
  case False
  note step = r [unfolded hm_emplace_new_key_def, simplified False if_False]
  then have pos: "pos < length (hm_entries t)" by (auto simp: rbind_Inr_iff at_Inr_iff)
  let ?es = "(hm_entries t)[pos := me_emplaced d p]"
  have cl: "closed (hm_entries t)" "length (hm_entries t) = Suc (hm_end t)" using s by (simp_all add: shaped_def)
  note up = pairs_of_update [OF pos, of "me_emplaced d p"]
  show ?thesis
  proof (cases "me_is_empty (hm_entries t ! pos)")
    case True
    then have "t' = t\<lparr>hm_entries := ?es, hm_elements := hm_elements t + 1\<rparr>" using step pos by auto
    moreover have "closed ?es" using True by (intro closed_update [OF cl(1)]) auto
    ultimately show ?thesis using up True cl(2) by (simp add: shaped_def hm_end_def)
  next
    case full: False
    obtain v es rest where v: "me_value (hm_entries t ! pos) = Some v"
      and d: "hm_displace (hm_max_lookups t) ?es (Suc pos) (Suc (nat (me_distance (hm_entries t ! pos)))) v = Inr (es, rest)"
      using step pos full by (auto simp: rbind_Inr_iff me_pair_Inr)
    have st: "stored (hm_entries t ! pos) = Some v" "hm_entries t ! pos \<noteq> me_special_end"
      using v full by (auto simp: stored_def me_has_value_def me_is_empty_def)
    have "closed ?es" using st(2) by (rule closed_update [OF cl(1)])
    from displace_pairs [OF d this] have es: "closed es" "length es = Suc (hm_end t)"
      "take (Suc pos) es = take (Suc pos) ?es" "pairs_of es + opt_mset rest = add_mset v (pairs_of ?es)"
      using cl(2) by simp_all
    have all: "pairs_of es + opt_mset rest = add_mset p (pairs t)" using es(4) up st(1) by simp
    show ?thesis
    proof (cases rest)
      case None
      then have "t' = t\<lparr>hm_entries := es, hm_elements := hm_elements t + 1\<rparr>" using step pos full v d by (simp add: me_pair_def)
      then show ?thesis using es(1,2) all None by (simp add: shaped_def hm_end_def)
    next
      case (Some c)
      have "es ! pos = take (Suc pos) es ! pos" by simp
      then have e: "es ! pos = me_emplaced d p" using es(3) pos by simp
      let ?t = "t\<lparr>hm_entries := es[pos := (me_emplaced d p)\<lparr>me_value := Some c\<rparr>]\<rparr>"
      have "rbind (hm_grow lim em ?t) (\<lambda>t. em t p) = Inr (t', pos', new)"
        using step pos full v d Some e es(2) cl(2) by (simp add: me_pair_def)
      moreover have c: "(me_emplaced d p)\<lparr>me_value := Some c\<rparr> = me_emplaced d c" by (simp add: me_emplaced_def)
      have "closed (hm_entries ?t)" using e by (simp add: closed_update [OF es(1)] me_emplaced_def me_special_end_def)
      then have "shaped ?t" using es(2) by (simp add: shaped_def hm_end_def)
      moreover have "add_mset p (pairs ?t) = add_mset p (pairs t)"
      proof -
        have "pairs ?t + {#p#} = pairs_of es + {#c#}"
          using pairs_of_update [of pos es "me_emplaced d c"] e pos es(2) cl(2) by (simp add: c)
        then show ?thesis using all Some by simp
      qed
      ultimately show ?thesis using grow_pairs [OF em] by metis
    qed
  qed
qed

lemma conserves_emplace: "conserves (hm_emplace lim)"
proof -
  have once: "conserves (hm_emplace_once (hm_grow lim em) em)" if em: "conserves em" for em :: "'v hm_emplacer"
    unfolding conserves_def
  proof (intro allI impI)
    fix t p t' pos new assume s: "shaped t" and r: "hm_emplace_once (hm_grow lim em) em t p = Inr (t', pos, new)"
    then obtain found pos' d where pr: "hm_probe (hm_entries t) (fst p) (index_for_hash (hm_shift t) (fst p)) 0 = Inr (found, pos', d)"
      by (auto simp: hm_emplace_once_def rbind_Inr_iff)
    show "shaped t' \<and> pairs t' \<subseteq># add_mset p (pairs t)"
    proof (cases found)
      case True
      then show ?thesis using r pr s by (simp add: hm_emplace_once_def)
    next
      case False
      then show ?thesis using r pr emplace_new_key_pairs [OF em _ s] by (simp add: hm_emplace_once_def)
    qed
  qed
  have "conserves (hm_emplace_at lim n :: 'v hm_emplacer)" for n
  proof (induction n)
    case 0
    then show ?case by (simp add: conserves_def)
  next
    case (Suc n)
    then show ?case unfolding hm_emplace_at.simps by (rule once)
  qed
  then show ?thesis by (simp add: hm_emplace_def)
qed

section \<open>The pairs of a table\<close>

definition map_ok :: "nat \<Rightarrow> 'v flat_hash_map \<Rightarrow> bool" where
  "map_ok lim t \<longleftrightarrow> lim \<le> 2 ^ 62 \<and> table_ok lim (keys_of t) \<and> shaped t"

definition pair_list :: "'v flat_hash_map \<Rightarrow> (64 word \<times> 'v) list" where
  "pair_list t = List.map_filter stored (hm_entries t)"

definition look :: "'v flat_hash_map \<Rightarrow> 64 word \<rightharpoonup> 'v" where
  "look t = map_of (pair_list t)"

lemma mset_pair_list: "mset (pair_list t) = pairs t"
proof -
  have "mset (List.map_filter stored es) = pairs_of es" for es :: "'v map_entry list"
    by (induction es) (auto simp: List.map_filter_simps split: option.split)
  then show ?thesis by (simp add: pair_list_def)
qed

text \<open>A loop over the table visits the pairs.\<close>

lemma hm_value_there:
  assumes "map_ok lim t" and "i < hm_end t" and "\<not> me_is_empty (hm_entries t ! i)"
  shows "\<exists>p. me_value (hm_entries t ! i) = Some p \<and> stored (hm_entries t ! i) = Some p"
proof -
  have "i < length (hm_entries t)" using assms(1,2) by (simp add: map_ok_def shaped_def)
  then show ?thesis
    using value_there [of lim "keys_of t" i] assms
    by (auto simp: map_ok_def stored_def me_is_empty_def me_has_value_def)
qed

lemma hm_iterate_from:
  assumes ok: "map_ok lim t" and "pos \<le> hm_end t"
  shows "rbind (hm_seek (hm_entries t) pos) (hm_iterate t) = Inr (List.map_filter stored (drop pos (hm_entries t)))"
  using assms(2)
proof (induction "hm_end t - pos" arbitrary: pos)
  case 0
  have s: "closed (hm_entries t)" "length (hm_entries t) = Suc (hm_end t)" using ok by (simp_all add: map_ok_def shaped_def)
  then have e: "hm_entries t ! hm_end t = me_special_end"
    using last_conv_nth [of "hm_entries t"] by (simp add: closed_def)
  then have "drop (hm_end t) (hm_entries t) = [me_special_end]"
    using s(2) by (simp add: Cons_nth_drop_Suc [symmetric])
  moreover have "pos = hm_end t" using 0 by simp
  ultimately show ?case
    using s(2) e by (simp add: hm_seek.simps [of _ "hm_end t"] hm_iterate.simps [of t "hm_end t"] List.map_filter_simps)
next
  case (Suc n)
  then have lt: "pos < hm_end t" by simp
  then have len: "pos < length (hm_entries t)" using ok by (simp add: map_ok_def shaped_def)
  then have at: "at (hm_entries t) pos = Inr (hm_entries t ! pos)" by simp
  have d: "drop pos (hm_entries t) = hm_entries t ! pos # drop (Suc pos) (hm_entries t)"
    using len by (rule Cons_nth_drop_Suc [symmetric])
  have IH: "rbind (hm_seek (hm_entries t) (Suc pos)) (hm_iterate t) =
      Inr (List.map_filter stored (drop (Suc pos) (hm_entries t)))" using Suc by auto
  show ?case
  proof (cases "me_is_empty (hm_entries t ! pos)")
    case True
    then show ?thesis using at IH by (simp add: hm_seek.simps [of _ pos] d List.map_filter_simps)
  next
    case False
    then obtain p where p: "me_value (hm_entries t ! pos) = Some p" "stored (hm_entries t ! pos) = Some p"
      using hm_value_there [OF ok lt] by blast
    obtain q where q: "hm_seek (hm_entries t) (Suc pos) = Inr q"
      "hm_iterate t q = Inr (List.map_filter stored (drop (Suc pos) (hm_entries t)))"
      using IH by (auto simp: rbind_Inr_iff)
    then show ?thesis
      using at False p lt by (simp add: hm_seek.simps [of _ pos] hm_iterate.simps [of t pos] me_pair_def d List.map_filter_simps)
  qed
qed

lemma pairs_in_list: "map_ok lim t \<Longrightarrow> pairs_in t = Inr (pair_list t)"
  using hm_iterate_from [of lim t 0] by (simp add: pairs_in_def pair_list_def)

lemma keys_seek: "hm_seek es pos = seek_value (map key_entry es) pos"
proof (induction es pos rule: hm_seek.induct)
  case (1 es pos)
  show ?case
  proof (cases "pos < length es")
    case True
    then show ?thesis using "1.IH" [of "es ! pos"] by (simp add: hm_seek.simps [of es] seek_value.simps [of "map key_entry es"])
  qed (simp add: hm_seek.simps [of es] seek_value.simps [of "map key_entry es"])
qed

lemma keys_iterate: "map_res (map fst) (hm_iterate t pos) = iterate (keys_of t) pos"
proof (induction t pos rule: hm_iterate.induct)
  case (1 t pos)
  show ?case
  proof (cases "pos = hm_end t")
    case False
    have "map_res (map fst) (rbind (at (hm_entries t) pos) (\<lambda>e. rbind (me_pair e) (\<lambda>p.
        rbind (hm_seek (hm_entries t) (Suc pos)) (\<lambda>q. rbind (hm_iterate t q) (\<lambda>ps. Inr (p # ps)))))) =
      rbind (at (map key_entry (hm_entries t)) pos) (\<lambda>e. rbind (value_of e) (\<lambda>v.
        rbind (next_pos (keys_of t) pos) (\<lambda>q. rbind (iterate (keys_of t) q) (\<lambda>vs. Inr (v # vs)))))"
    proof (rule map_res_rbind [OF map_res_at], rule map_res_rbind [OF map_res_pair], rule map_res_rbind [where h = id])
      fix e p q assume "at (hm_entries t) pos = Inr e" "me_pair e = Inr p" "hm_seek (hm_entries t) (Suc pos) = Inr q"
      note IH = "1.IH" [OF False this]
      show "map_res (map fst) (rbind (hm_iterate t q) (\<lambda>ps. Inr (p # ps))) =
          rbind (iterate (keys_of t) (id q)) (\<lambda>vs. Inr (fst p # vs))"
        by (rule map_res_rbind [where h = "map fst"]) (simp_all add: IH)
    qed (simp add: next_pos_def keys_seek)
    then show ?thesis using False by (simp add: hm_iterate.simps [of t pos] iterate.simps [of "keys_of t" pos])
  qed (simp add: hm_iterate.simps [of t "hm_end t"] iterate.simps [of "keys_of t" "hm_end t"])
qed

lemma pair_list_keys:
  assumes "map_ok lim t"
  shows "distinct (map fst (pair_list t))" and "fst ` set (pair_list t) = members (keys_of t)"
proof -
  have "table_ok lim (keys_of t)" using assms by (simp add: map_ok_def)
  from values_in_spec [OF this] obtain vs where vs: "values_in (keys_of t) = Inr vs"
    "set vs = members (keys_of t)" "distinct vs" by blast
  have "map_res (map fst) (pairs_in t) = values_in (keys_of t)"
    unfolding pairs_in_def values_in_def
    by (rule map_res_rbind [where h = id]) (simp_all add: keys_seek begin_pos_def keys_iterate)
  then have "vs = map fst (pair_list t)" using pairs_in_list [OF assms] vs(1) by simp
  then show "distinct (map fst (pair_list t))" "fst ` set (pair_list t) = members (keys_of t)"
    using vs(2,3) by simp_all
qed

lemma look_iff:
  assumes "map_ok lim t"
  shows "look t k = Some v \<longleftrightarrow> (k, v) \<in># pairs t" and "look t k = None \<longleftrightarrow> k \<notin> members (keys_of t)"
  using pair_list_keys [OF assms] mset_pair_list [of t]
  by (simp_all add: look_def map_of_eq_None_iff flip: set_mset_mset)


section \<open>What the operations do to the map\<close>

lemma look_eqI:
  assumes "map_ok lim t" and "\<And>k v. m k = Some v \<longleftrightarrow> (k, v) \<in># pairs t"
  shows "look t = m"
proof
  fix k
  have "look t k = Some v \<longleftrightarrow> m k = Some v" for v
    unfolding look_iff(1) [OF assms(1)] assms(2) ..
  then show "look t k = m k" by (metis not_None_eq)
qed

lemma hm_emplace_spec:
  assumes "map_ok lim t"
  shows "case hm_emplace lim t (k, v) of
      Inl e \<Rightarrow> e = Throws_Bad_Alloc
    | Inr (t', pos, new) \<Rightarrow> map_ok lim t' \<and> (new \<longleftrightarrow> look t k = None) \<and>
        look t' = (if new then (look t)(k \<mapsto> v) else look t) \<and> holds (entries (keys_of t')) pos k"
proof -
  have ok: "lim \<le> 2 ^ 62" "table_ok lim (keys_of t)" "shaped t" using assms by (simp_all add: map_ok_def)
  note like = keys_likeD [OF keys_emplace, of lim t "(k, v)"]
  note key = emplace_spec [OF ok(1,2), of k]
  show ?thesis
  proof (cases "hm_emplace lim t (k, v)")
    case (Inl e)
    then show ?thesis using like [symmetric] key by simp
  next
    case (Inr x)
    then obtain t' pos new where x: "hm_emplace lim t (k, v) = Inr (t', pos, new)" by (cases x) auto
    then have e: "emplace lim (keys_of t) k = Inr (keys_of t', pos, new)" using like by simp
    with key have r: "table_ok lim (keys_of t')" "members (keys_of t') = insert k (members (keys_of t))"
      "new \<longleftrightarrow> k \<notin> members (keys_of t)" "holds (entries (keys_of t')) pos k" by simp_all
    have c: "shaped t'" "pairs t' \<subseteq># add_mset (k, v) (pairs t)"
      using conservesD [OF conserves_emplace x ok(3)] by simp_all
    have ok': "map_ok lim t'" using ok(1) r(1) c(1) by (simp add: map_ok_def)
    have "look t' = (if new then (look t)(k \<mapsto> v) else look t)"
    proof (cases new)
      case True
      have "look t' = (look t)(k \<mapsto> v)"
      proof (rule look_eqI [OF ok'])
        fix k' v'
        have one: "v' = w" if "(k', v') \<in># add_mset (k, v) (pairs t)" "(k', w) \<in># add_mset (k, v) (pairs t)" for w
          using that look_iff [OF assms] True r(3) by (auto split: if_splits) (metis option.inject option.distinct(1))+
        have "(k', v') \<in># pairs t' \<longleftrightarrow> (k', v') \<in># add_mset (k, v) (pairs t)"
        proof
          assume a: "(k', v') \<in># add_mset (k, v) (pairs t)"
          then have "k' \<in> members (keys_of t')"
            unfolding r(2) using look_iff [OF assms, of k'] by auto
          then obtain w where w: "(k', w) \<in># pairs t'" using look_iff [OF ok', of k'] by fastforce
          with one [OF a mset_subset_eqD [OF c(2) w]] show "(k', v') \<in># pairs t'" by simp
        qed (rule mset_subset_eqD [OF c(2)])
        moreover have "look t k = None" using True r(3) look_iff(2) [OF assms, of k] by simp
        moreover have "(k', v') \<in># pairs t \<longleftrightarrow> look t k' = Some v'" by (rule look_iff(1) [OF assms, symmetric])
        ultimately show "((look t)(k \<mapsto> v)) k' = Some v' \<longleftrightarrow> (k', v') \<in># pairs t'" by auto
      qed
      then show ?thesis using True by simp
    next
      case False
      then have k: "k \<in> members (keys_of t)" using r(3) by simp
      obtain p d where "probe (entries (keys_of t)) k (index_for_hash (shift (keys_of t)) k) 0 = Inr (True, p, d)"
        using probe_table [OF ok(2), of k] k by auto
      then have "hm_probe (hm_entries t) k (index_for_hash (hm_shift t) k) 0 = Inr (True, p, d)"
        by (simp add: keys_probe)
      moreover have "hm_emplace lim t (k, v) =
          hm_emplace_once (hm_grow lim (hm_emplace_at lim 63)) (hm_emplace_at lim 63) t (k, v)"
        unfolding hm_emplace_def by (simp only: hm_emplace_at.simps(2) [of lim 63, simplified])
      ultimately have "hm_emplace lim t (k, v) = Inr (t, p, False)"
        by (simp only: hm_emplace_once_def pair_hash_def fst_conv rbind_simps prod.case if_True)
      then show ?thesis using x False by simp
    qed
    then show ?thesis using x ok' r(3,4) look_iff(2) [OF assms] by simp
  qed
qed

lemma holds_pair:
  assumes "map_ok lim t" and "holds (entries (keys_of t)) pos k"
  obtains v where "pos < hm_end t" "pos < length (hm_entries t)" "me_value (hm_entries t ! pos) = Some (k, v)"
    "stored (hm_entries t ! pos) = Some (k, v)" "look t k = Some v"
proof -
  have len: "length (hm_entries t) = Suc (hm_end t)" using assms(1) by (simp add: map_ok_def shaped_def)
  then have pos: "pos < hm_end t" "pos < length (hm_entries t)" using assms(2) by (simp_all add: holds_def)
  obtain v where v: "me_value (hm_entries t ! pos) = Some (k, v)" "stored (hm_entries t ! pos) = Some (k, v)"
    using assms(2) pos by (auto simp: holds_def stored_def)
  then have "(k, v) \<in># pairs t"
    using pairs_of_update [OF pos(2), of me_vacant] by (metis add.right_neutral opt_mset.simps multi_member_split
        multi_member_this stored_simps(1) union_single_eq_member add_mset_add_single)
  then have "look t k = Some v" using look_iff(1) [OF assms(1)] by simp
  with pos v that show ?thesis by blast
qed

lemma hm_find_spec:
  assumes "map_ok lim t"
  shows "\<exists>pos. hm_find t k = Inr pos \<and> (pos = hm_end t \<longleftrightarrow> look t k = None) \<and>
    (look t k \<noteq> None \<longrightarrow> holds (entries (keys_of t)) pos k)"
  using find_pos_spec [of lim "keys_of t" k] look_iff(2) [OF assms, of k] assms
  by (auto simp: map_ok_def keys_find)

lemma hm_find_pos:
  assumes "map_ok lim t"
  obtains pos where "hm_find t k = Inr pos" "pos = hm_end t \<longleftrightarrow> look t k = None"
    "look t k \<noteq> None \<longrightarrow> holds (entries (keys_of t)) pos k"
proof -
  from hm_find_spec [OF assms, of k] obtain pos where "hm_find t k = Inr pos \<and> (pos = hm_end t \<longleftrightarrow> look t k = None) \<and>
    (look t k \<noteq> None \<longrightarrow> holds (entries (keys_of t)) pos k)" ..
  then show ?thesis by (elim conjE) (rule that)
qed

lemma second_at_spec:
  assumes "map_ok lim t" and "holds (entries (keys_of t)) pos k"
  shows "second_at t pos = map_res the (Inr (look t k))" and "look t k \<noteq> None"
  by (rule holds_pair [OF assms], simp add: second_at_def me_pair_def)+

lemma at_key_spec:
  assumes "map_ok lim t"
  shows "rbind (at_key t k) (second_at t) = (case look t k of None \<Rightarrow> Inl Throws_Out_Of_Range | Some v \<Rightarrow> Inr v)"
  using hm_find_spec [OF assms, of k] second_at_spec [OF assms, of _ k]
  by (auto simp: at_key_def split: option.split)

lemma set_second_spec:
  assumes "map_ok lim t" and "holds (entries (keys_of t)) pos k"
  shows "\<exists>t'. set_second t pos v = Inr t' \<and> map_ok lim t' \<and> look t' = (look t)(k \<mapsto> v) \<and> keys_of t' = keys_of t"
proof -
  obtain w where w: "pos < hm_end t" "pos < length (hm_entries t)" "me_value (hm_entries t ! pos) = Some (k, w)"
    "stored (hm_entries t ! pos) = Some (k, w)" "look t k = Some w"
    by (rule holds_pair [OF assms])
  let ?e = "(hm_entries t ! pos)\<lparr>me_value := Some (k, v)\<rparr>"
  let ?t = "t\<lparr>hm_entries := (hm_entries t)[pos := ?e]\<rparr>"
  have r: "set_second t pos v = Inr ?t" using w by (simp add: set_second_def me_pair_def)
  have ke: "key_entry ?e = key_entry (hm_entries t ! pos)" using w(3) by (simp add: key_entry_def)
  have "(map key_entry (hm_entries t))[pos := key_entry ?e] = map key_entry (hm_entries t)"
    unfolding ke using w(2) by (metis list_update_id nth_map length_map)
  then have keys: "keys_of ?t = keys_of t" by (simp add: map_update keys_of_def)
  have ne: "hm_entries t ! pos \<noteq> me_special_end" using w(3) by auto
  then have "closed (hm_entries ?t)" using assms(1) by (simp add: map_ok_def shaped_def closed_update)
  then have ok: "map_ok lim ?t" using assms(1) keys by (simp add: map_ok_def shaped_def hm_end_def)
  have "stored ?e = Some (k, v)" using w(4) by (auto simp: stored_def me_has_value_def split: if_splits)
  then have p: "pairs ?t + {#(k, w)#} = pairs t + {#(k, v)#}"
    using pairs_of_update [OF w(2), of ?e] w(4) by simp
  have "look ?t k' = ((look t)(k \<mapsto> v)) k'" for k'
  proof (cases "k' = k")
    case True
    have "(k, v) \<in># pairs ?t"
    proof (cases "v = w")
      case True
      then have "pairs ?t = pairs t" using p by simp
      then show ?thesis using True look_iff(1) [OF assms(1), of k w] w(5) by simp
    next
      case False
      have "(k, v) \<in># pairs ?t + {#(k, w)#}" unfolding p by simp
      then show ?thesis using False by simp
    qed
    then show ?thesis using True look_iff(1) [OF ok, of k v] by simp
  next
    case False
    have "(k', x) \<in># pairs ?t + {#(k, w)#} \<longleftrightarrow> (k', x) \<in># pairs t + {#(k, v)#}" for x unfolding p ..
    then have "look ?t k' = Some x \<longleftrightarrow> look t k' = Some x" for x
      using False look_iff(1) [OF ok, of k' x] look_iff(1) [OF assms(1), of k' x] by simp
    then show ?thesis using False by (metis fun_upd_other not_None_eq)
  qed
  then have "look ?t = (look t)(k \<mapsto> v)" by (rule ext)
  with r ok keys show ?thesis by blast
qed

lemma subscript_spec:
  assumes "map_ok lim t"
  shows "case subscript lim dflt t k of
      Inl e \<Rightarrow> e = Throws_Bad_Alloc
    | Inr (t', pos) \<Rightarrow> map_ok lim t' \<and> holds (entries (keys_of t')) pos k \<and>
        look t' = (if look t k = None then (look t)(k \<mapsto> dflt) else look t)"
  using hm_emplace_spec [OF assms, of k dflt]
  by (cases "hm_emplace lim t (k, dflt)") (auto simp: subscript_def)

lemma insert_or_assign_spec:
  assumes "map_ok lim t"
  shows "case insert_or_assign lim t k v of
      Inl e \<Rightarrow> e = Throws_Bad_Alloc
    | Inr (t', pos, new) \<Rightarrow> map_ok lim t' \<and> look t' = (look t)(k \<mapsto> v) \<and> (new \<longleftrightarrow> look t k = None) \<and>
        holds (entries (keys_of t')) pos k"
proof (cases "hm_emplace lim t (k, v)")
  case (Inl e)
  then show ?thesis using hm_emplace_spec [OF assms, of k v] by (simp add: insert_or_assign_def)
next
  case (Inr x)
  then obtain t' pos new where x: "hm_emplace lim t (k, v) = Inr (t', pos, new)" by (cases x) auto
  then have r: "map_ok lim t'" "new \<longleftrightarrow> look t k = None" "look t' = (if new then (look t)(k \<mapsto> v) else look t)"
    "holds (entries (keys_of t')) pos k"
    using hm_emplace_spec [OF assms, of k v] by simp_all
  from set_second_spec [OF r(1,4), of v] obtain t2 where t2: "set_second t' pos v = Inr t2" "map_ok lim t2"
    "look t2 = (look t')(k \<mapsto> v)" "keys_of t2 = keys_of t'" by blast
  have "holds (entries (keys_of t2)) pos k" using r(4) unfolding t2(4) .
  then show ?thesis using x r t2(1-3) by (cases new) (simp_all add: insert_or_assign_def)
qed

text \<open>Erasing.\<close>

lemma keys_close_gap: "map_res (map key_entry) (hm_close_gap es cur) = close_gap (map key_entry es) cur"
proof (induction es cur rule: hm_close_gap.induct)
  case (1 es cur)
  show ?case
  proof (cases "Suc cur < length es")
    case True
    then show ?thesis
      using "1.IH" [of "es ! Suc cur"]
      by (cases "me_value (es ! Suc cur)")
         (auto simp: hm_close_gap.simps [of es] close_gap.simps [of "map key_entry es"] me_pair_def value_of_def map_update
           is_at_desired_position_def destroy_value_def)
  qed (simp add: hm_close_gap.simps [of es] close_gap.simps [of "map key_entry es"])
qed

lemma close_gap_pairs:
  assumes "hm_close_gap es cur = Inr es'" and "closed es" and "es ! cur = me_vacant"
  shows "closed es' \<and> length es' = length es \<and> pairs_of es' = pairs_of es"
  using assms
proof (induction es cur arbitrary: es' rule: hm_close_gap.induct)
  case (1 es cur)
  from "1.prems"(1) have len: "Suc cur < length es"
    by (auto simp: hm_close_gap.simps [of es cur] rbind_Inr_iff at_Inr_iff)
  then have at: "at es (Suc cur) = Inr (es ! Suc cur)" by simp
  show ?case
  proof (cases "me_distance (es ! Suc cur) \<le> 0")
    case True
    then show ?thesis using "1.prems" at by (simp add: hm_close_gap.simps [of es cur])
  next
    case False
    let ?e = "es ! Suc cur"
    let ?m = "me_emplaced (nat (me_distance ?e - 1))"
    obtain p where p: "me_pair ?e = Inr p" "hm_close_gap ((es[cur := ?m p])[Suc cur := me_vacant]) (Suc cur) = Inr es'"
      using "1.prems"(1) at False by (auto simp: hm_close_gap.simps [of es cur] rbind_Inr_iff)
    let ?es = "(es[cur := ?m p])[Suc cur := me_vacant]"
    have v: "stored ?e = Some p" "?e \<noteq> me_special_end"
      using p(1) False by (auto simp: stored_def me_pair_Inr me_has_value_def)
    have ne: "me_vacant \<noteq> (me_special_end :: 'a map_entry)" by (simp add: me_vacant_def me_special_end_def)
    then have "closed (es[cur := ?m p])" using "1.prems"(3) by (intro closed_update [OF "1.prems"(2)]) simp
    then have c: "closed ?es" by (rule closed_update) (use v(2) len in simp)
    have "pairs_of (es[cur := ?m p]) = pairs_of es + {#p#}"
      using pairs_of_update [of cur es "?m p"] len "1.prems"(3) by simp
    moreover have "pairs_of ?es + {#p#} = pairs_of (es[cur := ?m p])"
      using pairs_of_update [of "Suc cur" "es[cur := ?m p]" me_vacant] len v(1) by simp
    ultimately have "pairs_of ?es = pairs_of es" by simp
    with "1.IH" [OF at False p c] len show ?thesis by simp
  qed
qed

lemma keys_erase: "map_res (map_prod id keys_of) (hm_erase t k) = erase (keys_of t) k"
proof -
  have "map_res (map_prod id keys_of) (rbind (hm_find t k) (\<lambda>found.
      if found = hm_end t then Inr (0 :: nat, t)
      else rbind (at (hm_entries t) found) (\<lambda>e. rbind (hm_close_gap ((hm_entries t)[found := me_vacant]) found) (\<lambda>es.
        Inr (1, t\<lparr>hm_entries := es, hm_elements := hm_elements t - 1\<rparr>))))) =
    rbind (find_pos (keys_of t) k) (\<lambda>found. if found = end_pos (keys_of t) then Inr (0, keys_of t)
      else rbind (erase_at (keys_of t) found) (\<lambda>t. Inr (1, t)))"
  proof (rule map_res_rbind [where h = id])
    fix found
    have "map_res (map_prod id keys_of) (rbind (at (hm_entries t) found) (\<lambda>e.
        rbind (hm_close_gap ((hm_entries t)[found := me_vacant]) found) (\<lambda>es.
          Inr (1 :: nat, t\<lparr>hm_entries := es, hm_elements := hm_elements t - 1\<rparr>)))) =
      rbind (at (map key_entry (hm_entries t)) found) (\<lambda>e.
        rbind (close_gap ((map key_entry (hm_entries t))[found := vacant]) found) (\<lambda>es.
          Inr (1, (keys_of t)\<lparr>entries := es, num_elements := num_elements (keys_of t) - 1\<rparr>)))"
      by (rule map_res_rbind [OF map_res_at], rule map_res_rbind [where h = "map key_entry"])
         (simp_all add: keys_close_gap map_update)
    then show "map_res (map_prod id keys_of) (if found = hm_end t then Inr (0 :: nat, t)
      else rbind (at (hm_entries t) found) (\<lambda>e. rbind (hm_close_gap ((hm_entries t)[found := me_vacant]) found) (\<lambda>es.
        Inr (1, t\<lparr>hm_entries := es, hm_elements := hm_elements t - 1\<rparr>)))) =
      (if id found = end_pos (keys_of t) then Inr (0, keys_of t)
       else rbind (erase_at (keys_of t) (id found)) (\<lambda>t. Inr (1, t)))"
      by (simp add: erase_at_def destroy_value_def rbind_assoc)
  qed (simp add: keys_find)
  then show ?thesis unfolding hm_erase_def erase_def .
qed

lemma hm_erase_spec:
  assumes "map_ok lim t"
  shows "\<exists>t'. hm_erase t k = Inr (if look t k = None then 0 else 1, t') \<and> map_ok lim t' \<and> look t' = (look t)(k := None)"
proof -
  have ok: "table_ok lim (keys_of t)" "shaped t" "lim \<le> 2 ^ 62" using assms by (simp_all add: map_ok_def)
  obtain s where s: "erase (keys_of t) k = Inr (if k \<in> members (keys_of t) then 1 else 0, s)" "table_ok lim s"
    "members s = members (keys_of t) - {k}"
    using erase_spec [OF ok(1), of k] by blast
  have "map_res (map_prod id keys_of) (hm_erase t k) = Inr (if look t k = None then 0 else 1, s)"
    unfolding keys_erase s(1) using look_iff(2) [OF assms, of k] by simp
  then obtain t' where t': "hm_erase t k = Inr (if look t k = None then 0 else 1, t')" "keys_of t' = s"
    by (cases "hm_erase t k") (auto simp del: keys_of_simps)
  obtain pos where pos: "hm_find t k = Inr pos" "pos = hm_end t \<longleftrightarrow> look t k = None"
    "look t k \<noteq> None \<longrightarrow> holds (entries (keys_of t)) pos k"
    by (rule hm_find_pos [OF assms, of k])
  show ?thesis
  proof (cases "look t k")
    case None
    then have "t' = t" using t'(1) pos(1,2) by (simp add: hm_erase_def)
    moreover have "(look t)(k := None) = look t" using None by auto
    ultimately show ?thesis using t'(1) assms by auto
  next
    case (Some w)
    then have h: "holds (entries (keys_of t)) pos k" using pos(3) by simp
    obtain v where v: "pos < hm_end t" "pos < length (hm_entries t)" "me_value (hm_entries t ! pos) = Some (k, v)"
      "stored (hm_entries t ! pos) = Some (k, v)" "look t k = Some v"
      by (rule holds_pair [OF assms h])
    obtain es where es: "hm_close_gap ((hm_entries t)[pos := me_vacant]) pos = Inr es"
      "t' = t\<lparr>hm_entries := es, hm_elements := hm_elements t - 1\<rparr>"
      using t'(1) pos(1,2) v(2,5) by (auto simp: hm_erase_def rbind_Inr_iff)
    have "closed ((hm_entries t)[pos := me_vacant])"
      using ok(2) v(3) by (intro closed_update) (auto simp: shaped_def)
    from close_gap_pairs [OF es(1) this] have c: "closed es" "length es = Suc (hm_end t)"
      "pairs_of es = pairs_of ((hm_entries t)[pos := me_vacant])"
      using v(2) ok(2) by (simp_all add: shaped_def)
    have "map_ok lim t'"
      using c(1,2) ok(3) s(2) t'(2) es(2) by (simp add: map_ok_def shaped_def hm_end_def del: keys_of_update)
    moreover have "look t' k' = ((look t)(k := None)) k'" for k'
    proof (cases "k' = k")
      case True
      then show ?thesis using look_iff(2) [OF \<open>map_ok lim t'\<close>, of k] s(3) t'(2) by (simp del: keys_of_simps)
    next
      case False
      have "pairs t' + {#(k, v)#} = pairs t"
        using pairs_of_update [OF v(2), of me_vacant] c(3) v(4) es(2) by simp
      then have "(k', x) \<in># pairs t' + {#(k, v)#} \<longleftrightarrow> (k', x) \<in># pairs t" for x by simp
      then have "look t' k' = Some x \<longleftrightarrow> look t k' = Some x" for x
        using False look_iff(1) [OF \<open>map_ok lim t'\<close>, of k' x] look_iff(1) [OF assms, of k' x] by simp
      then show ?thesis using False by (metis fun_upd_other not_None_eq)
    qed
    ultimately show ?thesis using t'(1) by auto
  qed
qed

text \<open>Comparing.\<close>

lemma all_equal_spec:
  assumes "map_ok lim t"
  shows "all_equal t ps = Inr (\<forall>(k, v)\<in>set ps. look t k = Some v)"
proof (induction ps)
  case (Cons p ps)
  obtain k v where p: "p = (k, v)" by (cases p)
  obtain pos where pos: "hm_find t k = Inr pos" "pos = hm_end t \<longleftrightarrow> look t k = None"
    "look t k \<noteq> None \<longrightarrow> holds (entries (keys_of t)) pos k"
    by (rule hm_find_pos [OF assms, of k])
  show ?case
  proof (cases "look t k")
    case None
    then show ?thesis using pos p by simp
  next
    case (Some w)
    then have "second_at t pos = Inr w" using second_at_spec(1) [OF assms, of pos k] pos(3) by simp
    then show ?thesis using pos Some p Cons.IH by simp
  qed
qed simp

lemma map_eq_spec:
  assumes "map_ok lim t" and "map_ok lim' t'"
  shows "map_eq t t' = Inr (look t = look t')"
proof -
  have n: "hm_elements t = card (dom (look t))" "finite (dom (look t))" if "map_ok lim t" for lim and t :: "'a flat_hash_map"
  proof -
    have "k \<in> dom (look t) \<longleftrightarrow> k \<in> members (keys_of t)" for k
      using look_iff(2) [OF that, of k] by (simp add: domIff del: keys_of_simps)
    then have "dom (look t) = members (keys_of t)" by blast
    then show "hm_elements t = card (dom (look t))" "finite (dom (look t))"
      using size_members [of lim "keys_of t"] that by (simp_all add: map_ok_def size_of_def)
  qed
  have e: "all_equal t' (pair_list t) = Inr (look t \<subseteq>\<^sub>m look t')"
  proof -
    have "(\<forall>(k, v)\<in>set (pair_list t). look t' k = Some v) \<longleftrightarrow> (\<forall>k v. look t k = Some v \<longrightarrow> look t' k = Some v)"
      using look_iff(1) [OF assms(1)] mset_pair_list [of t] by (auto simp flip: set_mset_mset)
    also have "\<dots> \<longleftrightarrow> look t \<subseteq>\<^sub>m look t'" by (auto simp: map_le_def dom_def)
    finally show ?thesis using all_equal_spec [OF assms(2)] by simp
  qed
  show ?thesis
  proof (cases "hm_elements t = hm_elements t'")
    case True
    have "look t = look t'" if le: "look t \<subseteq>\<^sub>m look t'"
    proof -
      have "dom (look t) = dom (look t')"
        using map_le_implies_dom_le [OF le] n [OF assms(1)] n [OF assms(2)] True by (metis card_subset_eq)
      then show ?thesis using le by (metis map_le_antisym map_le_def)
    qed
    then show ?thesis using True e pairs_in_list [OF assms(1)] by (auto simp: map_eq_def)
  next
    case False
    then have "look t \<noteq> look t'" using n(1) [OF assms(1)] n(1) [OF assms(2)] by auto
    then show ?thesis using False by (simp add: map_eq_def)
  qed
qed

section \<open>The interface of a map\<close>

datatype 'v map_op =
    Put "64 word" 'v        \<comment> \<open>\<open>m.insert_or_assign(k, v)\<close>\<close>
  | Emplace "64 word" 'v    \<comment> \<open>\<open>m.emplace(k, v)\<close>\<close>
  | Touch "64 word"         \<comment> \<open>\<open>m[k]\<close>\<close>
  | Assign "64 word" 'v     \<comment> \<open>\<open>m[k] = v\<close>\<close>
  | Remove "64 word"        \<comment> \<open>\<open>m.erase(k)\<close>\<close>

fun map_op_step :: "nat \<Rightarrow> 'v \<Rightarrow> 'v map_op \<Rightarrow> 'v flat_hash_map \<Rightarrow> 'v flat_hash_map res" where
  "map_op_step lim dflt (Put k v) t = rbind (insert_or_assign lim t k v) (\<lambda>(t, _, _). Inr t)"
| "map_op_step lim dflt (Emplace k v) t = rbind (hm_emplace lim t (k, v)) (\<lambda>(t, _, _). Inr t)"
| "map_op_step lim dflt (Touch k) t = rbind (subscript lim dflt t k) (\<lambda>(t, _). Inr t)"
| "map_op_step lim dflt (Assign k v) t = rbind (subscript lim dflt t k) (\<lambda>(t, pos). set_second t pos v)"
| "map_op_step lim dflt (Remove k) t = rbind (hm_erase t k) (\<lambda>(_, t). Inr t)"

text \<open>What the operations do to a map in the mathematical sense.\<close>

fun map_op_effect :: "'v \<Rightarrow> 'v map_op \<Rightarrow> (64 word \<rightharpoonup> 'v) \<Rightarrow> (64 word \<rightharpoonup> 'v)" where
  "map_op_effect dflt (Put k v) m = m(k \<mapsto> v)"
| "map_op_effect dflt (Emplace k v) m = (if m k = None then m(k \<mapsto> v) else m)"
| "map_op_effect dflt (Touch k) m = (if m k = None then m(k \<mapsto> dflt) else m)"
| "map_op_effect dflt (Assign k v) m = m(k \<mapsto> v)"
| "map_op_effect dflt (Remove k) m = m(k := None)"

fun run_ops :: "('o \<Rightarrow> 't \<Rightarrow> 't res) \<Rightarrow> 'o list \<Rightarrow> 't \<Rightarrow> 't res" where
  "run_ops f [] t = Inr t"
| "run_ops f (c # cs) t = rbind (f c t) (run_ops f cs)"

text \<open>
  An implementation of maps: its operations have their effect on the map it stands for, it fails
  only for want of memory, and it can be read.
\<close>

locale dictionary =
  fixes ok :: "'t \<Rightarrow> bool" and lookup :: "'t \<Rightarrow> 'k \<rightharpoonup> 'v" and perform_op :: "'o \<Rightarrow> 't \<Rightarrow> 't res"
    and effect_of :: "'o \<Rightarrow> ('k \<rightharpoonup> 'v) \<Rightarrow> ('k \<rightharpoonup> 'v)" and get :: "'t \<Rightarrow> 'k \<Rightarrow> 'v res" and same :: "'t \<Rightarrow> 't \<Rightarrow> bool res"
  assumes performs: "ok t \<Longrightarrow> case perform_op c t of
      Inl e \<Rightarrow> e = Throws_Bad_Alloc | Inr t' \<Rightarrow> ok t' \<and> lookup t' = effect_of c (lookup t)"
    and gets: "ok t \<Longrightarrow> get t k = (case lookup t k of None \<Rightarrow> Inl Throws_Out_Of_Range | Some v \<Rightarrow> Inr v)"
    and compares: "ok t \<Longrightarrow> ok t' \<Longrightarrow> same t t' = Inr (lookup t = lookup t')"
begin

lemma runs:
  "ok t \<Longrightarrow> case run_ops perform_op cs t of
      Inl e \<Rightarrow> e = Throws_Bad_Alloc | Inr t' \<Rightarrow> ok t' \<and> lookup t' = fold effect_of cs (lookup t)"
proof (induction cs arbitrary: t)
  case (Cons c cs)
  note p = performs [OF Cons.prems, of c]
  show ?case
  proof (cases "perform_op c t")
    case (Inr t1)
    then show ?thesis using p Cons.IH [of t1] by (simp split: sum.splits)
  qed (use p in simp)
qed simp

text \<open>Two programs are told apart by comparing or reading exactly when their effects differ.\<close>

lemma same_programs:
  assumes "ok t" and "run_ops perform_op cs t = Inr t1" and "run_ops perform_op cs' t = Inr t2"
  shows "same t1 t2 = Inr (fold effect_of cs (lookup t) = fold effect_of cs' (lookup t))"
    and "fold effect_of cs (lookup t) = fold effect_of cs' (lookup t) \<Longrightarrow> get t1 k = get t2 k"
  using runs [OF assms(1), of cs] runs [OF assms(1), of cs'] assms(2,3) gets compares by simp_all

end

interpretation hm: dictionary "map_ok lim" look "map_op_step lim dflt" "map_op_effect dflt"
    "\<lambda>t k. rbind (at_key t k) (second_at t)" map_eq for lim :: nat and dflt :: 'v
proof
  fix t :: "'v flat_hash_map" and c :: "'v map_op" assume ok: "map_ok lim t"
  show "case map_op_step lim dflt c t of
      Inl e \<Rightarrow> e = Throws_Bad_Alloc | Inr t' \<Rightarrow> map_ok lim t' \<and> look t' = map_op_effect dflt c (look t)"
  proof (cases c)
    case (Put k v)
    then show ?thesis using insert_or_assign_spec [OF ok, of k v] by (cases "insert_or_assign lim t k v") auto
  next
    case (Emplace k v)
    then show ?thesis using hm_emplace_spec [OF ok, of k v] by (cases "hm_emplace lim t (k, v)") auto
  next
    case (Touch k)
    then show ?thesis using subscript_spec [OF ok, where dflt = dflt and k = k] by (cases "subscript lim dflt t k") auto
  next
    case (Assign k v)
    show ?thesis
    proof (cases "subscript lim dflt t k")
      case (Inl e)
      then show ?thesis using subscript_spec [OF ok, where dflt = dflt and k = k] Assign by simp
    next
      case (Inr x)
      then obtain t1 pos where x: "subscript lim dflt t k = Inr (t1, pos)" by (cases x) auto
      then have r: "map_ok lim t1" "holds (entries (keys_of t1)) pos k"
        "look t1 = (if look t k = None then (look t)(k \<mapsto> dflt) else look t)"
        using subscript_spec [OF ok, where dflt = dflt and k = k] by simp_all
      obtain t2 where "set_second t1 pos v = Inr t2" "map_ok lim t2" "look t2 = (look t1)(k \<mapsto> v)"
        using set_second_spec [OF r(1,2), of v] by blast
      then show ?thesis using x Assign r(3) by simp
    qed
  next
    case (Remove k)
    then show ?thesis using hm_erase_spec [OF ok, of k] by auto
  qed
qed (simp_all add: at_key_spec map_eq_spec)


section \<open>Properties\<close>

text \<open>
  (C17) Any program of \<open>insert_or_assign\<close>, \<open>emplace\<close>, \<open>operator[]\<close> and \<open>erase\<close> on a \<open>flat_hash_map\<close> leaves the
  map that the mathematical operations give, through displacements, growth and closed gaps, or ends
  in \<open>bad_alloc\<close>; \<open>at\<close> then returns the value of a key or throws \<open>out_of_range\<close>, a loop visits every
  pair once, and \<open>operator==\<close> compares the maps.
\<close>

theorem map_programs_correct:
  assumes "map_ok lim t"
  shows "case run_ops (map_op_step lim dflt) cs t of
      Inl e \<Rightarrow> e = Throws_Bad_Alloc
    | Inr t' \<Rightarrow> map_ok lim t' \<and> look t' = fold (map_op_effect dflt) cs (look t) \<and>
        (\<forall>k. rbind (at_key t' k) (second_at t') =
           (case look t' k of None \<Rightarrow> Inl Throws_Out_Of_Range | Some v \<Rightarrow> Inr v)) \<and>
        (\<exists>ps. pairs_in t' = Inr ps \<and> distinct (map fst ps) \<and> map_of ps = look t') \<and>
        (\<forall>u. map_ok lim u \<longrightarrow> map_eq t' u = Inr (look t' = look u))"
proof (cases "run_ops (map_op_step lim dflt) cs t")
  case (Inl e)
  then show ?thesis using hm.runs [OF assms, of dflt cs] by simp
next
  case (Inr t')
  then have ok: "map_ok lim t'" and l: "look t' = fold (map_op_effect dflt) cs (look t)"
    using hm.runs [OF assms, of dflt cs] by simp_all
  have "\<exists>ps. pairs_in t' = Inr ps \<and> distinct (map fst ps) \<and> map_of ps = look t'"
    using pairs_in_list [OF ok] pair_list_keys(1) [OF ok] by (auto simp: look_def)
  with Inr ok l hm.gets [OF ok] hm.compares [OF ok] show ?thesis by simp
qed

definition eight_slots :: "nat flat_hash_map" where
  "eight_slots =
     \<lparr>hm_entries = replicate 11 me_vacant @ [me_special_end], hm_slots_minus_one = 7, hm_shift = 61,
      hm_max_lookups = 4, hm_elements = 0\<rparr>"

lemma eight_slots_ok: "map_ok 12 eight_slots"
proof -
  have "keys_of eight_slots = fresh 3"
    by (simp add: keys_of_def eight_slots_def fresh_def)
  moreover have "sized 12 3 (fresh 3)"
    using fresh_sized [of 3 12 "fresh 3"] by (simp add: fresh_def)
  ultimately show ?thesis
    by (auto simp: map_ok_def table_ok_def shaped_def closed_def eight_slots_def hm_end_def)
qed

lemma eight_slots_emplace: "\<exists>t. hm_emplace 12 eight_slots (5, v) = Inr (t, 0, True)"
proof -
  have i: "index_for_hash 61 5 = 0" by code_simp
  have e: "hm_entries eight_slots ! 0 = me_vacant" "0 < length (hm_entries eight_slots)"
    by (simp_all add: eight_slots_def nth_append)
  have "hm_probe (hm_entries eight_slots) 5 0 0 = Inr (False, 0, 0)"
    using e by (simp add: hm_probe.simps [of _ _ 0])
  moreover have "hm_emplace 12 eight_slots (5, v) =
      hm_emplace_once (hm_grow 12 (hm_emplace_at 12 63)) (hm_emplace_at 12 63) eight_slots (5, v)"
    unfolding hm_emplace_def by (simp only: hm_emplace_at.simps(2) [of 12 63, simplified])
  ultimately show ?thesis
    using e i by (simp add: hm_emplace_once_def hm_emplace_new_key_def eight_slots_def me_is_empty_def)
qed

theorem map_programs_correct_witness:
  "\<exists>t'. run_ops (map_op_step 12 0) [Put 5 7] eight_slots = Inr t' \<and> look t' 5 = Some 7 \<and>
     rbind (at_key t' 5) (second_at t') = Inr 7"
proof -
  obtain t where t: "hm_emplace 12 eight_slots (5, 7) = Inr (t, 0, True)" using eight_slots_emplace by blast
  then have "run_ops (map_op_step 12 0) [Put 5 7] eight_slots = Inr t" by (simp add: insert_or_assign_def)
  with map_programs_correct [OF eight_slots_ok, of 0 "[Put 5 7]"] show ?thesis by simp
qed

end
