(* ===== verification/Hash_Interrupted.thy ===== *)
theory Hash_Interrupted
  imports Flat_Hash
begin

text \<open>
  What a process that is killed inside \<open>insert\<close> leaves in the shared segment: the values it has moved
  stand in the table, and the one it has in hand, on its stack, is gone.
\<close>

section \<open>The displacement loop, round by round\<close>

inductive displace_round ::
  "nat \<Rightarrow> sherwood_v3_entry list \<times> nat \<times> nat \<times> 64 word \<Rightarrow> sherwood_v3_entry list \<times> nat \<times> nat \<times> 64 word \<Rightarrow> bool"
  for ml where
  swap: "at es pos = Inr e \<Longrightarrow> \<not> is_empty e \<Longrightarrow> distance_from_desired e < int d \<Longrightarrow> value_of e = Inr v \<Longrightarrow>
    displace_round ml (es, pos, d, c) (es[pos := emplaced d c], Suc pos, Suc (nat (distance_from_desired e)), v)"
| pass: "at es pos = Inr e \<Longrightarrow> \<not> is_empty e \<Longrightarrow> \<not> distance_from_desired e < int d \<Longrightarrow> Suc d \<noteq> ml \<Longrightarrow>
    displace_round ml (es, pos, d, c) (es, Suc pos, Suc d, c)"

lemma displace_round_continues:
  assumes "displace_round ml (es, pos, d, c) (es', pos', d', c')"
  shows "displace ml es pos d c = displace ml es' pos' d' c'"
  using assms by cases (simp_all add: displace.simps [of ml es pos d c])

text \<open>The first part of \<open>emplace\<close>: the key is at its place and a value is in hand, or else nothing has to move.\<close>

definition begin_insert :: "flat_hash_set \<Rightarrow> 64 word \<Rightarrow> (sherwood_v3_entry list \<times> nat \<times> nat \<times> 64 word) option res" where
  "begin_insert t key =
     rbind (probe (entries t) key (index_for_hash (shift t) key) 0) (\<lambda>(found, pos, d).
       if found \<or> num_slots_minus_one t = 0 \<or> d = max_lookups t \<or>
         2 * (num_elements t + 1) > num_slots_minus_one t + 1
       then Inr None
       else rbind (at (entries t) pos) (\<lambda>e.
         if is_empty e then Inr None
         else rbind (value_of e) (\<lambda>v.
           Inr (Some ((entries t)[pos := emplaced d key], Suc pos, Suc (nat (distance_from_desired e)), v)))))"

lemma begin_insert_continues:
  assumes "begin_insert t key = Inr (Some (es, Suc pos, d, c))"
  shows "emplace lim t key =
    rbind (displace (max_lookups t) es (Suc pos) d c) (\<lambda>(es, rest).
      case rest of
        None \<Rightarrow> Inr (t\<lparr>entries := es, num_elements := num_elements t + 1\<rparr>, pos, True)
      | Some c \<Rightarrow>
          rbind (at es pos) (\<lambda>r. rbind (value_of r) (\<lambda>k.
          rbind (grow lim (emplace_at lim 63) (t\<lparr>entries := es[pos := r\<lparr>entry_value := Some c\<rparr>]\<rparr>)) (\<lambda>t.
            emplace_at lim 63 t k))))"
proof -
  have "emplace lim = emplace_once (grow lim (emplace_at lim 63)) (emplace_at lim 63)"
    unfolding emplace_def by (simp only: emplace_at.simps(2) [of lim 63, simplified])
  with assms show ?thesis
    by (auto simp: begin_insert_def emplace_once_def emplace_new_key_def rbind_Inr_iff split: if_splits)
qed

text \<open>The invariant of the loop.\<close>

definition in_hand :: "nat \<Rightarrow> nat \<Rightarrow> nat \<Rightarrow> sherwood_v3_entry list \<times> nat \<times> nat \<times> 64 word \<Rightarrow> bool" where
  "in_hand sh n ml = (\<lambda>(es, pos, d, c).
     laid_out sh n ml es \<and> pos = index_for_hash sh c + d \<and> d < ml \<and> 0 < d \<and>
     int d \<le> distance_from_desired (es ! (pos - 1)) + 1 \<and> c \<notin> elements es)"

lemma displace_round_keeps:
  assumes "displace_round ml (es, pos, d, c) (es', pos', d', c')" and "in_hand sh n ml (es, pos, d, c)"
  shows "in_hand sh n ml (es', pos', d', c') \<and> insert c' (elements es') = insert c (elements es) \<and>
    pos < pos' \<and> take pos es' = take pos es"
proof -
  have h: "laid_out sh n ml es" "pos = index_for_hash sh c + d" "d < ml" "0 < d"
    "int d \<le> distance_from_desired (es ! (pos - 1)) + 1" "c \<notin> elements es"
    using assms(2) unfolding in_hand_def prod.case by blast+
  have "index_for_hash sh c < n" "length es = n + ml" using h(1) by (auto simp: laid_out_def)
  then have pl: "Suc pos < length es" using h(2,3) by simp
  from h(1) pl show ?thesis
  proof (cases rule: slot_cases)
    case empty
    with assms(1) pl show ?thesis by cases (simp_all add: at_Inr_iff)
  next
    case (filled e v)
    from assms(1) show ?thesis
    proof cases
      case (swap f)
      then have f: "e < d" "c' = v" "d' = Suc e" "pos' = Suc pos" "es' = es[pos := emplaced d c]"
        using filled pl by (auto simp: at_Inr_iff)
      have prev: "0 < d \<longrightarrow> int d \<le> distance_from_desired (es ! (pos - 1)) + 1" using h(5) by simp
      note pl' = place [OF h(1,2,3) _ prev h(6)]
      have less: "distance_from_desired (es ! pos) < int d" using filled f(1) by simp
      have held: "{w. holds es pos w} = {v}" using filled by (auto simp: holds_def)
      have v: "v \<in> elements es" "v \<noteq> c" using filled h(6) by (auto simp: elements_def)
      have el: "elements es' = insert c (elements es - {v})" unfolding f(5) pl'(3) [OF less] held ..
      then have "insert c' (elements es') = insert c (elements es)" "c' \<notin> elements es'"
        using f(2) v by auto
      then show ?thesis
        using f filled(3) pl h(3) pl'(2) [OF less] by (simp add: in_hand_def)
    next
      case (pass f)
      then show ?thesis
        using filled h pl by (auto simp: in_hand_def at_Inr_iff)
    qed
  qed
qed

lemma displace_rounds_keep:
  assumes "(displace_round ml)\<^sup>*\<^sup>* (es, pos, d, c) (es', pos', d', c')" and "in_hand sh n ml (es, pos, d, c)"
  shows "in_hand sh n ml (es', pos', d', c') \<and> insert c' (elements es') = insert c (elements es) \<and>
    pos \<le> pos' \<and> take pos es' = take pos es"
  using assms
proof (induction "(es', pos', d', c')" arbitrary: es' pos' d' c' rule: rtranclp_induct)
  case (step s)
  obtain es1 pos1 d1 c1 where s: "s = (es1, pos1, d1, c1)" by (cases s)
  note k = step.hyps(3) [OF s step.prems]
  with displace_round_keeps [OF step.hyps(2) [unfolded s]]
  have r: "in_hand sh n ml (es', pos', d', c')" "insert c' (elements es') = insert c1 (elements es1)"
    "pos1 < pos'" "take pos1 es' = take pos1 es1" by blast+
  have "take pos es' = take pos (take pos1 es')" using k by (simp add: min_def)
  then show ?case using r k by (simp add: min_def)
qed simp

lemma begin_insert_in_hand:
  assumes "table_ok lim t" and "begin_insert t key = Inr (Some (es, pos, d, c))"
  obtains k where "sized lim k t" "in_hand (shift t) (slots t) (max_lookups t) (es, pos, d, c)"
    "insert c (elements es) = insert key (members t)" "key \<notin> members t" "0 < pos" "holds es (pos - 1) key"
proof -
  obtain p d0 where p: "probe (entries t) key (index_for_hash (shift t) key) 0 = Inr (key \<in> members t, p, d0)"
    "p = index_for_hash (shift t) key + d0"
    "if key \<in> members t then holds (entries t) p key
     else num_slots_minus_one t = 0 \<or>
       (d0 \<le> max_lookups t \<and> distance_from_desired (entries t ! p) < int d0 \<and>
        (0 < d0 \<longrightarrow> int d0 \<le> distance_from_desired (entries t ! (p - 1)) + 1))"
    using probe_table [OF assms(1), of key] by blast
  with assms(2) obtain e where e: "key \<notin> members t" "num_slots_minus_one t \<noteq> 0" "d0 \<noteq> max_lookups t"
    "at (entries t) p = Inr e" "\<not> is_empty e" "value_of e = Inr c"
    "es = (entries t)[p := emplaced d0 key]" "pos = Suc p" "d = Suc (nat (distance_from_desired e))"
    by (auto simp: begin_insert_def rbind_Inr_iff split: if_splits)
  then obtain k where k: "sized lim k t" using assms(1) by (auto simp: table_ok_def empty_set_table_def)
  note l = sized_laid_out [OF k]
  have d0: "d0 < max_lookups t" "distance_from_desired (entries t ! p) < int d0"
    "0 < d0 \<longrightarrow> int d0 \<le> distance_from_desired (entries t ! (p - 1)) + 1"
    using p(3) e(1,2,3) by auto
  note pl = place [OF l p(2) d0 e(1)]
  from l pl(1) obtain f where f: "e = emplaced f c" "f < max_lookups t" "p = index_for_hash (shift t) c + f"
    "holds (entries t) p c"
    using e(4,5,6) by (cases rule: slot_cases) (auto simp: at_Inr_iff)
  then have held: "{w. holds (entries t) p w} = {c}" and c: "c \<in> members t" "c \<noteq> key"
    using e(1) by (auto simp: holds_def elements_def)
  have "f < d0" using d0(2) f(1) e(4) by (simp add: at_Inr_iff)
  have "c \<notin> elements es" using c by (simp add: e(7) pl(3) held)
  moreover have "int d \<le> distance_from_desired (es ! (pos - 1)) + 1"
    using pl(1) e(7,8,9) f(1) \<open>f < d0\<close> by simp
  ultimately have "in_hand (shift t) (slots t) (max_lookups t) (es, pos, d, c)"
    using pl(2) d0(1) e(7,8,9) f(1,3) \<open>f < d0\<close> by (simp add: in_hand_def)
  moreover have "insert c (elements es) = insert key (members t)"
    using c by (auto simp: e(7) pl(3) held)
  moreover have "holds es (pos - 1) key" using pl(1) by (simp add: e(7,8) holds_update)
  ultimately show ?thesis using that k e(1,8) by simp
qed

section \<open>Properties\<close>

text \<open>
  (C15) A process killed while \<open>insert\<close> displaces values leaves a well-formed table in which the new key
  stands and a key recorded before does not: it is found to be new by the next process.
\<close>

theorem interrupted_insert_forgets:
  assumes "table_ok lim t" and "begin_insert t key = Inr (Some s)"
    and "(displace_round (max_lookups t))\<^sup>*\<^sup>* s (es, pos, d, c)"
  shows "table_ok lim (t\<lparr>entries := es\<rparr>) \<and> members (t\<lparr>entries := es\<rparr>) = insert key (members t) - {c} \<and>
    c \<in> members t \<and> find_pos (t\<lparr>entries := es\<rparr>) c = Inr (end_pos t)"
proof -
  obtain es0 pos0 d0 c0 where s: "s = (es0, pos0, d0, c0)" by (cases s)
  obtain k where k: "sized lim k t" "in_hand (shift t) (slots t) (max_lookups t) (es0, pos0, d0, c0)"
    "insert c0 (elements es0) = insert key (members t)" "key \<notin> members t" "0 < pos0" "holds es0 (pos0 - 1) key"
    by (rule begin_insert_in_hand [OF assms(1) assms(2) [unfolded s]])
  have r: "in_hand (shift t) (slots t) (max_lookups t) (es, pos, d, c)"
    "insert c (elements es) = insert key (members t)" "take pos0 es = take pos0 es0"
    using displace_rounds_keep [OF assms(3) [unfolded s] k(2)] k(3) by simp_all
  then have l: "laid_out (shift t) (slots t) (max_lookups t) es" and c: "c \<notin> elements es"
    by (simp_all add: in_hand_def)
  have "length es = length es0" using l k(2) by (simp add: in_hand_def laid_out_def)
  moreover have "es ! (pos0 - 1) = es0 ! (pos0 - 1)"
    using arg_cong [OF r(3), of "\<lambda>xs. xs ! (pos0 - 1)"] k(5) by simp
  ultimately have "holds es (pos0 - 1) key" using k(6) by (simp add: holds_def)
  then have "key \<noteq> c" using c by (auto simp: elements_def)
  have m: "elements es = insert key (members t) - {c}" unfolding r(2) [symmetric] using c by simp
  have mem: "c \<in> members t" using equalityD1 [OF r(2)] \<open>key \<noteq> c\<close> by blast
  have "finite (members t)" by (rule elements_finite)
  then have "card (elements es) = card (members t)"
    unfolding m using mem k(4) by (simp add: card_Suc_Diff1)
  then have "sized lim k (t\<lparr>entries := es\<rparr>)"
    using k(1) l by (simp add: sized_def)
  then have ok: "table_ok lim (t\<lparr>entries := es\<rparr>)" by (auto simp: table_ok_def)
  have "c \<notin> members (t\<lparr>entries := es\<rparr>)" using c by simp
  then have "find_pos (t\<lparr>entries := es\<rparr>) c = Inr (end_pos (t\<lparr>entries := es\<rparr>))"
    using find_pos_spec [OF ok, of c] by blast
  moreover have "end_pos (t\<lparr>entries := es\<rparr>) = end_pos t" by (simp add: end_pos_def)
  ultimately have f: "find_pos (t\<lparr>entries := es\<rparr>) c = Inr (end_pos t)" by simp
  have "members (t\<lparr>entries := es\<rparr>) = insert key (members t) - {c}" unfolding m [symmetric] by simp
  with ok mem f show ?thesis by (intro conjI)
qed

text \<open>A table of eight slots, where the keys 0 and 5 want the first and the key 2 the second.\<close>

lemma sized_put:
  assumes "sized lim k t" and "key \<notin> members t" and "p = index_for_hash (shift t) key"
    and "entries t ! p = vacant" and "2 * (num_elements t + 1) \<le> slots t"
  shows "sized lim k (t\<lparr>entries := (entries t)[p := emplaced 0 key], num_elements := num_elements t + 1\<rparr>)"
    and "elements ((entries t)[p := emplaced 0 key]) = insert key (members t)"
proof -
  note l = sized_laid_out [OF assms(1)]
  have "0 < max_lookups t" using l by (simp add: laid_out_def)
  note pl = place [OF l _ this _ _ assms(2), of p]
  have "\<not> holds (entries t) p v" for v using assms(4) by (simp add: holds_def has_value_def vacant_def)
  then show el: "elements ((entries t)[p := emplaced 0 key]) = insert key (members t)"
    using pl(3) assms(3,4) by (simp add: vacant_def)
  show "sized lim k (t\<lparr>entries := (entries t)[p := emplaced 0 key], num_elements := num_elements t + 1\<rparr>)"
    using pl(2) assms(3,4) by (intro sized_add [OF assms(1) _ el assms(2,5)]) (simp add: vacant_def)
qed

definition crowded :: flat_hash_set where
  "crowded =
     \<lparr>entries = emplaced 0 0 # emplaced 0 2 # replicate 9 vacant @ [special_end], num_slots_minus_one = 7,
      shift = 61, max_lookups = 4, num_elements = 2\<rparr>"

lemma crowded_ok: "table_ok 12 crowded" "members crowded = {0, 2}"
proof -
  have i: "index_for_hash 61 0 = 0" "index_for_hash 61 2 = 1" by code_simp+
  have f: "fresh 3 = \<lparr>entries = vacant # vacant # replicate 9 vacant @ [special_end], num_slots_minus_one = 7,
      shift = 61, max_lookups = 4, num_elements = 0\<rparr>"
    by (simp add: fresh_def) (simp add: eval_nat_numeral)
  have s: "sized 12 3 (fresh 3)" "members (fresh 3) = {}"
    using fresh_sized [of 3 12 "fresh 3"] by (simp_all add: fresh_def)
  define t where "t = (fresh 3)\<lparr>entries := (entries (fresh 3))[0 := emplaced 0 0], num_elements := 1\<rparr>"
  have t: "sized 12 3 t" "members t = {0}"
    using sized_put [OF s(1), of 0 0] s(2) i by (simp_all add: t_def f)
  have c: "crowded = t\<lparr>entries := (entries t)[1 := emplaced 0 2], num_elements := num_elements t + 1\<rparr>"
    by (simp add: crowded_def t_def f)
  have "2 \<notin> members t" "index_for_hash (shift t) 2 = 1" "entries t ! 1 = vacant" "2 * (num_elements t + 1) \<le> slots t"
    using i by (simp_all add: t(2)) (simp_all add: t_def f)
  from sized_put [OF t(1) this(1) this(2) [symmetric] this(3,4)]
  have "sized 12 3 crowded" "members crowded = insert 2 (members t)" unfolding c by simp_all
  then show "table_ok 12 crowded" "members crowded = {0, 2}" using t(2) by (auto simp: table_ok_def)
qed

lemma crowded_begins:
  "begin_insert crowded 5 =
     Inr (Some (emplaced 0 0 # emplaced 1 5 # replicate 9 vacant @ [special_end], 2, 1, 2))"
proof -
  have i: "index_for_hash 61 5 = 0" by code_simp
  show ?thesis
    by (simp add: begin_insert_def crowded_def i probe.simps [of _ _ 0] probe.simps [of _ _ "Suc 0"] at_def is_empty_def)
qed

theorem interrupted_insert_forgets_witness:
  "\<exists>t es pos d. begin_insert t 5 = Inr (Some (es, pos, d, 2)) \<and> table_ok 12 t \<and>
     members (t\<lparr>entries := es\<rparr>) = {0, 5} \<and> 2 \<in> members t"
proof -
  from interrupted_insert_forgets [OF crowded_ok(1) crowded_begins rtranclp.rtrancl_refl] crowded_begins crowded_ok
  show ?thesis by (intro exI [of _ crowded]) auto
qed

end
