(* ===== verification/Hash_Policies.thy ===== *)
theory Hash_Policies
  imports Flat_Hash_Ops
begin

text \<open>
  The two hash policies of \<^verbatim>\<open>flat_hash_map.hpp\<close> that a hash function can ask for instead of the
  default one: prime numbers of slots, with a function per prime so that the compiler can turn the
  division into multiplications, and powers of two.
\<close>

section \<open>Prime numbers\<close>

definition mod0 :: "64 word \<Rightarrow> 64 word" where
  "mod0 h = 0"

text \<open>The functions \<open>mod2\<close>, \<open>mod3\<close>, ..., one for each prime.\<close>

definition mod_by :: "64 word \<Rightarrow> 64 word \<Rightarrow> 64 word" where
  "mod_by p h = h mod p"

definition prime_list :: "64 word list" where
  "prime_list =
    [
     2, 3, 5, 7, 11, 13, 17, 23, 29, 37, 47, 59, 73, 97, 127, 151, 197, 251, 313, 397, 499,
     631, 797, 1009, 1259, 1597, 2011, 2539, 3203, 4027, 5087, 6421, 8089, 10193, 12853, 16193,
     20399, 25717, 32401, 40823, 51437, 64811, 81649, 102877, 129607, 163307, 205759, 259229,
     326617, 411527, 518509, 653267, 823117, 1037059, 1306601, 1646237, 2074129, 2613229,
     3292489, 4148279, 5226491, 6584983, 8296553, 10453007, 13169977, 16593127, 20906033,
     26339969, 33186281, 41812097, 52679969, 66372617, 83624237, 105359939, 132745199,
     167248483, 210719881, 265490441, 334496971, 421439783, 530980861, 668993977, 842879579,
     1061961721, 1337987929, 1685759167, 2123923447, 2675975881, 3371518343, 4247846927,
     5351951779, 6743036717, 8495693897, 10703903591, 13486073473, 16991387857, 21407807219,
     26972146961, 33982775741, 42815614441, 53944293929, 67965551447, 85631228929,
     107888587883, 135931102921, 171262457903, 215777175787, 271862205833, 342524915839,
     431554351609, 543724411781, 685049831731, 863108703229, 1087448823553, 1370099663459,
     1726217406467, 2174897647073, 2740199326961, 3452434812973, 4349795294267, 5480398654009,
     6904869625999, 8699590588571, 10960797308051, 13809739252051, 17399181177241,
     21921594616111, 27619478504183, 34798362354533, 43843189232363, 55238957008387,
     69596724709081, 87686378464759, 110477914016779, 139193449418173, 175372756929481,
     220955828033581, 278386898836457, 350745513859007, 441911656067171, 556773797672909,
     701491027718027, 883823312134381, 1113547595345903, 1402982055436147, 1767646624268779,
     2227095190691797, 2805964110872297, 3535293248537579, 4454190381383713, 5611928221744609,
     7070586497075177, 8908380762767489, 11223856443489329, 14141172994150357,
     17816761525534927, 22447712886978529, 28282345988300791, 35633523051069991,
     44895425773957261, 56564691976601587, 71267046102139967, 89790851547914507,
     113129383953203213, 142534092204280003, 179581703095829107, 226258767906406483,
     285068184408560057, 359163406191658253, 452517535812813007, 570136368817120201,
     718326812383316683, 905035071625626043, 1140272737634240411, 1436653624766633509,
     1810070143251252131, 2280545475268481167, 2873307249533267101, 3620140286502504283,
     4561090950536962147, 5746614499066534157, 7240280573005008577, 9122181901073924329,
     11493228998133068689, 14480561146010017169, 18446744073709551557]"

definition mod_functions :: "(64 word \<Rightarrow> 64 word) list" where
  "mod_functions =
    [
     mod0, mod_by 2, mod_by 3, mod_by 5, mod_by 7, mod_by 11, mod_by 13, mod_by 17, mod_by 23,
     mod_by 29, mod_by 37, mod_by 47, mod_by 59, mod_by 73, mod_by 97, mod_by 127, mod_by 151,
     mod_by 197, mod_by 251, mod_by 313, mod_by 397, mod_by 499, mod_by 631, mod_by 797,
     mod_by 1009, mod_by 1259, mod_by 1597, mod_by 2011, mod_by 2539, mod_by 3203, mod_by 4027,
     mod_by 5087, mod_by 6421, mod_by 8089, mod_by 10193, mod_by 12853, mod_by 16193,
     mod_by 20399, mod_by 25717, mod_by 32401, mod_by 40823, mod_by 51437, mod_by 64811,
     mod_by 81649, mod_by 102877, mod_by 129607, mod_by 163307, mod_by 205759, mod_by 259229,
     mod_by 326617, mod_by 411527, mod_by 518509, mod_by 653267, mod_by 823117, mod_by 1037059,
     mod_by 1306601, mod_by 1646237, mod_by 2074129, mod_by 2613229, mod_by 3292489,
     mod_by 4148279, mod_by 5226491, mod_by 6584983, mod_by 8296553, mod_by 10453007,
     mod_by 13169977, mod_by 16593127, mod_by 20906033, mod_by 26339969, mod_by 33186281,
     mod_by 41812097, mod_by 52679969, mod_by 66372617, mod_by 83624237, mod_by 105359939,
     mod_by 132745199, mod_by 167248483, mod_by 210719881, mod_by 265490441, mod_by 334496971,
     mod_by 421439783, mod_by 530980861, mod_by 668993977, mod_by 842879579, mod_by 1061961721,
     mod_by 1337987929, mod_by 1685759167, mod_by 2123923447, mod_by 2675975881,
     mod_by 3371518343, mod_by 4247846927, mod_by 5351951779, mod_by 6743036717,
     mod_by 8495693897, mod_by 10703903591, mod_by 13486073473, mod_by 16991387857,
     mod_by 21407807219, mod_by 26972146961, mod_by 33982775741, mod_by 42815614441,
     mod_by 53944293929, mod_by 67965551447, mod_by 85631228929, mod_by 107888587883,
     mod_by 135931102921, mod_by 171262457903, mod_by 215777175787, mod_by 271862205833,
     mod_by 342524915839, mod_by 431554351609, mod_by 543724411781, mod_by 685049831731,
     mod_by 863108703229, mod_by 1087448823553, mod_by 1370099663459, mod_by 1726217406467,
     mod_by 2174897647073, mod_by 2740199326961, mod_by 3452434812973, mod_by 4349795294267,
     mod_by 5480398654009, mod_by 6904869625999, mod_by 8699590588571, mod_by 10960797308051,
     mod_by 13809739252051, mod_by 17399181177241, mod_by 21921594616111,
     mod_by 27619478504183, mod_by 34798362354533, mod_by 43843189232363,
     mod_by 55238957008387, mod_by 69596724709081, mod_by 87686378464759,
     mod_by 110477914016779, mod_by 139193449418173, mod_by 175372756929481,
     mod_by 220955828033581, mod_by 278386898836457, mod_by 350745513859007,
     mod_by 441911656067171, mod_by 556773797672909, mod_by 701491027718027,
     mod_by 883823312134381, mod_by 1113547595345903, mod_by 1402982055436147,
     mod_by 1767646624268779, mod_by 2227095190691797, mod_by 2805964110872297,
     mod_by 3535293248537579, mod_by 4454190381383713, mod_by 5611928221744609,
     mod_by 7070586497075177, mod_by 8908380762767489, mod_by 11223856443489329,
     mod_by 14141172994150357, mod_by 17816761525534927, mod_by 22447712886978529,
     mod_by 28282345988300791, mod_by 35633523051069991, mod_by 44895425773957261,
     mod_by 56564691976601587, mod_by 71267046102139967, mod_by 89790851547914507,
     mod_by 113129383953203213, mod_by 142534092204280003, mod_by 179581703095829107,
     mod_by 226258767906406483, mod_by 285068184408560057, mod_by 359163406191658253,
     mod_by 452517535812813007, mod_by 570136368817120201, mod_by 718326812383316683,
     mod_by 905035071625626043, mod_by 1140272737634240411, mod_by 1436653624766633509,
     mod_by 1810070143251252131, mod_by 2280545475268481167, mod_by 2873307249533267101,
     mod_by 3620140286502504283, mod_by 4561090950536962147, mod_by 5746614499066534157,
     mod_by 7240280573005008577, mod_by 9122181901073924329, mod_by 11493228998133068689,
     mod_by 14480561146010017169, mod_by 18446744073709551557]"

text \<open>
  \<open>std::lower_bound\<close> over all primes but the last gives the first that is not less than \<open>sz\<close>,
  or the last.
\<close>

definition lower_bound :: "64 word list \<Rightarrow> 64 word \<Rightarrow> nat" where
  "lower_bound ps x = length (takeWhile (\<lambda>p. p < x) ps)"

definition next_size_over_prime :: "64 word \<Rightarrow> 64 word \<times> (64 word \<Rightarrow> 64 word)" where
  "next_size_over_prime sz =
     (let found = lower_bound (butlast prime_list) sz
      in (prime_list ! found, mod_functions ! (1 + found)))"

text \<open>The state of the policy is the function it was last committed to.\<close>

record prime_number_hash_policy =
  current_mod_function :: "64 word \<Rightarrow> 64 word"

definition prime_policy :: prime_number_hash_policy where
  "prime_policy = \<lparr>current_mod_function = mod0\<rparr>"

definition commit_prime ::
  "prime_number_hash_policy \<Rightarrow> (64 word \<Rightarrow> 64 word) \<Rightarrow> prime_number_hash_policy" where
  "commit_prime policy new_mod_function = policy\<lparr>current_mod_function := new_mod_function\<rparr>"

definition reset_prime :: "prime_number_hash_policy \<Rightarrow> prime_number_hash_policy" where
  "reset_prime policy = policy\<lparr>current_mod_function := mod0\<rparr>"

definition index_for_hash_prime :: "prime_number_hash_policy \<Rightarrow> 64 word \<Rightarrow> 64 word \<Rightarrow> 64 word" where
  "index_for_hash_prime policy h last_slot = current_mod_function policy h"

definition keep_in_range_prime :: "prime_number_hash_policy \<Rightarrow> 64 word \<Rightarrow> 64 word \<Rightarrow> 64 word" where
  "keep_in_range_prime policy index last_slot =
     (if last_slot < index then current_mod_function policy index else index)"

section \<open>Powers of two\<close>

definition index_for_hash_pow2 :: "64 word \<Rightarrow> 64 word \<Rightarrow> 64 word" where
  "index_for_hash_pow2 h last_slot = h AND last_slot"

definition keep_in_range_pow2 :: "64 word \<Rightarrow> 64 word \<Rightarrow> 64 word" where
  "keep_in_range_pow2 index last_slot = index_for_hash_pow2 index last_slot"

definition next_size_over_pow2 :: "64 word \<Rightarrow> 64 word \<times> nat" where
  "next_size_over_pow2 sz = (next_power_of_two sz, 0)"

section \<open>Fibonacci\<close>

text \<open>\<open>index_for_hash\<close> and \<open>next_size_over\<close> of this policy are in \<open>Flat_Hash\<close>; the policy is its \<open>shift\<close>.\<close>

definition keep_in_range_fib :: "64 word \<Rightarrow> 64 word \<Rightarrow> 64 word" where
  "keep_in_range_fib index last_slot = index AND last_slot"

definition commit_fib :: "nat \<Rightarrow> nat \<Rightarrow> nat" where
  "commit_fib policy new_shift = new_shift"

definition reset_fib :: "nat \<Rightarrow> nat" where
  "reset_fib policy = 63"

lemma keep_in_range_fib_spec:
  assumes "k \<le> 64"
  shows "keep_in_range_fib i (mask k) \<le> mask k" and "i \<le> mask k \<Longrightarrow> keep_in_range_fib i (mask k) = i"
proof -
  show "keep_in_range_fib i (mask k) \<le> mask k" by (simp add: keep_in_range_fib_def word_and_le1)
  show "keep_in_range_fib i (mask k) = i" if "i \<le> mask k"
  proof -
    have "uint i \<le> mask k" using that assms by (simp add: word_le_def uint_mask_eq min_def)
    then show ?thesis unfolding keep_in_range_fib_def mask_eq_iff by (simp add: mask_eq_exp_minus_1)
  qed
qed

section \<open>The primes\<close>

lemma mod_functions_primes: "mod_functions = mod0 # map mod_by prime_list"
  by (simp only: mod_functions_def prime_list_def list.map)

lemma prime_list_increasing: "sorted_wrt (<) prime_list"
  by (simp add: prime_list_def sorted_wrt2_simps del: sorted_wrt.simps)

lemma prime_list_not_empty: "prime_list \<noteq> []" and prime_list_hd: "hd prime_list = 2"
  and prime_list_last: "last prime_list = 18446744073709551557"
  by (simp_all add: prime_list_def)

lemma prime_list_at_least_2:
  assumes "p \<in> set prime_list"
  shows "2 \<le> p"
proof -
  have "prime_list = 2 # tl prime_list"
    using prime_list_not_empty prime_list_hd by (metis list.collapse)
  with prime_list_increasing have "sorted_wrt (<) (2 # tl prime_list)" by simp
  moreover from \<open>prime_list = 2 # tl prime_list\<close> assms have "p = 2 \<or> p \<in> set (tl prime_list)"
    by (metis set_ConsD)
  ultimately show ?thesis by auto
qed

lemma lower_bound_butlast:
  assumes "ps \<noteq> []" and k_def: "k = lower_bound (butlast ps) x"
  shows "k < length ps" and "\<And>i. i < k \<Longrightarrow> ps ! i < x" and "k < length ps - 1 \<Longrightarrow> x \<le> ps ! k"
proof -
  have "k \<le> length (butlast ps)"
    unfolding k_def lower_bound_def by (rule length_takeWhile_le)
  with assms(1) show less: "k < length ps" by (simp add: le_diff_conv2 Suc_le_eq [symmetric] flip: length_greater_0_conv)
  show "ps ! i < x" if "i < k" for i
  proof -
    have "takeWhile (\<lambda>p. p < x) (butlast ps) ! i < x"
      using that by (auto simp: k_def lower_bound_def dest: nth_mem set_takeWhileD)
    moreover have "takeWhile (\<lambda>p. p < x) (butlast ps) ! i = ps ! i"
      using that less by (simp add: takeWhile_nth nth_butlast k_def lower_bound_def)
    ultimately show ?thesis by simp
  qed
  show "x \<le> ps ! k" if "k < length ps - 1"
    using nth_length_takeWhile [of "\<lambda>p. p < x" "butlast ps"] that
    by (simp add: nth_butlast k_def lower_bound_def not_less)
qed

text \<open>The size found, and the function that goes with it.\<close>

lemma next_size_over_prime_spec:
  assumes "next_size_over_prime sz = (p, f)"
  shows "f = mod_by p" and "p \<in> set prime_list" and "sz \<le> last prime_list \<Longrightarrow> sz \<le> p"
    and "q \<in> set prime_list \<Longrightarrow> sz \<le> q \<Longrightarrow> p \<le> q"
proof -
  let ?k = "lower_bound (butlast prime_list) sz"
  note bound = lower_bound_butlast [OF prime_list_not_empty refl, where x = sz]
  from assms have p: "p = prime_list ! ?k" and f: "f = mod_functions ! (1 + ?k)"
    by (simp_all add: next_size_over_prime_def Let_def)
  show "f = mod_by p" using f p bound(1) by (simp add: mod_functions_primes)
  show "p \<in> set prime_list" using p bound(1) by simp
  show "sz \<le> p" if "sz \<le> last prime_list"
  proof (cases "?k < length prime_list - 1")
    case True
    then show ?thesis using bound(3) p by simp
  next
    case False
    with bound(1) have "?k = length prime_list - 1" by simp
    with p that show ?thesis by (simp add: last_conv_nth prime_list_not_empty)
  qed
  show "p \<le> q" if asm: "q \<in> set prime_list" "sz \<le> q"
  proof -
    from asm(1) obtain j where j: "j < length prime_list" "q = prime_list ! j"
      by (metis in_set_conv_nth)
    with bound(2) [of j] asm(2) have "?k \<le> j" by (meson not_le)
    with j p show ?thesis
      using prime_list_increasing by (cases "?k = j") (auto simp: sorted_wrt_iff_nth_less less_imp_le)
  qed
qed

lemma mod_by_less:
  assumes "p \<in> set prime_list"
  shows "mod_by p h < p"
proof -
  from prime_list_at_least_2 [OF assms] have "p \<noteq> 0" by auto
  then show ?thesis by (simp add: mod_by_def word_mod_less_divisor word_gt_0)
qed

section \<open>Properties\<close>

text \<open>
  (C39) The prime policy takes the least listed prime that is not less than the size asked for, for
  every size up to the largest 64-bit prime; the function it commits to keeps every hash and every
  index inside the table, and leaves indices alone that are already inside.
\<close>

theorem prime_policy_correct:
  assumes "next_size_over_prime sz = (p, f)"
  shows "p \<in> set prime_list \<and> (sz \<le> last prime_list \<longrightarrow> sz \<le> p) \<and>
    (\<forall>q\<in>set prime_list. sz \<le> q \<longrightarrow> p \<le> q) \<and>
    index_for_hash_prime (commit_prime policy f) h (p - 1) < p \<and>
    keep_in_range_prime (commit_prime policy f) h (p - 1) < p \<and>
    (h < p \<longrightarrow> keep_in_range_prime (commit_prime policy f) h (p - 1) = h)"
proof -
  note spec = next_size_over_prime_spec [OF assms]
  have "f h < p" using spec(1,2) by (simp add: mod_by_less)
  moreover have "p - 1 < h \<longleftrightarrow> \<not> h < p"
    using prime_list_at_least_2 [OF spec(2)] by (simp add: word_less_nat_alt unat_sub_if_size word_le_nat_alt word_size) arith
  ultimately show ?thesis
    using spec by (simp add: index_for_hash_prime_def keep_in_range_prime_def commit_prime_def)
qed

theorem prime_policy_correct_witness:
  "fst (next_size_over_prime 1000) = 1009 \<and>
   index_for_hash_prime (commit_prime prime_policy (snd (next_size_over_prime 1000))) 12345 1008 < 1009"
proof -
  obtain p f where pf: "next_size_over_prime 1000 = (p, f)" by (meson surj_pair)
  have "1009 \<in> set prime_list" by (simp add: prime_list_def)
  moreover have "\<forall>q\<in>set prime_list. 1000 \<le> q \<longrightarrow> 1009 \<le> q" by (simp add: prime_list_def)
  ultimately have "p = 1009"
    using prime_policy_correct [OF pf, of prime_policy 12345] prime_list_last by (auto intro: antisym)
  with pf prime_policy_correct [OF pf, of prime_policy 12345] show ?thesis by simp
qed

end
