(* ===== verification/Floats.thy ===== *)
theory Floats
  imports Prelude
begin

text \<open>
  \<open>represent_float\<close> and \<open>normalize_float\<close> of \<^verbatim>\<open>src/src/utils.cpp\<close>.

  \<open>normalize_float\<close> is \<open>fmt::format("{:.18f}", std::stof(s))\<close> with characters removed from
  its end.  \<open>std::stof\<close> is modelled by what the standard says of it: the longest prefix
  that is a decimal or hexadecimal number, an infinity or a NaN, as the nearest binary32
  number (ties to even); it throws \<open>std::invalid_argument\<close> when there is none and
  \<open>std::out_of_range\<close> when the number overflows, or is inexact below the normal range.  The
  format prints the exact value of the binary32 number rounded to 18 decimals.
\<close>

section \<open>Digits\<close>

definition isdigit :: "char \<Rightarrow> bool" where
  "isdigit c \<longleftrightarrow> 48 \<le> (of_char c :: nat) \<and> (of_char c :: nat) \<le> 57"

definition dec_val :: "char \<Rightarrow> nat" where
  "dec_val c = of_char c - 48"

definition digit_char :: "nat \<Rightarrow> char" where
  "digit_char d = char_of (48 + d)"

definition digits_val :: "string \<Rightarrow> nat" where
  "digits_val s = foldl (\<lambda>n c. 10 * n + dec_val c) 0 s"

text \<open>The last \<open>k\<close> decimal digits of a number, and all of them.\<close>

fun fixed_digits :: "nat \<Rightarrow> nat \<Rightarrow> string" where
  "fixed_digits 0 n = []"
| "fixed_digits (Suc k) n = fixed_digits k (n div 10) @ [digit_char (n mod 10)]"

fun show_nat :: "nat \<Rightarrow> string" where
  "show_nat n = (if n < 10 then [digit_char n] else show_nat (n div 10) @ [digit_char (n mod 10)])"

declare show_nat.simps [simp del]

section \<open>\<open>std::stof\<close>\<close>

datatype float32 =
    Finite bool nat int     \<comment> \<open>sign, significand \<open>q\<close> and exponent \<open>e\<close>: \<open>q * 2 ^ e\<close>\<close>
  | Infinite bool
  | Not_A_Number bool

definition isspace :: "char \<Rightarrow> bool" where
  "isspace c \<longleftrightarrow> c = CHR '' '' \<or> 9 \<le> (of_char c :: nat) \<and> (of_char c :: nat) \<le> 13"

definition lower :: "char \<Rightarrow> char" where
  "lower c = (if 65 \<le> (of_char c :: nat) \<and> (of_char c :: nat) \<le> 90 then char_of ((of_char c :: nat) + 32) else c)"

definition isxdigit :: "char \<Rightarrow> bool" where
  "isxdigit c \<longleftrightarrow> isdigit c \<or> 97 \<le> (of_char (lower c) :: nat) \<and> (of_char (lower c) :: nat) \<le> 102"

definition hex_val :: "char \<Rightarrow> nat" where
  "hex_val c = (if isdigit c then dec_val c else of_char (lower c) - 87)"

definition sign_of :: "string \<Rightarrow> bool \<times> string" where
  "sign_of s =
     (case s of
        c # s' \<Rightarrow> if c = CHR ''-'' then (True, s') else if c = CHR ''+'' then (False, s') else (False, s)
      | [] \<Rightarrow> (False, s))"

text \<open>An exponent that starts with the letter \<open>mark\<close>; without digits it is not one.\<close>

definition exponent_of :: "char \<Rightarrow> string \<Rightarrow> int" where
  "exponent_of mark s =
     (case s of
        c # s' \<Rightarrow>
          if lower c = mark
          then let (neg, s'') = sign_of s'; ds = takeWhile isdigit s''
               in if neg then - int (digits_val ds) else int (digits_val ds)
          else 0
      | [] \<Rightarrow> 0)"

text \<open>
  Digits with at most one point: their number as an integer, how many stand after the
  point, and the rest of the text; \<open>None\<close> without digits.
\<close>

definition mantissa_of :: "(char \<Rightarrow> bool) \<Rightarrow> (char \<Rightarrow> nat) \<Rightarrow> nat \<Rightarrow> string \<Rightarrow> (nat \<times> nat \<times> string) option" where
  "mantissa_of P val b s =
     (let ds = takeWhile P s; s1 = dropWhile P s;
          (fs, s2) = (case s1 of
              c # s' \<Rightarrow> if c = CHR ''.'' then (takeWhile P s', dropWhile P s') else ([], s1)
            | [] \<Rightarrow> ([], s1))
      in if ds @ fs = [] then None
         else Some (foldl (\<lambda>n c. b * n + val c) 0 (ds @ fs), length fs, s2))"

definition ratio :: "nat \<Rightarrow> nat \<Rightarrow> int \<Rightarrow> nat \<times> nat" where
  "ratio m b e = (if 0 \<le> e then (m * b ^ nat e, 1) else (m, b ^ nat (- e)))"

fun bit_len :: "nat \<Rightarrow> nat" where
  "bit_len n = (if n = 0 then 0 else Suc (bit_len (n div 2)))"

declare bit_len.simps [simp del]

definition round_half_even :: "nat \<Rightarrow> nat \<Rightarrow> nat" where
  "round_half_even n d =
     (let q = n div d; r = n mod d in if d < 2 * r \<or> (2 * r = d \<and> odd q) then q + 1 else q)"

text \<open>\<open>n / d\<close> in units of \<open>2 ^ e\<close>, as a fraction.\<close>

definition scaled :: "nat \<Rightarrow> nat \<Rightarrow> int \<Rightarrow> nat \<times> nat" where
  "scaled n d e = (if 0 \<le> e then (n, d * 2 ^ nat e) else (n * 2 ^ nat (- e), d))"

text \<open>The binary32 number nearest to \<open>n / d\<close>.\<close>

definition to_float32 :: "bool \<Rightarrow> nat \<Rightarrow> nat \<Rightarrow> float32 res" where
  "to_float32 neg n d =
     (if n = 0 then Inr (Finite neg 0 0)
      else
        (let l = int (bit_len n) - int (bit_len d);
             l = (let (n', d') = scaled n d l in if d' \<le> n' then l else l - 1);
             e = max (-149) (l - 23);
             (n', d') = scaled n d e;
             q = round_half_even n' d'
         in if e > 104 \<or> (e = 104 \<and> q = 2 ^ 24) then Inl Throws_Out_Of_Range
            else if q < 2 ^ 23 \<and> n' mod d' \<noteq> 0 then Inl Throws_Out_Of_Range
            else Inr (Finite neg q e)))"

definition starts_with_lower :: "string \<Rightarrow> string \<Rightarrow> bool" where
  "starts_with_lower p s \<longleftrightarrow> map lower (take (length p) s) = p"

definition stof :: "string \<Rightarrow> float32 res" where
  "stof str =
     (let (neg, s) = sign_of (dropWhile isspace str) in
      case (if starts_with_lower ''0x'' s then mantissa_of isxdigit hex_val 16 (drop 2 s) else None) of
        Some (m, k, s') \<Rightarrow>
          let (n, d) = ratio m 2 (exponent_of (CHR ''p'') s' - 4 * int k) in to_float32 neg n d
      | None \<Rightarrow>
          (case mantissa_of isdigit dec_val 10 s of
             Some (m, k, s') \<Rightarrow>
               let (n, d) = ratio m 10 (exponent_of (CHR ''e'') s' - int k) in to_float32 neg n d
           | None \<Rightarrow>
               if starts_with_lower ''inf'' s then Inr (Infinite neg)
               else if starts_with_lower ''nan'' s then Inr (Not_A_Number neg)
               else Inl Throws_Invalid_Argument))"

section \<open>\<open>normalize_float\<close>\<close>

definition sign_text :: "bool \<Rightarrow> string" where
  "sign_text neg = (if neg then ''-'' else [])"

text \<open>\<open>q * 2 ^ e\<close> in units of \<open>10 ^ -18\<close>, rounded.\<close>

definition units18 :: "nat \<Rightarrow> int \<Rightarrow> nat" where
  "units18 q e = (if 0 \<le> e then q * 2 ^ nat e * 10 ^ 18 else round_half_even (q * 10 ^ 18) (2 ^ nat (- e)))"

text \<open>\<open>fmt::format("{:.18f}", f)\<close>\<close>

definition format_fixed18 :: "float32 \<Rightarrow> string" where
  "format_fixed18 f =
     (case f of
        Finite neg q e \<Rightarrow>
          (let v = units18 q e
           in sign_text neg @ show_nat (v div 10 ^ 18) @ ''.'' @ fixed_digits 18 v)
      | Infinite neg \<Rightarrow> sign_text neg @ ''inf''
      | Not_A_Number neg \<Rightarrow> sign_text neg @ ''nan'')"

text \<open>\<open>while (s.size() > 10 && s[s.size() - 1] != '.') s.pop_back();\<close>\<close>

function trim_to_ten :: "string \<Rightarrow> string" where
  "trim_to_ten s = (if 10 < length s \<and> last s \<noteq> CHR ''.'' then trim_to_ten (butlast s) else s)"
  by pat_completeness auto
termination by (relation "measure length") auto

declare trim_to_ten.simps [simp del]

definition normalize_float :: "string \<Rightarrow> string res" where
  "normalize_float number_str =
     rbind (stof number_str) (\<lambda>f. Inr (trim_to_ten (format_fixed18 f)))"

section \<open>\<open>represent_float\<close>\<close>

text \<open>
  The first loop: on from index \<open>i\<close> until six significant digits are counted, with the
  position of the point if it is met.  The result is \<open>i\<close> and \<open>dot_pos\<close>.
\<close>

function count_digits :: "string \<Rightarrow> nat \<Rightarrow> nat \<Rightarrow> bool \<Rightarrow> nat \<Rightarrow> nat \<times> nat" where
  "count_digits n digit_cnt i leading_zero dot_pos =
     (if digit_cnt < 6 \<and> i < length n then
        if n ! i = CHR ''0'' then
          count_digits n (if leading_zero then digit_cnt else digit_cnt + 1) (i + 1) leading_zero dot_pos
        else if isdigit (n ! i) then count_digits n (digit_cnt + 1) (i + 1) False dot_pos
        else count_digits n digit_cnt (i + 1) leading_zero (if n ! i = CHR ''.'' then i else dot_pos)
      else (i, dot_pos))"
  by pat_completeness auto
termination
  by (relation "measure (\<lambda>(n, digit_cnt, i, leading_zero, dot_pos). length n - i)") auto

declare count_digits.simps [simp del]

function find_dot :: "string \<Rightarrow> nat \<Rightarrow> nat \<Rightarrow> nat" where
  "find_dot n j dot_pos =
     (if j < length n then if n ! j = CHR ''.'' then j else find_dot n (j + 1) dot_pos else dot_pos)"
  by pat_completeness auto
termination by (relation "measure (\<lambda>(n, j, dot_pos). length n - j)") auto

declare find_dot.simps [simp del]

text \<open>
  The loop that carries: \<open>k\<close> is \<open>end_iter + 1\<close>, 0 when it has left the text.  The result
  is the text, \<open>end\<close> and \<open>carry\<close>.
\<close>

fun carry_loop :: "nat \<Rightarrow> nat \<Rightarrow> string \<Rightarrow> nat \<Rightarrow> string \<times> nat \<times> bool" where
  "carry_loop dot_pos 0 n en = (n, en, True)"
| "carry_loop dot_pos (Suc i) n en =
     (if n ! i = CHR ''.'' then carry_loop dot_pos i n (if en = i + 1 then en - 1 else en)
      else if n ! i = CHR ''9'' then
        if dot_pos < i then carry_loop dot_pos i n (en - 1)
        else carry_loop dot_pos i (n[i := CHR ''0'']) en
      else (n[i := char_of ((of_char (n ! i) :: nat) + 1)], en, False))"

definition zero_fill :: "nat \<Rightarrow> nat \<Rightarrow> string \<Rightarrow> string" where
  "zero_fill en dot_pos n = fold (\<lambda>t n. n[t := CHR ''0'']) [en..<dot_pos] n"

definition represent_float :: "string \<Rightarrow> string" where
  "represent_float number_str =
     (let n = number_str;
          (i, dot_pos) = count_digits n 0 0 True (length n);
          dot_pos = (if dot_pos = length n then find_dot n i dot_pos else dot_pos);
          (n, en, carry) =
            (if i < length n \<and> 53 \<le> char_int (n ! i) \<or>
                i + 1 < length n \<and> n ! i = CHR ''.'' \<and> 53 \<le> char_int (n ! (i + 1))
             then carry_loop dot_pos i n i else (n, i, False));
          n = (if en > dot_pos then take en n else take dot_pos (zero_fill en dot_pos n))
      in if carry then ''1'' @ n else n)"

section \<open>Facts about digits\<close>

lemma digits_val_acc: "foldl (\<lambda>n c. 10 * n + dec_val c) m s = m * 10 ^ length s + digits_val s"
proof (induction s arbitrary: m)
  case (Cons c s)
  from Cons [of "10 * m + dec_val c"] Cons [of "dec_val c"] show ?case
    by (simp add: digits_val_def algebra_simps)
qed (simp add: digits_val_def)

lemma digits_val_Nil [simp]: "digits_val [] = 0"
  by (simp add: digits_val_def)

lemma digits_val_append: "digits_val (a @ b) = digits_val a * 10 ^ length b + digits_val b"
proof -
  have "digits_val (a @ b) = foldl (\<lambda>n c. 10 * n + dec_val c) (digits_val a) b"
    by (simp add: digits_val_def)
  then show ?thesis by (simp only: digits_val_acc)
qed

lemma digits_val_single [simp]: "digits_val [c] = dec_val c"
  by (simp add: digits_val_def)

lemma digits_val_Cons: "digits_val (c # s) = dec_val c * 10 ^ length s + digits_val s"
  using digits_val_append [of "[c]" s] by simp

lemma dec_val_less: "isdigit c \<Longrightarrow> dec_val c < 10"
  by (auto simp: isdigit_def dec_val_def)

lemma digit_chars: "digit_char 0 = CHR ''0''" "digit_char (Suc 0) = CHR ''1''"
    "digit_char 2 = CHR ''2''" "char_of (57 :: nat) = CHR ''9''"
  by code_simp+

lemma digits_val_less: "\<forall>c\<in>set s. isdigit c \<Longrightarrow> digits_val s < 10 ^ length s"
proof (induction s rule: rev_induct)
  case (snoc c s)
  then have "digits_val s < 10 ^ length s" "dec_val c < 10" by (auto intro: dec_val_less)
  then show ?case by (simp add: digits_val_append)
qed simp

lemma digits_val_zeros [simp]: "digits_val (replicate k (CHR ''0'')) = 0"
  by (induction k) (simp_all add: digits_val_Cons dec_val_def)

lemma of_char_digit: "d < 10 \<Longrightarrow> of_char (digit_char d) = (48 + d :: nat)"
  by (simp add: digit_char_def)

lemma isdigit_digit_char [simp]: "d < 10 \<Longrightarrow> isdigit (digit_char d)"
  by (simp add: isdigit_def of_char_digit)

lemma isdigit_not_dot: "isdigit c \<Longrightarrow> c \<noteq> CHR ''.''"
  by (auto simp: isdigit_def)

lemma fixed_digits_numeral:
  "fixed_digits (numeral k) n = fixed_digits (pred_numeral k) (n div 10) @ [digit_char (n mod 10)]"
  by (simp only: numeral_eq_Suc fixed_digits.simps)

lemma fixed_digits_length [simp]: "length (fixed_digits k n) = k"
  by (induction k arbitrary: n) simp_all

lemma fixed_digits_digits: "c \<in> set (fixed_digits k n) \<Longrightarrow> isdigit c"
  by (induction k arbitrary: n) auto

lemma fixed_digits_zeros: "n < 10 ^ k \<Longrightarrow> take j (fixed_digits (j + k) n) = replicate j (CHR ''0'')"
proof (induction k arbitrary: n)
  case 0
  then show ?case
  proof (induction j)
    case (Suc j)
    then show ?case by (simp add: digit_chars replicate_append_same)
  qed simp
next
  case (Suc k)
  then have "n div 10 < 10 ^ k" by (simp add: less_mult_imp_div_less mult.commute)
  then show ?case using Suc.IH by simp
qed

section \<open>What \<open>normalize_float\<close> keeps\<close>

lemma trim_to_ten_text:
  "CHR ''.'' \<notin> set ys \<Longrightarrow>
     trim_to_ten (xs @ ''.'' @ ys) = take (max 10 (length xs + 1)) (xs @ ''.'' @ ys)"
proof (induction ys rule: rev_induct)
  case Nil
  show ?case by (simp add: trim_to_ten.simps)
next
  case (snoc y ys)
  show ?case
  proof (cases "10 < length (xs @ ''.'' @ ys @ [y])")
    case True
    then have "trim_to_ten (xs @ ''.'' @ ys @ [y]) = trim_to_ten (xs @ ''.'' @ ys)"
      using snoc.prems by (subst trim_to_ten.simps) (auto simp: butlast_append)
    also have "\<dots> = take (max 10 (length xs + 1)) (xs @ ''.'' @ ys)"
      using snoc by simp
    also have "max 10 (length xs + 1) \<le> length (xs @ ''.'' @ ys)" using True by simp
    then have "take (max 10 (length xs + 1)) (xs @ ''.'' @ ys) =
        take (max 10 (length xs + 1)) ((xs @ ''.'' @ ys) @ [y])"
      by (metis take_all_iff take_append append_Nil2 diff_is_0_eq take_0)
    finally show ?thesis by simp
  next
    case False
    then show ?thesis by (subst trim_to_ten.simps) simp
  qed
qed

lemma normalize_finite:
  assumes "stof s = Inr (Finite neg q e)"
  shows "normalize_float s =
    (let whole = sign_text neg @ show_nat (units18 q e div 10 ^ 18)
     in Inr (take (max 10 (length whole + 1)) (whole @ ''.'' @ fixed_digits 18 (units18 q e))))"
proof -
  have "CHR ''.'' \<notin> set (fixed_digits 18 (units18 q e))"
    using fixed_digits_digits isdigit_not_dot by blast
  from trim_to_ten_text [OF this, of "sign_text neg @ show_nat (units18 q e div 10 ^ 18)"]
  show ?thesis
    by (simp add: normalize_float_def assms format_fixed18_def Let_def del: take_append)
qed

section \<open>The carry of \<open>represent_float\<close>\<close>

lemma dec_val_Suc:
  "isdigit c \<Longrightarrow> c \<noteq> CHR ''9'' \<Longrightarrow>
     isdigit (char_of ((of_char c :: nat) + 1)) \<and> dec_val (char_of ((of_char c :: nat) + 1)) = dec_val c + 1"
proof -
  assume d: "isdigit c" "c \<noteq> CHR ''9''"
  have "(of_char c :: nat) \<noteq> 57"
  proof
    assume "(of_char c :: nat) = 57"
    then have "char_of (of_char c :: nat) = (char_of (57 :: nat) :: char)" by (simp only:)
    then show False using d(2) by (simp add: digit_chars)
  qed
  with d(1) show ?thesis by (auto simp: isdigit_def dec_val_def)
qed

lemma carry_loop_digits:
  assumes "k \<le> length n" and "k \<le> dot_pos" and "\<forall>c\<in>set (take k n). isdigit c"
  shows "\<exists>n' c. carry_loop dot_pos k n en = (n', en, c) \<and> length n' = length n \<and>
    drop k n' = drop k n \<and> (\<forall>c\<in>set (take k n'). isdigit c) \<and>
    digits_val (take k n') + (if c then 10 ^ k else 0) = digits_val (take k n) + 1"
  using assms
proof (induction k arbitrary: n)
  case 0
  then show ?case by auto
next
  case (Suc i)
  have ni: "isdigit (n ! i)" "n ! i \<noteq> CHR ''.''"
    using Suc.prems isdigit_not_dot by (auto simp: take_Suc_conv_app_nth)
  have t: "take (Suc i) n = take i n @ [n ! i]"
    using Suc.prems(1) by (simp add: take_Suc_conv_app_nth)
  show ?case
  proof (cases "n ! i = CHR ''9''")
    case True
    let ?n = "n[i := CHR ''0'']"
    obtain n' c where r: "carry_loop dot_pos i ?n en = (n', en, c)" "length n' = length n"
      "drop i n' = drop i ?n" "\<forall>c\<in>set (take i n'). isdigit c"
      "digits_val (take i n') + (if c then 10 ^ i else 0) = digits_val (take i n) + 1"
      using Suc.IH [of ?n] Suc.prems t by auto
    have "drop i ?n = CHR ''0'' # drop (Suc i) n"
      using Suc.prems(1) Cons_nth_drop_Suc [of i ?n] by simp
    moreover have "drop i n' = n' ! i # drop (Suc i) n'"
      using r(2) Suc.prems(1) by (simp add: Cons_nth_drop_Suc)
    ultimately have "n' ! i = CHR ''0''" "drop (Suc i) n' = drop (Suc i) n"
      using r(3) by simp_all
    moreover have "take (Suc i) n' = take i n' @ [n' ! i]"
      using r(2) Suc.prems(1) by (simp add: take_Suc_conv_app_nth)
    ultimately show ?thesis
      using r(1,2,4,5) True Suc.prems(2) t
      by (auto simp: digits_val_append dec_val_def isdigit_def split: if_splits)
  next
    case False
    let ?n = "n[i := char_of ((of_char (n ! i) :: nat) + 1)]"
    have "take (Suc i) ?n = take i n @ [char_of ((of_char (n ! i) :: nat) + 1)]"
      using Suc.prems(1) by (simp add: take_Suc_conv_app_nth)
    then show ?thesis
      using False ni t dec_val_Suc [OF ni(1) False] Suc.prems(1,3)
      by (auto simp: digits_val_append)
  qed
qed

lemma zero_fill_eq:
  "en \<le> m \<Longrightarrow> m \<le> length n \<Longrightarrow> zero_fill en m n = take en n @ replicate (m - en) (CHR ''0'') @ drop m n"
proof (induction m)
  case (Suc m)
  show ?case
  proof (cases "en = Suc m")
    case False
    then have "zero_fill en (Suc m) n = (zero_fill en m n)[m := CHR ''0'']"
      using Suc.prems(1) by (simp add: zero_fill_def)
    also have "\<dots> = (take en n @ replicate (m - en) (CHR ''0'') @ drop m n)[m := CHR ''0'']"
      using Suc False by simp
    also have "drop m n = n ! m # drop (Suc m) n" using Suc.prems(2) by (simp add: Cons_nth_drop_Suc)
    finally show ?thesis
      using Suc.prems False by (simp add: list_update_append Suc_diff_le replicate_append_same)
  qed (simp add: zero_fill_def)
qed (simp add: zero_fill_def)

section \<open>Rounding to six digits\<close>

lemma round_half_up:
  fixes a b r p :: nat
  assumes "r < p" and "b < 10"
  shows "((a * (10 * p) + b * p + r) + 5 * p) div (10 * p) = a + (if 5 \<le> b then 1 else 0)"
proof -
  let ?x = "(b + 5) * p + r"
  have "?x < (b + 6) * p" using assms(1) by (simp add: algebra_simps)
  also have "\<dots> \<le> (if 5 \<le> b then 20 else 10) * p" using assms(2) by (intro mult_le_mono1) simp
  finally have "?x < (if 5 \<le> b then 20 else 10) * p" .
  moreover have "(if 5 \<le> b then 10 else 0) * p \<le> ?x"
    by (rule trans_le_add1) (intro mult_le_mono1, simp)
  ultimately have "?x div (10 * p) = (if 5 \<le> b then 1 else 0)"
    by (intro div_nat_eqI) (auto split: if_splits)
  moreover have "(a * (10 * p) + b * p + r) + 5 * p = ?x + a * (10 * p)"
    by (simp add: algebra_simps)
  moreover have "(?x + a * (10 * p)) div (10 * p) = a + ?x div (10 * p)"
    using assms(1) by (intro div_mult_self1) simp
  ultimately show ?thesis by (simp only:)
qed

lemma count_digits_plain:
  assumes "\<forall>c\<in>set n. isdigit c"
  shows "cnt \<le> 6 \<Longrightarrow> i + (6 - cnt) \<le> length n \<Longrightarrow>
    count_digits n cnt i False dot_pos = (i + (6 - cnt), dot_pos)"
proof (induction "6 - cnt" arbitrary: cnt i)
  case 0
  then show ?case by (simp add: count_digits.simps)
next
  case (Suc k)
  then have "isdigit (n ! i)" using assms by simp
  then show ?case using Suc by (subst count_digits.simps) (auto simp: Suc_diff_Suc)
qed

lemma find_dot_none: "\<forall>c\<in>set n. c \<noteq> CHR ''.'' \<Longrightarrow> find_dot n j dot_pos = dot_pos"
proof (induction n j dot_pos rule: find_dot.induct)
  case (1 n j dot_pos)
  then show ?case by (subst find_dot.simps) (auto simp: nth_mem)
qed

lemma count_digits_few:
  "cnt + length (filter isdigit (drop i n)) < 6 \<Longrightarrow> i \<le> length n \<Longrightarrow> dot_pos \<le> length n \<Longrightarrow>
     \<exists>d\<le>length n. count_digits n cnt i leading dot_pos = (length n, d)"
proof (induction "length n - i" arbitrary: cnt i leading dot_pos)
  case 0
  then show ?case by (simp add: count_digits.simps)
next
  case (Suc k)
  have d: "drop i n = n ! i # drop (i + 1) n" using Suc.hyps(2) by (simp add: Cons_nth_drop_Suc)
  have IH: "\<exists>d\<le>length n. count_digits n cnt' (Suc i) leading' dot' = (length n, d)"
    if "cnt' + length (filter isdigit (drop (Suc i) n)) < 6" "dot' \<le> length n" for cnt' leading' dot'
    using Suc.hyps(1) [of "Suc i" cnt' dot' leading'] Suc.hyps(2) that by simp
  have "isdigit (CHR ''0'')" by (simp add: isdigit_def)
  then show ?case
    using Suc.prems Suc.hyps(2) d
    by (subst count_digits.simps) (auto intro!: IH split: if_splits)
qed

lemma represent_float_few:
  assumes "length (filter isdigit s) < 6"
  shows "represent_float s = s"
proof -
  obtain d where "d \<le> length s" "count_digits s 0 0 True (length s) = (length s, d)"
    using count_digits_few [of 0 0 s "length s" True] assms by auto
  then show ?thesis
    by (auto simp: represent_float_def find_dot.simps [of s "length s"] zero_fill_def)
qed

lemma represent_float_digits:
  assumes d: "\<forall>c\<in>set s. isdigit c" and "hd s \<noteq> CHR ''0''" and len: "7 \<le> length s"
  shows "\<exists>n c. represent_float s =
      (if c then ''1'' else []) @ n @ replicate (length s - 6) (CHR ''0'') \<and> length n = 6 \<and>
      digits_val n + (if c then 10 ^ 6 else 0) =
        digits_val (take 6 s) + (if 5 \<le> dec_val (s ! 6) then 1 else 0)"
proof -
  have "s \<noteq> []" using len by auto
  then have "s ! 0 \<noteq> CHR ''0''" "isdigit (s ! 0)" using assms by (auto simp: hd_conv_nth)
  then have cnt: "count_digits s 0 0 True (length s) = (6, length s)"
    using len count_digits_plain [OF d, of 1 1 "length s"] \<open>s \<noteq> []\<close>
    by (subst count_digits.simps) simp
  have dot: "find_dot s 6 (length s) = length s"
    using d isdigit_not_dot by (intro find_dot_none) blast
  have six: "isdigit (s ! 6)" using d len by simp
  then have up: "(53 \<le> char_int (s ! 6)) = (5 \<le> dec_val (s ! 6))"
    by (auto simp: isdigit_def char_int_def Let_def dec_val_def)
  have nodot: "s ! 6 \<noteq> CHR ''.''" using six by (rule isdigit_not_dot)
  show ?thesis
  proof (cases "5 \<le> dec_val (s ! 6)")
    case False
    then have "represent_float s = take 6 s @ replicate (length s - 6) (CHR ''0'')"
      using cnt dot up nodot len zero_fill_eq [of 6 "length s" s] by (simp add: represent_float_def)
    then show ?thesis using False len
      by (intro exI [of _ "take 6 s"] exI [of _ False]) simp
  next
    case True
    obtain n' c where r: "carry_loop (length s) 6 s 6 = (n', 6, c)" "length n' = length s"
      "digits_val (take 6 n') + (if c then 10 ^ 6 else 0) = digits_val (take 6 s) + 1"
      using carry_loop_digits [of 6 s "length s" 6] len d by (auto dest: in_set_takeD)
    have "represent_float s = (if c then ''1'' else []) @ take 6 n' @ replicate (length s - 6) (CHR ''0'')"
      using cnt dot up True len r zero_fill_eq [of 6 "length s" n'] by (simp add: represent_float_def)
    then show ?thesis using True r len by (intro exI [of _ "take 6 n'"] exI [of _ c]) simp
  qed
qed

section \<open>Properties\<close>

text \<open>
  Ten characters leave eight decimals: every positive number below
  \<open>10 ^ -8\<close> becomes the same text, so different small values of a float column are stored
  as zero and compare equal as keys.
\<close>

theorem normalize_float_small:
  assumes "stof s = Inr (Finite False q e)" and "units18 q e < 10 ^ 10"
  shows "normalize_float s = Inr ''0.00000000''"
proof -
  have eight: "replicate 8 (CHR ''0'') = ''00000000''" by code_simp
  have "units18 q e div 10 ^ 18 = 0" using assms(2) by simp
  moreover have "show_nat 0 = ''0''" by (simp add: show_nat.simps digit_chars)
  moreover have "take 8 (fixed_digits 18 (units18 q e)) = ''00000000''"
    using fixed_digits_zeros [OF assms(2), of 8] by (simp add: eight)
  ultimately show ?thesis
    using normalize_finite [OF assms(1)] by (simp add: sign_text_def)
qed

theorem normalize_float_small_witness: "normalize_float ''1e-9'' = Inr ''0.00000000''"
proof -
  have b: "bit_len (Suc 0) = 1" "bit_len 1000000000 = 30" by (simp_all add: bit_len.simps)
  have "stof ''1e-9'' = Inr (Finite False 9007199 (- 53))"
    by (simp add: stof_def sign_of_def isspace_def starts_with_lower_def lower_def mantissa_of_def
        isdigit_def dec_val_def digits_val_def exponent_of_def ratio_def to_float32_def b scaled_def
        round_half_even_def Let_def)
  moreover have "units18 9007199 (- 53) < 10 ^ 10"
    by (simp add: units18_def round_half_even_def Let_def)
  ultimately show ?thesis by (rule normalize_float_small)
qed

text \<open>
  (C32) On a whole number of seven digits or more, \<open>represent_float\<close> rounds half up to six
  significant digits and fills with zeros, also when the carry adds a digit.
\<close>

theorem represent_float_rounds:
  assumes "\<forall>c\<in>set s. isdigit c" and "hd s \<noteq> CHR ''0''" and "7 \<le> length s"
  shows "digits_val (represent_float s) =
    10 ^ (length s - 6) * ((digits_val s + 5 * 10 ^ (length s - 7)) div 10 ^ (length s - 6))"
proof -
  obtain n c where r: "represent_float s =
      (if c then ''1'' else []) @ n @ replicate (length s - 6) (CHR ''0'')" "length n = 6"
    "digits_val n + (if c then 10 ^ 6 else 0) =
      digits_val (take 6 s) + (if 5 \<le> dec_val (s ! 6) then 1 else 0)"
    using represent_float_digits [OF assms] by blast
  let ?k = "length s - 7"
  have k: "length s - 6 = Suc ?k" using assms(3) by simp
  have "length s - Suc 0 = ?k + 6" using assms(3) by simp
  then have "(10 :: nat) ^ (length s - Suc 0) = 10 ^ ?k * 10 ^ 6" by (simp only: power_add)
  also have "(10 :: nat) ^ 6 = 1000000" by simp
  finally have ten: "(10 :: nat) ^ (length s - Suc 0) = 10 ^ ?k * 1000000" .
  have D: "digits_val (represent_float s) = 10 ^ Suc ?k * (digits_val n + (if c then 10 ^ 6 else 0))"
    using r(1,2) k ten by (simp add: digits_val_append digits_val_Cons dec_val_def algebra_simps)
  have split: "s = take 6 s @ s ! 6 # drop 7 s"
    using assms(3) id_take_nth_drop [of 6 s] by simp
  have "length (s ! 6 # drop 7 s) = Suc ?k" using assms(3) by simp
  then have "digits_val (take 6 s @ s ! 6 # drop 7 s) =
      digits_val (take 6 s) * (10 * 10 ^ ?k) + (dec_val (s ! 6) * 10 ^ ?k + digits_val (drop 7 s))"
    unfolding digits_val_append by (simp add: digits_val_Cons)
  then have V: "digits_val s = digits_val (take 6 s) * (10 * 10 ^ ?k) + dec_val (s ! 6) * 10 ^ ?k + digits_val (drop 7 s)"
    by (simp only: split [symmetric] add.assoc)
  have "digits_val (drop 7 s) < 10 ^ ?k"
    using digits_val_less [of "drop 7 s"] assms(1) by (auto dest: in_set_dropD)
  moreover have "dec_val (s ! 6) < 10" using assms by (simp add: dec_val_less)
  ultimately show ?thesis
    unfolding D r(3) k power_Suc by (simp only: V round_half_up)
qed

theorem represent_float_rounds_witness: "digits_val (represent_float ''9999996'') = 10000000"
  using represent_float_rounds [of "''9999996''"]
  by (simp add: isdigit_def digits_val_def dec_val_def)

text \<open>
  A text with fewer than six digits comes back unchanged.\<close>

theorem represent_float_short:
  assumes "length (filter isdigit s) < 6"
  shows "represent_float s = s"
  using assms by (rule represent_float_few)

theorem represent_float_short_witness: "represent_float ''-0.125'' = ''-0.125''"
  by (rule represent_float_short) (simp add: isdigit_def)

text \<open>
  A carry out of the digits of a negative number runs into its sign, which it turns
  into the character after it: -999999.5 becomes \<^verbatim>\<open>.000000\<close>.
\<close>

theorem represent_float_negative: "represent_float ''-999999.5'' = ''.000000''"
  by code_simp

end
