(* ===== verification/Float_Rounding.thy ===== *)
theory Float_Rounding
  imports Floats Complex_Main
begin

text \<open>
  What \<open>normalize_float\<close> computes, over the real numbers: the text of a decimal number is rounded
  to the nearest binary32 number, ties to even, and that to the nearest multiple of \<open>10 ^ -18\<close>.
\<close>

section \<open>Nearest numbers\<close>

definition nearest_nat :: "nat \<Rightarrow> real \<Rightarrow> bool" where
  "nearest_nat q z \<longleftrightarrow> \<bar>real q - z\<bar> \<le> 1 / 2 \<and> (\<bar>real q - z\<bar> = 1 / 2 \<longrightarrow> even q)"

lemma round_half_even_nearest:
  assumes "0 < d"
  shows "nearest_nat (round_half_even n d) (real n / real d)"
proof -
  let ?q = "n div d" and ?r = "n mod d"
  have z: "real n / real d = real ?q + real ?r / real d"
    using assms by (simp add: field_simps flip: of_nat_mult of_nat_add)
  have r: "?r < d" using assms by simp
  define t where "t = real ?r / real d"
  have "t < 1" "0 \<le> t" using r by (simp_all add: t_def)
  moreover have "(d < 2 * ?r) = (1 / 2 < t)" "(2 * ?r = d) = (t = 1 / 2)"
    using assms by (auto simp: t_def field_simps)
  ultimately show ?thesis
    unfolding nearest_nat_def z t_def [symmetric] round_half_even_def Let_def by (auto simp: abs_if)
qed

lemma nearest_nat_least:
  assumes "nearest_nat q z"
  shows "\<bar>real q - z\<bar> \<le> \<bar>real m - z\<bar>"
proof (cases "m = q")
  case False
  then have "1 \<le> \<bar>real m - real q\<bar>" by linarith
  then show ?thesis using assms unfolding nearest_nat_def by linarith
qed simp

lemma nearest_nat_tie:
  assumes "nearest_nat q z" and "\<bar>real q - z\<bar> = \<bar>real m - z\<bar>" and "m \<noteq> q"
  shows "even q"
proof -
  have "1 \<le> \<bar>real m - real q\<bar>" using assms(3) by linarith
  then have "\<bar>real q - z\<bar> = 1 / 2" using assms(1,2) unfolding nearest_nat_def by linarith
  then show ?thesis using assms(1) by (simp add: nearest_nat_def)
qed

section \<open>Binary32 numbers\<close>

definition float_value :: "nat \<Rightarrow> int \<Rightarrow> real" where
  "float_value q e = real q * 2 powi e"

definition binary32 :: "real \<Rightarrow> bool" where
  "binary32 y \<longleftrightarrow> (\<exists>q e. q < 2 ^ 24 \<and> - 149 \<le> e \<and> e \<le> 104 \<and> y = float_value q e)"

text \<open>\<open>q * 2 ^ e\<close> is the binary32 number nearest to \<open>x\<close>; of two, the one with an even significand.\<close>

definition nearest_float :: "nat \<Rightarrow> int \<Rightarrow> real \<Rightarrow> bool" where
  "nearest_float q e x \<longleftrightarrow> binary32 (float_value q e) \<and>
     (\<forall>y. binary32 y \<longrightarrow> \<bar>float_value q e - x\<bar> \<le> \<bar>y - x\<bar> \<and>
        (y \<noteq> float_value q e \<and> \<bar>float_value q e - x\<bar> = \<bar>y - x\<bar> \<longrightarrow> even q))"

lemma bit_len_bounds: "0 < n \<Longrightarrow> 2 ^ (bit_len n - 1) \<le> n \<and> n < 2 ^ bit_len n \<and> 0 < bit_len n"
proof (induction n rule: bit_len.induct)
  case (1 n)
  show ?case
  proof (cases "n div 2 = 0")
    case True
    then have "n = 1" using 1(2) by simp
    moreover have "bit_len 1 = 1" by (simp add: bit_len.simps)
    ultimately show ?thesis by simp
  next
    case False
    then have IH: "2 ^ (bit_len (n div 2) - 1) \<le> n div 2" "n div 2 < 2 ^ bit_len (n div 2)" "0 < bit_len (n div 2)"
      using 1 by auto
    have b: "bit_len n = Suc (bit_len (n div 2))" using 1(2) by (simp add: bit_len.simps [of n])
    obtain k where k: "bit_len (n div 2) = Suc k" using IH(3) by (cases "bit_len (n div 2)") auto
    define K :: nat where "K = 2 ^ k"
    have "K \<le> n div 2" "n div 2 < 2 * K" using IH by (simp_all add: k K_def)
    then have "2 * K \<le> n \<and> n < 4 * K" by linarith
    then show ?thesis by (simp add: b k K_def)
  qed
qed

lemma scaled_value:
  assumes "0 < d" and "scaled n d e = (n', d')"
  shows "0 < d' \<and> real n' / real d' = (real n / real d) / 2 powi e"
proof (cases "0 \<le> e")
  case True
  with assms show ?thesis by (auto simp: scaled_def power_int_def)
next
  case False
  with assms show ?thesis by (auto simp: scaled_def power_int_def field_simps)
qed

lemma exponent_correct:
  assumes "0 < n" "0 < d" and l0: "l0 = int (bit_len n) - int (bit_len d)"
    and l: "l = (case scaled n d l0 of (n', d') \<Rightarrow> if d' \<le> n' then l0 else l0 - 1)"
  shows "2 powi l \<le> real n / real d \<and> real n / real d < 2 powi (l + 1)"
proof -
  obtain n' d' where s: "scaled n d l0 = (n', d')" by fastforce
  let ?x = "real n / real d"
  have bn: "2 ^ (bit_len n - 1) \<le> real n" "real n < 2 ^ bit_len n" "0 < bit_len n"
    and bd: "2 ^ (bit_len d - 1) \<le> real d" "real d < 2 ^ bit_len d" "0 < bit_len d"
    using bit_len_bounds [OF assms(1)] bit_len_bounds [OF assms(2)]
    by auto
  have i: "l0 - 1 = int (bit_len n - 1) - int (bit_len d)" "l0 + 1 = int (bit_len n) - int (bit_len d - 1)"
    using bn(3) bd(3) by (simp_all add: l0)
  have p: "(2 :: real) powi (l0 - 1) = 2 ^ (bit_len n - 1) / 2 ^ bit_len d"
    "(2 :: real) powi (l0 + 1) = 2 ^ bit_len n / 2 ^ (bit_len d - 1)"
    unfolding i by (simp_all add: power_int_diff)
  have lo: "2 powi (l0 - 1) \<le> ?x" unfolding p using bn bd assms by (intro frac_le) auto
  have hi: "?x < 2 powi (l0 + 1)" unfolding p using bn bd assms by (intro frac_less) auto
  have c: "(d' \<le> n') = (2 powi l0 \<le> ?x)"
  proof -
    have d': "0 < d'" "real n' / real d' = ?x / 2 powi l0" using scaled_value [OF assms(2) s] by auto
    have "(d' \<le> n') = (1 \<le> real n' / real d')" using d'(1) by simp
    also have "\<dots> = (2 powi l0 \<le> ?x)" unfolding d'(2) by (rule le_divide_eq_1_pos) simp
    finally show ?thesis .
  qed
  have "l = (if 2 powi l0 \<le> ?x then l0 else l0 - 1)" using c by (simp add: l s)
  then show ?thesis using lo hi by (cases "2 powi l0 \<le> ?x") simp_all
qed

text \<open>The binary32 numbers in units of \<open>2 ^ e\<close>.\<close>

lemma float_value_unit: "float_value q e = real q * 2 powi e"
  by (simp add: float_value_def)

lemma binary32_above:
  assumes "e \<le> e'"
  shows "\<exists>m::nat. float_value q e' = real m * 2 powi e"
proof -
  have "float_value q e' = real (q * 2 ^ nat (e' - e)) * 2 powi e"
    using assms by (simp add: float_value_def power_int_add flip: power_int_of_nat)
       (simp flip: power_int_add)
  then show ?thesis by blast
qed

lemma binary32_below:
  assumes "q < 2 ^ 24" and "e' < e"
  shows "float_value q e' < 2 ^ 23 * 2 powi e"
proof -
  have "float_value q e' < 2 ^ 24 * 2 powi e'"
    using assms(1) by (simp add: float_value_def)
  also have "\<dots> \<le> 2 ^ 24 * 2 powi (e - 1)" using assms(2) by (simp add: power_int_increasing)
  also have "\<dots> = 2 ^ 23 * 2 powi e" by (simp add: power_int_diff)
  finally show ?thesis .
qed

lemma nearest_float_scaled:
  assumes q: "nearest_nat q (x / 2 powi e)" and e: "- 149 \<le> e" "e \<le> 104"
    and big: "e = - 149 \<or> 2 ^ 23 \<le> x / 2 powi e"
    and small: "q \<le> 2 ^ 24" "e = 104 \<longrightarrow> q \<noteq> 2 ^ 24"
  shows "nearest_float q e x"
proof -
  let ?u = "2 powi e :: real" let ?z = "x / ?u"
  have u: "0 < ?u" by simp
  have dist: "\<bar>real m * ?u - x\<bar> = \<bar>real m - ?z\<bar> * ?u" for m
    using u by (simp add: abs_mult_pos' field_simps flip: abs_mult_pos)
  have "binary32 (float_value q e)"
  proof (cases "q = 2 ^ 24")
    case True
    with small e have "float_value q e = float_value (2 ^ 23) (e + 1)" "e + 1 \<le> 104"
      by (simp_all add: float_value_def power_int_add)
    with e show ?thesis unfolding binary32_def by (intro exI [of _ "2 ^ 23"] exI [of _ "e + 1"]) simp
  next
    case False
    with small(1) e show ?thesis unfolding binary32_def by (intro exI [of _ q] exI [of _ e]) simp
  qed
  moreover have "\<bar>float_value q e - x\<bar> \<le> \<bar>y - x\<bar> \<and>
      (y \<noteq> float_value q e \<and> \<bar>float_value q e - x\<bar> = \<bar>y - x\<bar> \<longrightarrow> even q)" if "binary32 y" for y
  proof -
    from that obtain q' e' where y: "q' < 2 ^ 24" "- 149 \<le> e'" "y = float_value q' e'"
      unfolding binary32_def by blast
    show ?thesis
    proof (cases "e \<le> e'")
      case True
      then obtain m where m: "y = real m * ?u" using binary32_above y(3) by blast
      show ?thesis
        using nearest_nat_least [OF q, of m] nearest_nat_tie [OF q, of m] u
        by (auto simp: m float_value_def dist)
    next
      case False
      then have lt: "y < 2 ^ 23 * ?u" using binary32_below y by simp
      moreover have "2 ^ 23 * ?u \<le> x" using big False y(2) u by (simp add: field_simps)
      ultimately have "\<bar>real (2 ^ 23) * ?u - x\<bar> < \<bar>y - x\<bar>" by simp
      moreover have "\<bar>float_value q e - x\<bar> \<le> \<bar>real (2 ^ 23) * ?u - x\<bar>"
        using nearest_nat_least [OF q, of "2 ^ 23"] u by (simp only: float_value_def dist mult_right_mono less_imp_le)
      ultimately show ?thesis by linarith
    qed
  qed
  ultimately show ?thesis by (simp add: nearest_float_def)
qed

text \<open>The least number that rounds beyond the finite ones, and the least normal number.\<close>

definition overflow32 :: real where
  "overflow32 = 2 ^ 128 - 2 ^ 103"

definition normal32 :: real where
  "normal32 = 2 powi (- 126)"

lemma large_scaled:
  assumes q: "nearest_nat q (x / 2 powi e)" and e: "e \<le> 104" and hi: "x / 2 powi e < 2 ^ 24" and "q \<le> 2 ^ 24"
  shows "overflow32 \<le> x \<longleftrightarrow> e = 104 \<and> q = 2 ^ 24"
proof (cases "e = 104")
  case True
  define z where "z = x / 2 ^ 104"
  have x: "x = z * 2 ^ 104" by (simp add: z_def)
  have z: "nearest_nat q z" using q by (simp add: True z_def power_int_def)
  have "(overflow32 \<le> x) = (2 ^ 24 - 1 / 2 \<le> z)" unfolding x overflow32_def by auto
  also have "\<dots> = (q = 2 ^ 24)"
  proof
    assume "q = 2 ^ 24"
    then have "\<bar>2 ^ 24 - z\<bar> \<le> 1 / 2" using z by (simp only: nearest_nat_def of_nat_power of_nat_numeral)
    then show "2 ^ 24 - 1 / 2 \<le> z" by linarith
  next
    assume z': "2 ^ 24 - 1 / 2 \<le> z"
    show "q = 2 ^ 24"
    proof (rule ccontr)
      assume "q \<noteq> 2 ^ 24"
      then have "real q \<le> 2 ^ 24 - 1" using assms(4) by simp
      with z z' have "real q = 2 ^ 24 - 1" "\<bar>real q - z\<bar> = 1 / 2" unfolding nearest_nat_def by linarith+
      then have "q = 2 ^ 24 - 1" "even q" using z by (auto simp: nearest_nat_def)
      then show False by simp
    qed
  qed
  finally show ?thesis by (simp add: True)
next
  case False
  have "x < 2 ^ 24 * 2 powi e" using hi by (simp add: divide_less_eq)
  also have "\<dots> \<le> 2 ^ 24 * 2 powi 103" using e False by (intro mult_left_mono power_int_increasing) auto
  also have "\<dots> \<le> overflow32" by (simp add: overflow32_def power_int_def)
  finally show ?thesis using False by simp
qed

lemma binary32_integer:
  assumes "binary32 (real n / real d * 2 powi (- 149))" and "0 < d"
  shows "n mod d = 0"
proof -
  obtain q e where "- 149 \<le> e" "real n / real d * 2 powi (- 149) = float_value q e"
    using assms(1) unfolding binary32_def by blast
  with binary32_above [of "- 149" e q] obtain m where "real n / real d * 2 powi (- 149) = real m * 2 powi (- 149)"
    by metis
  then have "real n / real d = real m" by simp
  then have "real n = real (m * d)" using assms(2) by (simp add: field_simps)
  then have "n = m * d" by (simp only: of_nat_eq_iff)
  then show ?thesis by simp
qed

lemma to_float32_nearest:
  assumes "0 < d" and x: "x = real n / real d"
  shows "case to_float32 neg n d of
      Inl err \<Rightarrow> err = Throws_Out_Of_Range \<and> (overflow32 \<le> x \<or> x < normal32 \<and> \<not> binary32 x)
    | Inr f \<Rightarrow> \<exists>q e. f = Finite neg q e \<and> nearest_float q e x \<and> x < overflow32"
proof (cases "n = 0")
  case True
  have "nearest_float 0 0 0"
    using nearest_float_scaled [of 0 0 "- 149"] by (simp add: nearest_float_def nearest_nat_def float_value_def)
  then show ?thesis using True x by (simp add: to_float32_def overflow32_def)
next
  case False
  define l0 where "l0 = int (bit_len n) - int (bit_len d)"
  define l where "l = (case scaled n d l0 of (n', d') \<Rightarrow> if d' \<le> n' then l0 else l0 - 1)"
  define e where "e = max (- 149) (l - 23)"
  obtain n' d' where s: "scaled n d e = (n', d')" by fastforce
  define q where "q = round_half_even n' d'"
  have l: "2 powi l \<le> x" "x < 2 powi (l + 1)"
    using exponent_correct [OF _ assms(1) l0_def l_def] False x by auto
  have d': "0 < d'" "real n' / real d' = x / 2 powi e" using scaled_value [OF assms(1) s] x by auto
  have q: "nearest_nat q (x / 2 powi e)"
    using round_half_even_nearest [OF d'(1), of n'] by (simp add: q_def d'(2))
  have hi: "x / 2 powi e < 2 ^ 24"
  proof -
    have "x < 2 powi (e + 24)"
      using l(2) power_int_increasing [of "l + 1" "e + 24" "2 :: real"] unfolding e_def by linarith
    then show ?thesis by (simp add: power_int_add divide_less_eq)
  qed
  have lo: "2 ^ 23 \<le> x / 2 powi e" if "e = l - 23"
    using l(1) by (simp add: that power_int_diff field_simps)
  have small: "q \<le> 2 ^ 24" using nearest_nat_least [OF q, of "2 ^ 24"] q hi
    unfolding nearest_nat_def by simp
  have e: "- 149 \<le> e" "e = - 149 \<or> e = l - 23" by (auto simp: e_def)
  have r: "to_float32 neg n d =
      (if 104 < e \<or> e = 104 \<and> q = 2 ^ 24 then Inl Throws_Out_Of_Range
       else if q < 2 ^ 23 \<and> n' mod d' \<noteq> 0 then Inl Throws_Out_Of_Range else Inr (Finite neg q e))"
    unfolding to_float32_def Let_def if_not_P [OF False]
    unfolding l0_def [symmetric] l_def [symmetric] e_def [symmetric] s prod.case q_def [symmetric] by (rule refl)
  consider (over) "104 < e \<or> e = 104 \<and> q = 2 ^ 24"
    | (tiny) "e \<le> 104" "\<not> (e = 104 \<and> q = 2 ^ 24)" "q < 2 ^ 23" "n' mod d' \<noteq> 0"
    | (fits) "e \<le> 104" "\<not> (e = 104 \<and> q = 2 ^ 24)" "\<not> (q < 2 ^ 23 \<and> n' mod d' \<noteq> 0)"
    by linarith
  then show ?thesis
  proof cases
    case over
    have "overflow32 \<le> x"
    proof (cases "e = 104")
      case True
      with over large_scaled [OF q _ hi small] show ?thesis by simp
    next
      case False
      then have "(2 :: real) powi 128 \<le> 2 powi l" using over e by (intro power_int_increasing) auto
      then show ?thesis using l(1) by (simp add: overflow32_def power_int_def)
    qed
    with over show ?thesis by (simp add: r)
  next
    case tiny
    have z: "x / 2 powi e < 2 ^ 23"
      using tiny(3) q by (cases "2 ^ 23 \<le> x / 2 powi e")
        (use nearest_nat_least [OF q, of "2 ^ 23"] in auto)
    then have "e = - 149" using e lo by auto
    with z have "x < 2 ^ 23 * 2 powi (- 149)" by (simp add: divide_less_eq)
    then have "x < normal32" using power_int_add [of "2 :: real" 23 "- 149"] by (simp add: normal32_def)
    moreover have "\<not> binary32 x"
      using binary32_integer [of n' d'] d' tiny(4) \<open>e = - 149\<close> by (auto simp: field_simps)
    ultimately show ?thesis using tiny by (simp add: r)
  next
    case fits
    have "nearest_float q e x"
      using e fits lo by (intro nearest_float_scaled [OF q] small) auto
    moreover have "\<not> overflow32 \<le> x" using large_scaled [OF q fits(1) hi small] fits(2) by simp
    ultimately show ?thesis using fits by (auto simp: r not_le)
  qed
qed

section \<open>Decimal texts\<close>

text \<open>A sign, digits, perhaps a point with digits, perhaps an exponent.\<close>

definition decimal_text :: "bool \<Rightarrow> string \<Rightarrow> string option \<Rightarrow> int option \<Rightarrow> string" where
  "decimal_text neg ds fs ex = sign_text neg @ ds @
     (case fs of None \<Rightarrow> [] | Some f \<Rightarrow> ''.'' @ f) @
     (case ex of None \<Rightarrow> [] | Some k \<Rightarrow> ''e'' @ sign_text (k < 0) @ show_nat (nat \<bar>k\<bar>))"

definition decimal_value :: "string \<Rightarrow> string option \<Rightarrow> int option \<Rightarrow> real" where
  "decimal_value ds fs ex =
     (let f = (case fs of None \<Rightarrow> [] | Some f \<Rightarrow> f); k = (case ex of None \<Rightarrow> 0 | Some k \<Rightarrow> k)
      in real (digits_val (ds @ f)) / 10 ^ length f * 10 powi k)"

definition digits :: "string \<Rightarrow> bool" where
  "digits s \<longleftrightarrow> (\<forall>c\<in>set s. isdigit c)"

lemma show_nat_digits: "digits (show_nat n) \<and> digits_val (show_nat n) = n \<and> show_nat n \<noteq> []"
proof (induction n rule: show_nat.induct)
  case (1 n)
  have v: "dec_val (digit_char d) = d" if "d < 10" for d
    using that by (simp add: dec_val_def of_char_digit)
  show ?case
    using 1 by (subst (1 2 3) show_nat.simps) (auto simp: digits_def digits_val_append v)
qed

lemma show_nat_head: "hd (show_nat n) = CHR ''0'' \<Longrightarrow> n = 0"
proof (induction n rule: show_nat.induct)
  case (1 n)
  have "n = 0" if "n < 10" "digit_char n = CHR ''0''"
    using that of_char_digit [of n] by simp
  moreover have "hd (show_nat n) = hd (show_nat (n div 10))" if "\<not> n < 10"
    using that show_nat_digits [of "n div 10"] by (subst show_nat.simps) simp
  ultimately show ?case using 1 by (cases "n < 10") (auto simp: show_nat.simps [of n])
qed

lemma fixed_digits_value: "digits (fixed_digits k n) \<and> digits_val (fixed_digits k n) = n mod 10 ^ k"
proof (induction k arbitrary: n)
  case (Suc k)
  have "n mod 10 ^ Suc k = 10 * (n div 10 mod 10 ^ k) + n mod 10" by (simp add: mod_mult2_eq)
  then show ?case using Suc [of "n div 10"]
    by (auto simp: digits_def digits_val_append dec_val_def of_char_digit)
qed (simp add: digits_def)

text \<open>What is not a digit ends a run of digits.\<close>

lemma take_digits:
  assumes "digits ds" and "s = [] \<or> \<not> isdigit (hd s)"
  shows "takeWhile isdigit (ds @ s) = ds" "dropWhile isdigit (ds @ s) = s"
  using assms by (cases s; auto simp: digits_def takeWhile_append2 dropWhile_append2)+

lemma digit_class: "isdigit c \<Longrightarrow> \<not> isspace c \<and> c \<noteq> CHR ''-'' \<and> c \<noteq> CHR ''+'' \<and> c \<noteq> CHR ''.'' \<and> lower c = c"
  by (auto simp: isdigit_def isspace_def lower_def)

abbreviation fraction_text :: "string option \<Rightarrow> string" where
  "fraction_text fs \<equiv> (case fs of None \<Rightarrow> [] | Some f \<Rightarrow> ''.'' @ f)"

abbreviation exponent_text :: "int option \<Rightarrow> string" where
  "exponent_text ex \<equiv> (case ex of None \<Rightarrow> [] | Some k \<Rightarrow> ''e'' @ sign_text (k < 0) @ show_nat (nat \<bar>k\<bar>))"

lemma marks: "\<not> isdigit (CHR ''.'')" "\<not> isdigit (CHR ''e'')" "\<not> isspace (CHR ''-'')"
    "lower (CHR ''.'') = CHR ''.''" "lower (CHR ''e'') = CHR ''e''" "CHR ''.'' \<noteq> CHR ''x''"
  by code_simp+

lemma mantissa_decimal:
  assumes "digits ds" "ds \<noteq> []" "\<forall>f. fs = Some f \<longrightarrow> digits f"
  shows "mantissa_of isdigit dec_val 10 (ds @ fraction_text fs @ exponent_text ex) =
    Some (digits_val (ds @ (case fs of None \<Rightarrow> [] | Some f \<Rightarrow> f)),
      length (case fs of None \<Rightarrow> [] | Some f \<Rightarrow> f), exponent_text ex)"
proof -
  have e: "exponent_text ex = [] \<or> \<not> isdigit (hd (exponent_text ex))" "exponent_text ex \<noteq> [] \<longrightarrow> hd (exponent_text ex) \<noteq> CHR ''.''"
    by (cases ex; simp add: marks)+
  show ?thesis
  proof (cases fs)
    case None
    have "(case exponent_text ex of [] \<Rightarrow> ([], exponent_text ex)
        | c # s' \<Rightarrow> if c = CHR ''.'' then (takeWhile isdigit s', dropWhile isdigit s') else ([], exponent_text ex)) =
        ([], exponent_text ex)"
      using e(2) by (cases ex) auto
    with None assms(2) show ?thesis
      by (simp add: mantissa_of_def Let_def digits_val_def take_digits [OF assms(1) e(1)])
  next
    case (Some f)
    then have f: "digits f" using assms(3) by simp
    show ?thesis
      using take_digits [OF assms(1), of "''.'' @ f @ exponent_text ex"] take_digits [OF f e(1)] assms(2)
      by (simp add: Some mantissa_of_def Let_def digits_val_def marks)
  qed
qed

lemma exponent_decimal:
  "exponent_of (CHR ''e'') (exponent_text ex) = (case ex of None \<Rightarrow> 0 | Some k \<Rightarrow> k)"
proof (cases ex)
  case (Some k)
  let ?t = "show_nat (nat \<bar>k\<bar>)"
  have t: "takeWhile isdigit (show_nat m) = show_nat m" "digits_val (show_nat m) = m" for m
    using show_nat_digits [of m] by (auto simp: digits_def)
  have h: "?t \<noteq> []" "isdigit (hd ?t)" using show_nat_digits [of "nat \<bar>k\<bar>"] by (auto simp: digits_def)
  have "sign_of (sign_text (k < 0) @ ?t) = (k < 0, ?t)"
    using digit_class [OF h(2)] h(1) by (cases ?t) (auto simp: sign_of_def sign_text_def)
  then show ?thesis by (simp add: Some exponent_of_def marks t Let_def)
qed (simp add: exponent_of_def)

lemma not_hexadecimal:
  assumes "digits ds" "ds \<noteq> []"
  shows "\<not> starts_with_lower ''0x'' (ds @ fraction_text fs @ exponent_text ex)"
proof -
  have "lower c \<noteq> CHR ''x''" if "isdigit c" for c using that by (auto simp: isdigit_def lower_def)
  then show ?thesis
    using assms
    by (cases ds; cases "tl ds"; cases fs; cases ex) (auto simp: starts_with_lower_def digits_def marks)
qed

lemma stof_decimal:
  assumes "digits ds" "ds \<noteq> []" "\<forall>f. fs = Some f \<longrightarrow> digits f"
  shows "\<exists>n d. stof (decimal_text neg ds fs ex) = to_float32 neg n d \<and> 0 < d \<and>
    real n / real d = decimal_value ds fs ex"
proof -
  let ?s = "ds @ fraction_text fs @ exponent_text ex" and ?f = "case fs of None \<Rightarrow> [] | Some f \<Rightarrow> f"
  let ?k = "case ex of None \<Rightarrow> 0 | Some k \<Rightarrow> k"
  have h: "isdigit (hd ds)" using assms by (auto simp: digits_def)
  then have s: "dropWhile isspace ?s = ?s" "sign_of ?s = (False, ?s)"
    using digit_class [OF h] assms(2) by (cases ds; simp add: sign_of_def)+
  have "sign_of (dropWhile isspace (decimal_text neg ds fs ex)) = (neg, ?s)"
    using s by (cases neg) (simp_all add: decimal_text_def sign_text_def marks sign_of_def [of "_ # _"])
  moreover obtain n d where nd: "ratio (digits_val (ds @ ?f)) 10 (?k - int (length ?f)) = (n, d)" by fastforce
  ultimately have "stof (decimal_text neg ds fs ex) = to_float32 neg n d"
    using not_hexadecimal [OF assms(1,2)] mantissa_decimal [OF assms]
    by (simp add: stof_def Let_def exponent_decimal)
  moreover have "0 < d \<and> real n / real d = real (digits_val (ds @ ?f)) * 10 powi (?k - int (length ?f))"
    using nd by (auto simp: ratio_def power_int_def field_simps split: if_splits)
  moreover have "real (digits_val (ds @ ?f)) * 10 powi (?k - int (length ?f)) = decimal_value ds fs ex"
    by (simp add: decimal_value_def Let_def power_int_diff field_simps)
  ultimately show ?thesis by metis
qed

section \<open>The text\<close>

lemma units18_nearest: "nearest_nat (units18 q e) (float_value q e * 10 ^ 18)"
proof (cases "0 \<le> e")
  case True
  then show ?thesis by (simp add: units18_def nearest_nat_def float_value_def power_int_def)
next
  case False
  then have "float_value q e * 10 ^ 18 = real (q * 10 ^ 18) / real (2 ^ nat (- e))"
    by (simp add: float_value_def power_int_def field_simps)
  with False round_half_even_nearest [of "2 ^ nat (- e)" "q * 10 ^ 18"] show ?thesis by (simp add: units18_def)
qed

text \<open>The digits of \<open>v\<close> units of \<open>10 ^ -18\<close>: the whole part \<open>w\<close> without leading zeros, and 18 decimals.\<close>

definition fixed_text :: "nat \<Rightarrow> string \<Rightarrow> string \<Rightarrow> bool" where
  "fixed_text v w f \<longleftrightarrow> digits w \<and> digits f \<and> length f = 18 \<and> digits_val (w @ f) = v \<and>
     w \<noteq> [] \<and> (hd w = CHR ''0'' \<longrightarrow> w = ''0'')"

lemma fixed_text_units: "fixed_text v (show_nat (v div 10 ^ 18)) (fixed_digits 18 v)"
proof -
  have "show_nat 0 = ''0''" by (simp add: show_nat.simps digit_chars)
  moreover have "digits_val (show_nat (v div 10 ^ 18) @ fixed_digits 18 v) = v"
    using show_nat_digits [of "v div 10 ^ 18"] fixed_digits_value [of 18 v] by (simp add: digits_val_append)
  ultimately show ?thesis
    using show_nat_digits [of "v div 10 ^ 18"] fixed_digits_value [of 18 v] show_nat_head [of "v div 10 ^ 18"]
    unfolding fixed_text_def by auto
qed

section \<open>Properties\<close>

text \<open>
  (C31) The text of a decimal number, with or without a fraction and an exponent, is
  normalised to the digits of the nearest binary32 number (ties to even) rounded to 18 decimals,
  cut after ten characters or after the point, whichever is later.  \<open>normalize_float\<close> throws
  only \<open>std::out_of_range\<close>: always when the number rounds beyond the finite ones, and else only
  below the normal numbers when the number is not exact.
\<close>

theorem normalize_float_nearest:
  assumes "digits ds" and "ds \<noteq> []" and "\<forall>f. fs = Some f \<longrightarrow> digits f"
  shows "case normalize_float (decimal_text neg ds fs ex) of
      Inl err \<Rightarrow> err = Throws_Out_Of_Range \<and>
        (overflow32 \<le> decimal_value ds fs ex \<or>
         decimal_value ds fs ex < normal32 \<and> \<not> binary32 (decimal_value ds fs ex))
    | Inr t \<Rightarrow> decimal_value ds fs ex < overflow32 \<and>
        (\<exists>q e v w f. nearest_float q e (decimal_value ds fs ex) \<and>
          nearest_nat v (float_value q e * 10 ^ 18) \<and> fixed_text v w f \<and>
          t = take (max 10 (length (sign_text neg @ w) + 1)) (sign_text neg @ w @ ''.'' @ f))"
proof -
  obtain n d where s: "stof (decimal_text neg ds fs ex) = to_float32 neg n d"
    and d: "0 < d" "decimal_value ds fs ex = real n / real d"
    using stof_decimal [OF assms] by metis
  show ?thesis
  proof (cases "to_float32 neg n d")
    case (Inl err)
    then show ?thesis using to_float32_nearest [OF d, of neg] s by (simp add: normalize_float_def)
  next
    case (Inr g)
    then obtain q e where g: "g = Finite neg q e" "nearest_float q e (decimal_value ds fs ex)"
      "decimal_value ds fs ex < overflow32"
      using to_float32_nearest [OF d, of neg] by auto
    let ?v = "units18 q e"
    let ?w = "show_nat (?v div 10 ^ 18)"
    have t: "normalize_float (decimal_text neg ds fs ex) =
        Inr (take (max 10 (length (sign_text neg @ ?w) + 1)) (sign_text neg @ ?w @ ''.'' @ fixed_digits 18 ?v))"
      using normalize_finite [of "decimal_text neg ds fs ex" neg q e] s Inr g(1)
      by (simp only: Let_def append_assoc)
    show ?thesis
      unfolding t sum.case
      using g(2,3) units18_nearest [of q e] fixed_text_units [of ?v] by blast
  qed
qed

theorem normalize_float_nearest_witness:
  "\<exists>t q e v. normalize_float ''-0.1'' = Inr t \<and> nearest_float q e (1 / 10) \<and>
     nearest_nat v (float_value q e * 10 ^ 18)"
proof -
  have t: "decimal_text True ''0'' (Some ''1'') None = ''-0.1''"
    and x: "decimal_value ''0'' (Some ''1'') None = 1 / 10" and d: "digits ''0''" "digits ''1''"
    by (simp_all add: decimal_text_def sign_text_def decimal_value_def digits_val_def dec_val_def digits_def isdigit_def)
  have "\<not> (overflow32 \<le> 1 / 10 \<or> (1 / 10 < normal32 \<and> \<not> binary32 (1 / 10)))"
    using power_int_increasing [of "- 126" "- 4" "2 :: real"]
    by (simp add: overflow32_def normal32_def del: power_int_minus)
  then show ?thesis
    using normalize_float_nearest [of "''0''" "Some ''1''" None True] d unfolding t x
    by (auto split: sum.splits)
qed

end
