(* ===== verification/Xxh_Base.thy ===== *)
theory Xxh_Base
  imports Prelude
begin

text \<open>
  The primitives of \<^verbatim>\<open>3rd/xxhash/include/xxhash.h\<close> all variants of the hash share: reading and
  writing 32- and 64-bit integers in a fixed byte order, byte swaps, rotations, the prime
  constants.

  A pointer to memory is the list of the bytes from there to the end of the object, so
  \<open>p + n\<close> is \<open>drop n p\<close>; a read behind the end is \<open>nth\<close> outside its range, about which
  nothing can be proved.  A \<open>size_t\<close> is a \<open>nat\<close> where it counts bytes of such an object,
  and a word where the code computes with it.
\<close>

type_synonym bytes = "8 word list"

datatype XXH_errorcode = XXH_OK | XXH_ERROR

section \<open>Little-endian numbers as byte lists\<close>

fun le_word :: "bytes \<Rightarrow> 'a::len word" where
  "le_word [] = 0"
| "le_word (b # bs) = ucast b OR push_bit 8 (le_word bs)"

definition le_bytes :: "nat \<Rightarrow> 'a::len word \<Rightarrow> bytes" where
  "le_bytes k w = map (\<lambda>i. ucast (drop_bit (8 * i) w)) [0..<k]"

lemma length_le_bytes [simp]: "length (le_bytes k w) = k"
  by (simp add: le_bytes_def)

lemma bit_le_word:
  "bit (le_word bs :: 'a::len word) n \<longleftrightarrow>
     n < LENGTH('a) \<and> n div 8 < length bs \<and> bit (bs ! (n div 8)) (n mod 8)"
proof (induction bs arbitrary: n)
  case Nil
  then show ?case by simp
next
  case (Cons b bs)
  show ?case
  proof (cases "n < 8")
    case True
    then show ?thesis by (auto simp: bit_or_iff bit_push_bit_iff bit_ucast_iff)
  next
    case False
    then have n: "n div 8 = Suc ((n - 8) div 8)" "n mod 8 = (n - 8) mod 8"
      by (simp_all add: le_div_geq le_mod_geq)
    have "\<not> bit b n" using False using bit_imp_le_length [of b n] by auto
    then show ?thesis using False n Cons [of "n - 8"]
      by (auto simp: bit_or_iff bit_push_bit_iff bit_ucast_iff)
  qed
qed

lemma bit_le_bytes:
  "i < k \<Longrightarrow> bit (le_bytes k w ! i) n \<longleftrightarrow> n < 8 \<and> bit (w :: 'a::len word) (8 * i + n)"
  by (auto simp: le_bytes_def bit_ucast_iff bit_drop_bit_eq dest: bit_imp_le_length)

lemma le_word_le_bytes: "LENGTH('a) \<le> 8 * k \<Longrightarrow> le_word (le_bytes k w) = (w :: 'a::len word)"
proof (rule bit_word_eqI)
  fix n assume "LENGTH('a) \<le> 8 * k" "n < LENGTH('a)"
  then have "n div 8 < k" by (simp add: div_less_iff_less_mult)
  with \<open>n < LENGTH('a)\<close> show "bit (le_word (le_bytes k w) :: 'a word) n = bit w n"
    by (simp add: bit_le_word bit_le_bytes)
qed

lemma le_bytes_le_word:
  assumes "length bs = k" "8 * k \<le> LENGTH('a::len)"
  shows "le_bytes k (le_word bs :: 'a word) = bs"
proof (rule nth_equalityI)
  show "length (le_bytes k (le_word bs :: 'a word)) = length bs" using assms by simp
next
  fix i assume "i < length (le_bytes k (le_word bs :: 'a word))"
  then have i: "i < k" by simp
  show "le_bytes k (le_word bs :: 'a word) ! i = bs ! i"
  proof (rule bit_word_eqI)
    fix n assume n: "n < LENGTH(8)"
    then have "(8 * i + n) div 8 = i" "(8 * i + n) mod 8 = n" "8 * i + n < LENGTH('a)"
      using i assms by simp_all
    with n i assms show "bit (le_bytes k (le_word bs :: 'a word) ! i) n = bit (bs ! i) n"
      by (simp add: bit_le_word bit_le_bytes)
  qed
qed

section \<open>Rotations and byte swaps\<close>

definition XXH_rotl32 :: "32 word \<Rightarrow> nat \<Rightarrow> 32 word" where
  "XXH_rotl32 x r = push_bit r x OR drop_bit (32 - r) x"

definition XXH_rotl64 :: "64 word \<Rightarrow> nat \<Rightarrow> 64 word" where
  "XXH_rotl64 x r = push_bit r x OR drop_bit (64 - r) x"

definition XXH_swap32 :: "32 word \<Rightarrow> 32 word" where
  "XXH_swap32 x =
     (push_bit 24 x AND 0xff000000) OR (push_bit 8 x AND 0x00ff0000) OR
     (drop_bit 8 x AND 0x0000ff00) OR (drop_bit 24 x AND 0x000000ff)"

definition XXH_swap64 :: "64 word \<Rightarrow> 64 word" where
  "XXH_swap64 x =
     (push_bit 56 x AND 0xff00000000000000) OR (push_bit 40 x AND 0x00ff000000000000) OR
     (push_bit 24 x AND 0x0000ff0000000000) OR (push_bit 8 x AND 0x000000ff00000000) OR
     (drop_bit 8 x AND 0x00000000ff000000) OR (drop_bit 24 x AND 0x0000000000ff0000) OR
     (drop_bit 40 x AND 0x000000000000ff00) OR (drop_bit 56 x AND 0x00000000000000ff)"

text \<open>Masking a byte, bit by bit.\<close>

lemma bit_byte_mask: "bit (push_bit s (0xff :: 'a::len word)) n \<longleftrightarrow> n < LENGTH('a) \<and> s \<le> n \<and> n < s + 8"
proof -
  have "(0xff :: 'a word) = mask 8" by (simp add: mask_eq_exp_minus_1)
  have m: "bit (mask 8 :: 'a word) k \<longleftrightarrow> k < LENGTH('a) \<and> k < 8" for k
    by (rule bit_mask_iff [THEN trans]) auto
  show ?thesis unfolding \<open>0xff = mask 8\<close> by (auto simp: bit_push_bit_iff m simp del: mask_numeral)
qed

lemma bit_swap_masks:
  "bit (0x000000ff :: 32 word) n \<longleftrightarrow> n < 8"
  "bit (0x0000ff00 :: 32 word) n \<longleftrightarrow> 8 \<le> n \<and> n < 16"
  "bit (0x00ff0000 :: 32 word) n \<longleftrightarrow> 16 \<le> n \<and> n < 24"
  "bit (0xff000000 :: 32 word) n \<longleftrightarrow> 24 \<le> n \<and> n < 32"
  "bit (0x00000000000000ff :: 64 word) n \<longleftrightarrow> n < 8"
  "bit (0x000000000000ff00 :: 64 word) n \<longleftrightarrow> 8 \<le> n \<and> n < 16"
  "bit (0x0000000000ff0000 :: 64 word) n \<longleftrightarrow> 16 \<le> n \<and> n < 24"
  "bit (0x00000000ff000000 :: 64 word) n \<longleftrightarrow> 24 \<le> n \<and> n < 32"
  "bit (0x000000ff00000000 :: 64 word) n \<longleftrightarrow> 32 \<le> n \<and> n < 40"
  "bit (0x0000ff0000000000 :: 64 word) n \<longleftrightarrow> 40 \<le> n \<and> n < 48"
  "bit (0x00ff000000000000 :: 64 word) n \<longleftrightarrow> 48 \<le> n \<and> n < 56"
  "bit (0xff00000000000000 :: 64 word) n \<longleftrightarrow> 56 \<le> n \<and> n < 64"
  subgoal using bit_byte_mask [where 'a = 32, of 0 n] by auto
  subgoal using bit_byte_mask [where 'a = 32, of 8 n] by auto
  subgoal using bit_byte_mask [where 'a = 32, of 16 n] by auto
  subgoal using bit_byte_mask [where 'a = 32, of 24 n] by auto
  subgoal using bit_byte_mask [where 'a = 64, of 0 n] by auto
  subgoal using bit_byte_mask [where 'a = 64, of 8 n] by auto
  subgoal using bit_byte_mask [where 'a = 64, of 16 n] by auto
  subgoal using bit_byte_mask [where 'a = 64, of 24 n] by auto
  subgoal using bit_byte_mask [where 'a = 64, of 32 n] by auto
  subgoal using bit_byte_mask [where 'a = 64, of 40 n] by auto
  subgoal using bit_byte_mask [where 'a = 64, of 48 n] by auto
  subgoal using bit_byte_mask [where 'a = 64, of 56 n] by auto
  done

lemma bit_XXH_swap32:
  assumes "m < 8" "q < 4"
  shows "bit (XXH_swap32 x) (8 * q + m) \<longleftrightarrow> bit x (8 * (3 - q) + m)"
proof -
  from assms(2) consider "q = 0" | "q = 1" | "q = 2" | "q = 3" by linarith
  then show ?thesis
    by cases (use assms(1) in \<open>simp_all add: XXH_swap32_def bit_or_iff bit_and_iff bit_swap_masks
      bit_push_bit_iff bit_drop_bit_eq add.commute del: bit_numeral_word_iff\<close>)
qed

lemma bit_XXH_swap64:
  assumes "m < 8" "q < 8"
  shows "bit (XXH_swap64 x) (8 * q + m) \<longleftrightarrow> bit x (8 * (7 - q) + m)"
proof -
  from assms(2) consider "q = 0" | "q = 1" | "q = 2" | "q = 3" | "q = 4" | "q = 5" | "q = 6" | "q = 7"
    by linarith
  then show ?thesis
    by cases (use assms(1) in \<open>simp_all add: XXH_swap64_def bit_or_iff bit_and_iff bit_swap_masks
      bit_push_bit_iff bit_drop_bit_eq add.commute del: bit_numeral_word_iff\<close>)
qed

text \<open>Two words agree when they agree on every bit of every byte.\<close>

lemma byte_bit_eqI:
  assumes "LENGTH('a) = 8 * k"
    and "\<And>q m. q < k \<Longrightarrow> m < 8 \<Longrightarrow> bit v (8 * q + m) = bit w (8 * q + m)"
  shows "v = (w :: 'a::len word)"
proof (rule bit_word_eqI)
  fix n assume "n < LENGTH('a)"
  then have "n div 8 < k" using assms(1) by (simp add: div_less_iff_less_mult)
  then show "bit v n = bit w n" using assms(2) [of "n div 8" "n mod 8"] by simp
qed

lemma XXH_swap32_involution: "XXH_swap32 (XXH_swap32 x) = x"
  by (rule byte_bit_eqI [of 4]) (simp_all add: bit_XXH_swap32)

lemma XXH_swap64_involution: "XXH_swap64 (XXH_swap64 x) = x"
  by (rule byte_bit_eqI [of 8]) (simp_all add: bit_XXH_swap64)

lemma XXH_swap32_le_word:
  assumes "length bs = 4"
  shows "XXH_swap32 (le_word bs) = le_word (rev bs)"
proof (rule byte_bit_eqI [of 4])
  fix q m :: nat assume "q < 4" "m < 8"
  moreover from this have "8 * (3 - q) + m < 32" "8 * q + m < 32" by auto
  ultimately show "bit (XXH_swap32 (le_word bs)) (8 * q + m) = bit (le_word (rev bs) :: 32 word) (8 * q + m)"
    using assms by (simp add: bit_XXH_swap32 bit_le_word rev_nth)
qed simp

lemma XXH_swap64_le_word:
  assumes "length bs = 8"
  shows "XXH_swap64 (le_word bs) = le_word (rev bs)"
proof (rule byte_bit_eqI [of 8])
  fix q m :: nat assume "q < 8" "m < 8"
  moreover from this have "8 * (7 - q) + m < 64" "8 * q + m < 64" by auto
  ultimately show "bit (XXH_swap64 (le_word bs)) (8 * q + m) = bit (le_word (rev bs) :: 64 word) (8 * q + m)"
    using assms by (simp add: bit_XXH_swap64 bit_le_word rev_nth)
qed simp

section \<open>Reading and writing memory\<close>

text \<open>The byte-wise readers.\<close>

definition XXH_readLE32 :: "bytes \<Rightarrow> 32 word" where
  "XXH_readLE32 p =
     ucast (p ! 0) OR push_bit 8 (ucast (p ! 1)) OR push_bit 16 (ucast (p ! 2)) OR
     push_bit 24 (ucast (p ! 3))"

definition XXH_readBE32 :: "bytes \<Rightarrow> 32 word" where
  "XXH_readBE32 p =
     ucast (p ! 3) OR push_bit 8 (ucast (p ! 2)) OR push_bit 16 (ucast (p ! 1)) OR
     push_bit 24 (ucast (p ! 0))"

definition XXH_readLE64 :: "bytes \<Rightarrow> 64 word" where
  "XXH_readLE64 p =
     ucast (p ! 0) OR push_bit 8 (ucast (p ! 1)) OR push_bit 16 (ucast (p ! 2)) OR
     push_bit 24 (ucast (p ! 3)) OR push_bit 32 (ucast (p ! 4)) OR push_bit 40 (ucast (p ! 5)) OR
     push_bit 48 (ucast (p ! 6)) OR push_bit 56 (ucast (p ! 7))"

definition XXH_readBE64 :: "bytes \<Rightarrow> 64 word" where
  "XXH_readBE64 p =
     ucast (p ! 7) OR push_bit 8 (ucast (p ! 6)) OR push_bit 16 (ucast (p ! 5)) OR
     push_bit 24 (ucast (p ! 4)) OR push_bit 32 (ucast (p ! 3)) OR push_bit 40 (ucast (p ! 2)) OR
     push_bit 48 (ucast (p ! 1)) OR push_bit 56 (ucast (p ! 0))"

text \<open>
  The readers that copy the object representation of an integer (\<open>memcpy\<close>), which is its
  bytes in the order of the machine, and swap them when that order is not the wanted one.
\<close>

definition XXH_read32 :: "bool \<Rightarrow> bytes \<Rightarrow> 32 word" where
  "XXH_read32 little_endian p = le_word (if little_endian then take 4 p else rev (take 4 p))"

definition XXH_read64 :: "bool \<Rightarrow> bytes \<Rightarrow> 64 word" where
  "XXH_read64 little_endian p = le_word (if little_endian then take 8 p else rev (take 8 p))"

definition XXH_readLE32_memcpy :: "bool \<Rightarrow> bytes \<Rightarrow> 32 word" where
  "XXH_readLE32_memcpy little_endian p =
     (if little_endian then XXH_read32 little_endian p else XXH_swap32 (XXH_read32 little_endian p))"

definition XXH_readBE32_memcpy :: "bool \<Rightarrow> bytes \<Rightarrow> 32 word" where
  "XXH_readBE32_memcpy little_endian p =
     (if little_endian then XXH_swap32 (XXH_read32 little_endian p) else XXH_read32 little_endian p)"

definition XXH_readLE64_memcpy :: "bool \<Rightarrow> bytes \<Rightarrow> 64 word" where
  "XXH_readLE64_memcpy little_endian p =
     (if little_endian then XXH_read64 little_endian p else XXH_swap64 (XXH_read64 little_endian p))"

definition XXH_readBE64_memcpy :: "bool \<Rightarrow> bytes \<Rightarrow> 64 word" where
  "XXH_readBE64_memcpy little_endian p =
     (if little_endian then XXH_swap64 (XXH_read64 little_endian p) else XXH_read64 little_endian p)"

text \<open>\<open>XXH_readLE32_align\<close> and \<open>XXH_readLE64_align\<close>: both branches read the same bytes.\<close>

datatype XXH_alignment = XXH_aligned | XXH_unaligned

definition XXH_readLE32_align :: "bytes \<Rightarrow> XXH_alignment \<Rightarrow> 32 word" where
  "XXH_readLE32_align p align =
     (if align = XXH_unaligned then XXH_readLE32 p else XXH_readLE32_memcpy True p)"

definition XXH_readLE64_align :: "bytes \<Rightarrow> XXH_alignment \<Rightarrow> 64 word" where
  "XXH_readLE64_align p align =
     (if align = XXH_unaligned then XXH_readLE64 p else XXH_readLE64_memcpy True p)"

text \<open>\<open>memcpy(dst + off, src, length src)\<close>.\<close>

definition memcpy_at :: "nat \<Rightarrow> 'a list \<Rightarrow> 'a list \<Rightarrow> 'a list" where
  "memcpy_at off src dst = take off dst @ src @ drop (off + length src) dst"

definition XXH_writeLE64 :: "nat \<Rightarrow> 64 word \<Rightarrow> bytes \<Rightarrow> bytes" where
  "XXH_writeLE64 off v dst = memcpy_at off (le_bytes 8 v) dst"

section \<open>What the readers and writers compute\<close>

lemma take_4: "4 \<le> length p \<Longrightarrow> take 4 p = [p ! 0, p ! 1, p ! 2, p ! 3]"
  by (rule nth_equalityI) (auto simp: less_Suc_eq numeral_eq_Suc)

lemma take_8:
  "8 \<le> length p \<Longrightarrow> take 8 p = [p ! 0, p ! 1, p ! 2, p ! 3, p ! 4, p ! 5, p ! 6, p ! 7]"
  by (rule nth_equalityI) (auto simp: less_Suc_eq numeral_eq_Suc)

lemma XXH_readLE32_eq: "4 \<le> length p \<Longrightarrow> XXH_readLE32 p = le_word (take 4 p)"
  by (simp add: XXH_readLE32_def take_4 push_bit_or)

lemma XXH_readBE32_eq: "4 \<le> length p \<Longrightarrow> XXH_readBE32 p = le_word (rev (take 4 p))"
  by (simp add: XXH_readBE32_def take_4 push_bit_or)

lemma XXH_readLE64_eq: "8 \<le> length p \<Longrightarrow> XXH_readLE64 p = le_word (take 8 p)"
  by (simp add: XXH_readLE64_def take_8 push_bit_or)

lemma XXH_readBE64_eq: "8 \<le> length p \<Longrightarrow> XXH_readBE64 p = le_word (rev (take 8 p))"
  by (simp add: XXH_readBE64_def take_8 push_bit_or)

lemma XXH_readLE32_memcpy_eq: "4 \<le> length p \<Longrightarrow> XXH_readLE32_memcpy le p = XXH_readLE32 p"
  by (simp add: XXH_readLE32_memcpy_def XXH_read32_def XXH_readLE32_eq XXH_swap32_le_word)

lemma XXH_readBE32_memcpy_eq: "4 \<le> length p \<Longrightarrow> XXH_readBE32_memcpy le p = XXH_readBE32 p"
  by (simp add: XXH_readBE32_memcpy_def XXH_read32_def XXH_readBE32_eq XXH_swap32_le_word)

lemma XXH_readLE64_memcpy_eq: "8 \<le> length p \<Longrightarrow> XXH_readLE64_memcpy le p = XXH_readLE64 p"
  by (simp add: XXH_readLE64_memcpy_def XXH_read64_def XXH_readLE64_eq XXH_swap64_le_word)

lemma XXH_readBE64_memcpy_eq: "8 \<le> length p \<Longrightarrow> XXH_readBE64_memcpy le p = XXH_readBE64 p"
  by (simp add: XXH_readBE64_memcpy_def XXH_read64_def XXH_readBE64_eq XXH_swap64_le_word)

lemma XXH_readLE32_align_eq: "4 \<le> length p \<Longrightarrow> XXH_readLE32_align p align = XXH_readLE32 p"
  by (simp add: XXH_readLE32_align_def XXH_readLE32_memcpy_eq)

lemma XXH_readLE64_align_eq: "8 \<le> length p \<Longrightarrow> XXH_readLE64_align p align = XXH_readLE64 p"
  by (simp add: XXH_readLE64_align_def XXH_readLE64_memcpy_eq)

text \<open>A read only depends on the bytes it is meant to read.\<close>

lemma XXH_readLE32_cong:
  "(\<And>i. i < 4 \<Longrightarrow> p ! i = q ! i) \<Longrightarrow> XXH_readLE32 p = XXH_readLE32 q"
  by (simp add: XXH_readLE32_def)

lemma XXH_readLE64_cong:
  "(\<And>i. i < 8 \<Longrightarrow> p ! i = q ! i) \<Longrightarrow> XXH_readLE64 p = XXH_readLE64 q"
  by (simp add: XXH_readLE64_def)

lemma XXH_readLE32_take:
  "k + 4 \<le> n \<Longrightarrow> n \<le> length p \<Longrightarrow> XXH_readLE32 (drop k (take n p)) = XXH_readLE32 (drop k p)"
  by (rule XXH_readLE32_cong) simp

lemma XXH_readLE64_take:
  "k + 8 \<le> n \<Longrightarrow> n \<le> length p \<Longrightarrow> XXH_readLE64 (drop k (take n p)) = XXH_readLE64 (drop k p)"
  by (rule XXH_readLE64_cong) simp

lemma XXH_readLE32_append:
  "k + 4 \<le> length p \<Longrightarrow> XXH_readLE32 (drop k (p @ q)) = XXH_readLE32 (drop k p)"
  by (rule XXH_readLE32_cong) (auto simp: nth_append)

lemma XXH_readLE64_append:
  "k + 8 \<le> length p \<Longrightarrow> XXH_readLE64 (drop k (p @ q)) = XXH_readLE64 (drop k p)"
  by (rule XXH_readLE64_cong) (auto simp: nth_append)

lemma length_memcpy_at [simp]:
  "off + length src \<le> length dst \<Longrightarrow> length (memcpy_at off src dst) = length dst"
  by (simp add: memcpy_at_def)

lemma nth_memcpy_at:
  "off + length src \<le> length dst \<Longrightarrow> i < length dst \<Longrightarrow>
    memcpy_at off src dst ! i =
      (if off \<le> i \<and> i < off + length src then src ! (i - off) else dst ! i)"
  by (auto simp: memcpy_at_def nth_append)

lemma take_memcpy_at: "off \<le> length dst \<Longrightarrow> take (off + length src) (memcpy_at off src dst) = take off dst @ src"
  by (simp add: memcpy_at_def)

lemma XXH_readLE64_le_bytes: "XXH_readLE64 (le_bytes 8 v @ q) = v"
proof -
  have "XXH_readLE64 (le_bytes 8 v @ q) = le_word (le_bytes 8 v)"
    by (simp add: XXH_readLE64_eq)
  then show ?thesis by (simp add: le_word_le_bytes)
qed

section \<open>Constants\<close>

definition XXH_PRIME32_1 :: "32 word" where "XXH_PRIME32_1 = 0x9E3779B1"
definition XXH_PRIME32_2 :: "32 word" where "XXH_PRIME32_2 = 0x85EBCA77"
definition XXH_PRIME32_3 :: "32 word" where "XXH_PRIME32_3 = 0xC2B2AE3D"
definition XXH_PRIME32_4 :: "32 word" where "XXH_PRIME32_4 = 0x27D4EB2F"
definition XXH_PRIME32_5 :: "32 word" where "XXH_PRIME32_5 = 0x165667B1"

definition XXH_PRIME64_1 :: "64 word" where "XXH_PRIME64_1 = 0x9E3779B185EBCA87"
definition XXH_PRIME64_2 :: "64 word" where "XXH_PRIME64_2 = 0xC2B2AE3D27D4EB4F"
definition XXH_PRIME64_3 :: "64 word" where "XXH_PRIME64_3 = 0x165667B19E3779F9"
definition XXH_PRIME64_4 :: "64 word" where "XXH_PRIME64_4 = 0x85EBCA77C2B2AE63"
definition XXH_PRIME64_5 :: "64 word" where "XXH_PRIME64_5 = 0x27D4EB2F165667C5"

section \<open>Consuming whole blocks\<close>

text \<open>
  \<open>absorb B step v p\<close> feeds the blocks of \<open>B\<close> bytes of \<open>p\<close> to \<open>step\<close>, one after the
  other, and returns the bytes that do not fill a block as well.
\<close>

function absorb :: "nat \<Rightarrow> ('v \<Rightarrow> bytes \<Rightarrow> 'v) \<Rightarrow> 'v \<Rightarrow> bytes \<Rightarrow> 'v \<times> bytes" where
  "absorb B step v p =
     (if B = 0 \<or> length p < B then (v, p) else absorb B step (step v (take B p)) (drop B p))"
  by pat_completeness auto
termination by (relation "measure (\<lambda>(B, step, v, p). length p)") auto

declare absorb.simps [simp del]

lemma absorb_short: "length p < B \<Longrightarrow> absorb B step v p = (v, p)"
  by (simp add: absorb.simps)

lemma absorb_block:
  "0 < B \<Longrightarrow> B \<le> length p \<Longrightarrow> absorb B step v p = absorb B step (step v (take B p)) (drop B p)"
  by (subst absorb.simps) simp

lemma absorb_rest_short: "0 < B \<Longrightarrow> length (snd (absorb B step v p)) < B"
proof (induction "length p" arbitrary: p v rule: less_induct)
  case less
  then show ?case by (cases "length p < B") (simp_all add: absorb_short absorb_block)
qed

lemma absorb_append:
  assumes "0 < B" "absorb B step v p = (v', r)"
  shows "absorb B step v (p @ q) = absorb B step v' (r @ q)"
  using assms(2)
proof (induction "length p" arbitrary: p v rule: less_induct)
  case less
  show ?case
  proof (cases "length p < B")
    case True
    with less.prems show ?thesis by (simp add: absorb_short)
  next
    case False
    with assms(1) less.prems have "absorb B step (step v (take B p)) (drop B p) = (v', r)"
      by (simp add: absorb_block)
    with less.hyps [of "drop B p"] False assms(1) show ?thesis
      by (simp add: absorb_block)
  qed
qed

lemma absorb_rest: "0 < B \<Longrightarrow> snd (absorb B step v p) = drop (length p - length p mod B) p"
proof (induction "length p" arbitrary: p v rule: less_induct)
  case less
  show ?case
  proof (cases "length p < B")
    case False
    with less have "snd (absorb B step v p) = drop (length p - B - (length p - B) mod B) (drop B p)"
      by (simp add: absorb_block)
    also have "\<dots> = drop (length p - B - (length p - B) mod B + B) p" by simp
    also have "length p - B - (length p - B) mod B + B = length p - length p mod B"
      using False less.prems by (metis Nat.add_diff_assoc2 le_add_diff_inverse2 linorder_not_le
          mod_less_eq_dividend le_mod_geq)
    finally show ?thesis .
  qed (simp add: absorb_short)
qed

section \<open>The interface of a streaming hash\<close>

text \<open>
  What the users of a state with \<open>reset\<close>, \<open>update\<close> and \<open>digest\<close> rely on: a state stands for
  the bytes it has been fed, and its digest is the one-shot hash of them, as long as no
  more than \<open>limit\<close> bytes are fed.
\<close>

locale streaming_hash =
  fixes fed :: "'s \<Rightarrow> bytes \<Rightarrow> bool"
    and upd :: "'s \<Rightarrow> bytes \<Rightarrow> 's"
    and dig :: "'s \<Rightarrow> 'h"
    and one_shot :: "bytes \<Rightarrow> 'h"
    and limit :: nat
  assumes upd_law: "fed s data \<Longrightarrow> length (data @ x) < limit \<Longrightarrow> fed (upd s x) (data @ x)"
    and dig_law: "fed s data \<Longrightarrow> length data < limit \<Longrightarrow> dig s = one_shot data"
begin

lemma foldl_fed:
  "fed s data \<Longrightarrow> length (data @ concat xs) < limit \<Longrightarrow> fed (foldl upd s xs) (data @ concat xs)"
proof (induction xs arbitrary: s data)
  case (Cons x xs)
  then have "fed (upd s x) (data @ x)" by (intro upd_law) auto
  from Cons.IH [OF this] Cons.prems show ?case by simp
qed simp

lemma digest_of_chunks:
  assumes "fed s []" "length (concat xs) < limit"
  shows "dig (foldl upd s xs) = one_shot (concat xs)"
  using foldl_fed [OF assms(1), of xs] dig_law assms(2) by auto

lemma chunking_irrelevant:
  assumes "fed s []" "concat xs = concat ys" "length (concat xs) < limit"
  shows "dig (foldl upd s xs) = dig (foldl upd s ys)"
  using assms digest_of_chunks by metis

end

lemma unat_of_nat_32 [simp]: "k < 4294967296 \<Longrightarrow> unat (of_nat k :: 32 word) = k"
  by (simp add: unat_of_nat take_bit_nat_eq_self)

lemma unat_of_nat_64 [simp]: "k < 18446744073709551616 \<Longrightarrow> unat (of_nat k :: 64 word) = k"
  by (simp add: unat_of_nat take_bit_nat_eq_self)

end
