(* ===== verification/Xxh32.thy ===== *)
theory Xxh32
  imports Xxh_Base
begin

text \<open>
  The 32-bit hash XXH32 of \<^verbatim>\<open>3rd/xxhash/include/xxhash.h\<close>: the one-shot function with both
  variants of its tail processing, the streaming functions, and the canonical
  representation.
\<close>

section \<open>Rounds\<close>

definition XXH32_round :: "32 word \<Rightarrow> 32 word \<Rightarrow> 32 word" where
  "XXH32_round acc input =
     (let acc = acc + input * XXH_PRIME32_2; acc = XXH_rotl32 acc 13 in acc * XXH_PRIME32_1)"

definition XXH32_avalanche :: "32 word \<Rightarrow> 32 word" where
  "XXH32_avalanche h32 =
     (let h32 = h32 XOR drop_bit 15 h32; h32 = h32 * XXH_PRIME32_2;
          h32 = h32 XOR drop_bit 13 h32; h32 = h32 * XXH_PRIME32_3
      in h32 XOR drop_bit 16 h32)"

section \<open>The last bytes\<close>

text \<open>The macros \<open>XXH_PROCESS1\<close> and \<open>XXH_PROCESS4\<close> change \<open>h32\<close> and \<open>ptr\<close>.\<close>

fun XXH32_PROCESS1 :: "32 word \<times> bytes \<Rightarrow> 32 word \<times> bytes" where
  "XXH32_PROCESS1 (h32, ptr) =
     (let h32 = h32 + ucast (ptr ! 0) * XXH_PRIME32_5
      in (XXH_rotl32 h32 11 * XXH_PRIME32_1, drop 1 ptr))"

fun XXH32_PROCESS4 :: "XXH_alignment \<Rightarrow> 32 word \<times> bytes \<Rightarrow> 32 word \<times> bytes" where
  "XXH32_PROCESS4 align (h32, ptr) =
     (let h32 = h32 + XXH_readLE32_align ptr align * XXH_PRIME32_3
      in (XXH_rotl32 h32 17 * XXH_PRIME32_4, drop 4 ptr))"

text \<open>The compact variant: two loops.\<close>

fun XXH32_loop4 :: "XXH_alignment \<Rightarrow> 32 word \<times> bytes \<Rightarrow> nat \<Rightarrow> (32 word \<times> bytes) \<times> nat" where
  "XXH32_loop4 align s len =
     (if 4 \<le> len then XXH32_loop4 align (XXH32_PROCESS4 align s) (len - 4) else (s, len))"

declare XXH32_loop4.simps [simp del]

fun XXH32_loop1 :: "32 word \<times> bytes \<Rightarrow> nat \<Rightarrow> 32 word \<times> bytes" where
  "XXH32_loop1 s 0 = s"
| "XXH32_loop1 s (Suc len) = XXH32_loop1 (XXH32_PROCESS1 s) len"

definition XXH32_finalize_compact :: "32 word \<Rightarrow> bytes \<Rightarrow> nat \<Rightarrow> XXH_alignment \<Rightarrow> 32 word" where
  "XXH32_finalize_compact h32 ptr len align =
     (let (s, len) = XXH32_loop4 align (h32, ptr) (len mod 16)
      in XXH32_avalanche (fst (XXH32_loop1 s len)))"

text \<open>The variant with a jump table: every entry falls through to its \<open>return\<close>.\<close>

definition XXH32_finalize_endjmp :: "32 word \<Rightarrow> bytes \<Rightarrow> nat \<Rightarrow> XXH_alignment \<Rightarrow> 32 word" where
  "XXH32_finalize_endjmp h32 ptr len align =
     (let p4 = XXH32_PROCESS4 align; p1 = XXH32_PROCESS1; s = (h32, ptr); n = len mod 16 in
      if n = 12 then XXH32_avalanche (fst (p4 (p4 (p4 s))))
      else if n = 8 then XXH32_avalanche (fst (p4 (p4 s)))
      else if n = 4 then XXH32_avalanche (fst (p4 s))
      else if n = 13 then XXH32_avalanche (fst (p1 (p4 (p4 (p4 s)))))
      else if n = 9 then XXH32_avalanche (fst (p1 (p4 (p4 s))))
      else if n = 5 then XXH32_avalanche (fst (p1 (p4 s)))
      else if n = 14 then XXH32_avalanche (fst (p1 (p1 (p4 (p4 (p4 s))))))
      else if n = 10 then XXH32_avalanche (fst (p1 (p1 (p4 (p4 s)))))
      else if n = 6 then XXH32_avalanche (fst (p1 (p1 (p4 s))))
      else if n = 15 then XXH32_avalanche (fst (p1 (p1 (p1 (p4 (p4 (p4 s)))))))
      else if n = 11 then XXH32_avalanche (fst (p1 (p1 (p1 (p4 (p4 s))))))
      else if n = 7 then XXH32_avalanche (fst (p1 (p1 (p1 (p4 s)))))
      else if n = 3 then XXH32_avalanche (fst (p1 (p1 (p1 s))))
      else if n = 2 then XXH32_avalanche (fst (p1 (p1 s)))
      else if n = 1 then XXH32_avalanche (fst (p1 s))
      else if n = 0 then XXH32_avalanche (fst s)
      else h32)"

text \<open>\<open>XXH32_ENDJMP\<close> is a compile-time choice.\<close>

definition XXH32_finalize :: "bool \<Rightarrow> 32 word \<Rightarrow> bytes \<Rightarrow> nat \<Rightarrow> XXH_alignment \<Rightarrow> 32 word" where
  "XXH32_finalize endjmp h32 ptr len align =
     (if \<not> endjmp then XXH32_finalize_compact h32 ptr len align
      else XXH32_finalize_endjmp h32 ptr len align)"

section \<open>One-shot hashing\<close>

type_synonym lanes32 = "32 word \<times> 32 word \<times> 32 word \<times> 32 word"

definition XXH32_init :: "32 word \<Rightarrow> lanes32" where
  "XXH32_init seed =
     (seed + XXH_PRIME32_1 + XXH_PRIME32_2, seed + XXH_PRIME32_2, seed + 0, seed - XXH_PRIME32_1)"

fun XXH32_stripe :: "XXH_alignment \<Rightarrow> lanes32 \<Rightarrow> bytes \<Rightarrow> lanes32" where
  "XXH32_stripe align (v1, v2, v3, v4) p =
     (XXH32_round v1 (XXH_readLE32_align p align),
      XXH32_round v2 (XXH_readLE32_align (drop 4 p) align),
      XXH32_round v3 (XXH_readLE32_align (drop 8 p) align),
      XXH32_round v4 (XXH_readLE32_align (drop 12 p) align))"

fun XXH32_converge :: "lanes32 \<Rightarrow> 32 word" where
  "XXH32_converge (v1, v2, v3, v4) =
     XXH_rotl32 v1 1 + XXH_rotl32 v2 7 + XXH_rotl32 v3 12 + XXH_rotl32 v4 18"

text \<open>
  The \<open>do ... while (input < limit)\<close> loop with \<open>limit = bEnd - 15\<close>; \<open>rem\<close> is
  \<open>bEnd - input\<close>.
\<close>

function XXH32_loop :: "XXH_alignment \<Rightarrow> lanes32 \<Rightarrow> bytes \<Rightarrow> nat \<Rightarrow> lanes32 \<times> bytes" where
  "XXH32_loop align v input rem =
     (let v = XXH32_stripe align v input; input = drop 16 input; rem = rem - 16
      in if 15 < rem then XXH32_loop align v input rem else (v, input))"
  by pat_completeness auto
termination by (relation "measure (\<lambda>(align, v, input, rem). rem)") auto

declare XXH32_loop.simps [simp del]

definition XXH32_endian_align ::
  "bool \<Rightarrow> bytes \<Rightarrow> nat \<Rightarrow> 32 word \<Rightarrow> XXH_alignment \<Rightarrow> 32 word" where
  "XXH32_endian_align endjmp input len seed align =
     (let (h32, input) =
        (if 16 \<le> len
         then (let (v, input) = XXH32_loop align (XXH32_init seed) input len
               in (XXH32_converge v, input))
         else (seed + XXH_PRIME32_5, input));
        h32 = h32 + of_nat len
      in XXH32_finalize endjmp h32 input (len mod 16) align)"

text \<open>
  \<open>addr\<close> is the address of the input, of which the code looks at the alignment when
  \<open>XXH_FORCE_ALIGN_CHECK\<close> is set.
\<close>

definition XXH32 :: "bool \<Rightarrow> bool \<Rightarrow> nat \<Rightarrow> bytes \<Rightarrow> nat \<Rightarrow> 32 word \<Rightarrow> 32 word" where
  "XXH32 endjmp force_align_check addr input len seed =
     (if force_align_check \<and> addr mod 4 = 0
      then XXH32_endian_align endjmp input len seed XXH_aligned
      else XXH32_endian_align endjmp input len seed XXH_unaligned)"

section \<open>Streaming\<close>

record XXH32_state =
  total_len_32 :: "32 word"
  large_len :: "32 word"
  v_lanes32 :: lanes32
  mem32 :: bytes
  memsize32 :: "32 word"

definition XXH32_reset :: "32 word \<Rightarrow> XXH32_state \<Rightarrow> XXH_errorcode \<times> XXH32_state" where
  "XXH32_reset seed state =
     (XXH_OK, \<lparr>total_len_32 = 0, large_len = 0, v_lanes32 = XXH32_init seed,
               mem32 = replicate 16 0, memsize32 = 0\<rparr>)"

text \<open>The \<open>do ... while (p <= limit)\<close> loop with \<open>limit = bEnd - 16\<close>.\<close>

function XXH32_update_loop :: "lanes32 \<Rightarrow> bytes \<Rightarrow> nat \<Rightarrow> lanes32 \<times> bytes \<times> nat" where
  "XXH32_update_loop v p rem =
     (let v = XXH32_stripe XXH_unaligned v p; p = drop 16 p; rem = rem - 16
      in if 16 \<le> rem then XXH32_update_loop v p rem else (v, p, rem))"
  by pat_completeness auto
termination by (relation "measure (\<lambda>(v, p, rem). rem)") auto

declare XXH32_update_loop.simps [simp del]

definition XXH32_update ::
  "XXH32_state \<Rightarrow> bytes option \<Rightarrow> nat \<Rightarrow> XXH_errorcode \<times> XXH32_state" where
  "XXH32_update state input' len =
     (case input' of
        None \<Rightarrow> (XXH_OK, state)
      | Some input \<Rightarrow>
          (let state = state\<lparr>total_len_32 := total_len_32 state + of_nat len\<rparr>;
               state = state\<lparr>large_len :=
                 large_len state OR of_bool (16 \<le> len \<or> 16 \<le> total_len_32 state)\<rparr>;
               memsize = unat (memsize32 state)
           in if memsize + len < 16
              then (XXH_OK, state\<lparr>mem32 := memcpy_at memsize (take len input) (mem32 state),
                                  memsize32 := memsize32 state + of_nat len\<rparr>)
              else
                (let (state, p, rem) =
                   (if memsize32 state \<noteq> 0
                    then (let m = memcpy_at memsize (take (16 - memsize) input) (mem32 state)
                          in (state\<lparr>mem32 := m, v_lanes32 := XXH32_stripe XXH_unaligned (v_lanes32 state) m,
                                    memsize32 := 0\<rparr>,
                              drop (16 - memsize) input, len - (16 - memsize)))
                    else (state, input, len));
                   (state, p, rem) =
                     (if 16 \<le> rem
                      then (let (v, p, rem) = XXH32_update_loop (v_lanes32 state) p rem
                            in (state\<lparr>v_lanes32 := v\<rparr>, p, rem))
                      else (state, p, rem));
                   state =
                     (if 0 < rem
                      then state\<lparr>mem32 := memcpy_at 0 (take rem p) (mem32 state),
                                 memsize32 := of_nat rem\<rparr>
                      else state)
                 in (XXH_OK, state))))"

definition XXH32_digest :: "bool \<Rightarrow> XXH32_state \<Rightarrow> 32 word" where
  "XXH32_digest endjmp state =
     (let h32 = (if large_len state \<noteq> 0 then XXH32_converge (v_lanes32 state)
                 else (case v_lanes32 state of (_, _, v3, _) \<Rightarrow> v3 + XXH_PRIME32_5));
          h32 = h32 + total_len_32 state
      in XXH32_finalize endjmp h32 (mem32 state) (unat (memsize32 state)) XXH_aligned)"

section \<open>Canonical representation\<close>

text \<open>The machine stores integers with the low byte first when \<open>little_endian\<close>.\<close>

definition XXH32_canonicalFromHash :: "bool \<Rightarrow> 32 word \<Rightarrow> bytes" where
  "XXH32_canonicalFromHash little_endian hash =
     (let hash = (if little_endian then XXH_swap32 hash else hash)
      in if little_endian then le_bytes 4 hash else rev (le_bytes 4 hash))"

definition XXH32_hashFromCanonical :: "bytes \<Rightarrow> 32 word" where
  "XXH32_hashFromCanonical src = XXH_readBE32 src"

section \<open>Both variants of the tail compute the same\<close>

lemma XXH32_loop1_numeral:
  "XXH32_loop1 s (numeral k) = XXH32_loop1 (XXH32_PROCESS1 s) (pred_numeral k)"
  by (simp add: numeral_eq_Suc)

lemma XXH32_finalize_variants:
  "XXH32_finalize_endjmp h32 ptr len align = XXH32_finalize_compact h32 ptr len align"
proof -
  define n where "n = len mod 16"
  then have "n < 16" by simp
  then have "n \<in> {12, 8, 4, 13, 9, 5, 14, 10, 6, 15, 11, 7, 3, 2, 1, 0}"
    unfolding insert_iff empty_iff by presburger
  then show ?thesis unfolding XXH32_finalize_endjmp_def XXH32_finalize_compact_def n_def [symmetric]
    by (elim insertE emptyE) (simp_all add:
      XXH32_loop4.simps XXH32_loop1_numeral Let_def
      del: XXH32_PROCESS1.simps XXH32_PROCESS4.simps)
qed

text \<open>The tail as a function of exactly the bytes that remain.\<close>

function XXH32_tail :: "32 word \<Rightarrow> bytes \<Rightarrow> 32 word" where
  "XXH32_tail h p =
     (if 4 \<le> length p
      then XXH32_tail (XXH_rotl32 (h + XXH_readLE32 p * XXH_PRIME32_3) 17 * XXH_PRIME32_4) (drop 4 p)
      else foldl (\<lambda>h b. XXH_rotl32 (h + ucast b * XXH_PRIME32_5) 11 * XXH_PRIME32_1) h p)"
  by pat_completeness auto
termination by (relation "measure (\<lambda>(h, p). length p)") auto

declare XXH32_tail.simps [simp del]

lemma XXH32_loop1_tail:
  "len \<le> length ptr \<Longrightarrow> fst (XXH32_loop1 (h, ptr) len) =
     foldl (\<lambda>h b. XXH_rotl32 (h + ucast b * XXH_PRIME32_5) 11 * XXH_PRIME32_1) h (take len ptr)"
proof (induction len arbitrary: h ptr)
  case (Suc len)
  then obtain b bs where "ptr = b # bs" by (cases ptr) auto
  with Suc show ?case by simp
qed simp

lemma XXH32_loop_tail:
  "len \<le> length ptr \<Longrightarrow>
     (case XXH32_loop4 align (h, ptr) len of (s, len') \<Rightarrow> fst (XXH32_loop1 s len')) =
     XXH32_tail h (take len ptr)"
proof (induction len arbitrary: h ptr rule: less_induct)
  case (less len)
  show ?case
  proof (cases "4 \<le> len")
    case True
    with less.prems have r: "XXH_readLE32 (take len ptr) = XXH_readLE32_align ptr align"
      using XXH_readLE32_take [of 0 len ptr] by (simp add: XXH_readLE32_align_eq)
    from True less.prems show ?thesis
      using less.IH [of "len - 4" "drop 4 ptr"] r
      by (simp add: XXH32_loop4.simps [of _ _ len] XXH32_tail.simps [of _ "take len ptr"]
          take_drop Let_def)
  next
    case False
    with less.prems show ?thesis
      by (simp add: XXH32_loop4.simps XXH32_loop1_tail XXH32_tail.simps [of _ "take len ptr"])
  qed
qed

lemma XXH32_finalize_eq:
  "len mod 16 \<le> length ptr \<Longrightarrow>
     XXH32_finalize endjmp h ptr len align = XXH32_avalanche (XXH32_tail h (take (len mod 16) ptr))"
  using XXH32_loop_tail [of "len mod 16" ptr align h]
  by (auto simp: XXH32_finalize_def XXH32_finalize_variants XXH32_finalize_compact_def Let_def
      split: prod.splits)

section \<open>The loops absorb blocks\<close>

lemma XXH32_stripe_cong:
  assumes "16 \<le> length p" "take 16 p = take 16 q"
  shows "XXH32_stripe align v p = XXH32_stripe XXH_unaligned v q"
proof -
  have q: "16 \<le> length q" using assms by (metis length_take min.absorb_iff1 min.commute min_def)
  have r: "XXH_readLE32 (drop k p) = XXH_readLE32 (drop k q)" if "k \<le> 12" for k
    using XXH_readLE32_take [of k 16 p] XXH_readLE32_take [of k 16 q] assms q that by simp
  from r [of 0] r [of 4] r [of 8] r [of 12] assms q show ?thesis
    by (cases v) (simp add: XXH_readLE32_align_eq)
qed

abbreviation XXH32_absorb :: "lanes32 \<Rightarrow> bytes \<Rightarrow> lanes32 \<times> bytes" where
  "XXH32_absorb \<equiv> absorb 16 (XXH32_stripe XXH_unaligned)"

lemma XXH32_stripe_take:
  "16 \<le> length p \<Longrightarrow> XXH32_stripe align v p = XXH32_stripe XXH_unaligned v (take 16 p)"
  by (rule XXH32_stripe_cong) simp_all

lemma XXH32_loop_absorb:
  "16 \<le> length p \<Longrightarrow> XXH32_loop align v (p @ q) (length p) =
     (case XXH32_absorb v p of (v', r) \<Rightarrow> (v', r @ q))"
proof (induction "length p" arbitrary: v p rule: less_induct)
  case less
  from less.prems have s: "XXH32_stripe align v (p @ q) = XXH32_stripe XXH_unaligned v (take 16 p)"
    using XXH32_stripe_take [of "p @ q"] by simp
  show ?case
  proof (cases "16 \<le> length (drop 16 p)")
    case True
    with less.hyps [of "drop 16 p"] less.prems s show ?thesis
      by (simp add: XXH32_loop.simps [of _ _ "p @ q"] absorb_block Let_def)
  next
    case False
    with less.prems s show ?thesis
      by (simp add: XXH32_loop.simps [of _ _ "p @ q"] absorb_block absorb_short Let_def)
  qed
qed

lemma XXH32_update_loop_absorb:
  "16 \<le> length p \<Longrightarrow> XXH32_update_loop v p (length p) =
     (case XXH32_absorb v p of (v', r) \<Rightarrow> (v', r, length r))"
proof (induction "length p" arbitrary: v p rule: less_induct)
  case less
  from less.prems have s: "XXH32_stripe XXH_unaligned v p = XXH32_stripe XXH_unaligned v (take 16 p)"
    by (rule XXH32_stripe_take)
  show ?case
  proof (cases "16 \<le> length (drop 16 p)")
    case True
    with less.hyps [of "drop 16 p"] less.prems s show ?thesis
      by (simp add: XXH32_update_loop.simps [of _ p] absorb_block Let_def)
  next
    case False
    with less.prems s show ?thesis
      by (simp add: XXH32_update_loop.simps [of _ p] absorb_block absorb_short Let_def)
  qed
qed

section \<open>The hash as a function of the bytes\<close>

definition XXH32_of :: "32 word \<Rightarrow> bytes \<Rightarrow> 32 word" where
  "XXH32_of seed p =
     (let (v, r) = XXH32_absorb (XXH32_init seed) p;
          h = (if 16 \<le> length p then XXH32_converge v else seed + XXH_PRIME32_5)
      in XXH32_avalanche (XXH32_tail (h + of_nat (length p)) r))"

lemma XXH32_absorb_rest:
  assumes "XXH32_absorb v p = (v', r)"
  shows "length r = length p mod 16" "length r < 16"
  using absorb_rest [of 16 "XXH32_stripe XXH_unaligned" v p] assms by simp_all

lemma XXH32_endian_align_eq:
  "XXH32_endian_align endjmp (p @ q) (length p) seed align = XXH32_of seed p"
proof (cases "16 \<le> length p")
  case True
  obtain v r where a: "XXH32_absorb (XXH32_init seed) p = (v, r)" by fastforce
  with True XXH32_absorb_rest [OF a] show ?thesis
    by (simp add: XXH32_endian_align_def XXH32_of_def XXH32_loop_absorb XXH32_finalize_eq)
next
  case False
  then show ?thesis
    by (simp add: XXH32_endian_align_def XXH32_of_def absorb_short XXH32_finalize_eq)
qed

lemma XXH32_eq: "XXH32 endjmp fac addr (p @ q) (length p) seed = XXH32_of seed p"
  by (simp add: XXH32_def XXH32_endian_align_eq)

section \<open>Streaming computes the same hash\<close>

definition XXH32_fed :: "32 word \<Rightarrow> XXH32_state \<Rightarrow> bytes \<Rightarrow> bool" where
  "XXH32_fed seed s data \<longleftrightarrow>
     total_len_32 s = of_nat (length data) \<and> (large_len s \<noteq> 0 \<longleftrightarrow> 16 \<le> length data) \<and>
     length (mem32 s) = 16 \<and>
     (\<exists>r. XXH32_absorb (XXH32_init seed) data = (v_lanes32 s, r) \<and> memsize32 s = of_nat (length r) \<and>
          take (length r) (mem32 s) = r)"

lemma XXH32_reset_fed: "XXH32_fed seed (snd (XXH32_reset seed s)) []"
  by (simp add: XXH32_fed_def XXH32_reset_def absorb_short)

lemma large_len_step:
  assumes "total_len_32 s = of_nat (length data)" "large_len s \<noteq> 0 \<longleftrightarrow> 16 \<le> length data"
  shows "large_len s OR of_bool (16 \<le> length x \<or> 16 \<le> total_len_32 s + of_nat (length x)) \<noteq> 0 \<longleftrightarrow>
    16 \<le> length (data @ x)"
proof (cases "16 \<le> length data \<or> 16 \<le> length x")
  case True
  with assms show ?thesis by (auto simp: or_eq_0_iff)
next
  case False
  then have "unat (of_nat (length data + length x) :: 32 word) = length data + length x"
    by (intro unat_of_nat_32) simp
  then have "(16 \<le> total_len_32 s + of_nat (length x)) = (16 \<le> length data + length x)"
    using assms(1) by (simp add: word_le_nat_alt flip: of_nat_add)
  with False assms show ?thesis by simp
qed

definition XXH32_fill :: "XXH32_state \<Rightarrow> bytes \<Rightarrow> XXH32_state \<times> bytes \<times> nat" where
  "XXH32_fill state input =
     (let memsize = unat (memsize32 state) in
      if memsize32 state \<noteq> 0
      then (let m = memcpy_at memsize (take (16 - memsize) input) (mem32 state)
            in (state\<lparr>mem32 := m, v_lanes32 := XXH32_stripe XXH_unaligned (v_lanes32 state) m, memsize32 := 0\<rparr>,
                drop (16 - memsize) input, length input - (16 - memsize)))
      else (state, input, length input))"

lemma XXH32_fill_absorb:
  assumes "memsize32 s = of_nat (length r)" "take (length r) (mem32 s) = r" "length r < 16"
    and "length (mem32 s) = 16" "16 \<le> length r + length x"
  obtains s' p where "XXH32_fill s x = (s', p, length p)"
    "XXH32_absorb (v_lanes32 s) (r @ x) = XXH32_absorb (v_lanes32 s') p"
    "s' = s\<lparr>mem32 := mem32 s', v_lanes32 := v_lanes32 s', memsize32 := 0\<rparr>" "length (mem32 s') = 16"
proof (cases "r = []")
  case True
  with assms that [of s x] show thesis by (simp add: XXH32_fill_def)
next
  case False
  define k where "k = length r"
  have u: "unat (memsize32 s) = k" "memsize32 s \<noteq> 0"
    using assms(1,3) False by (auto simp: k_def dest: arg_cong [of _ _ unat])
  define m where "m = memcpy_at k (take (16 - k) x) (mem32 s)"
  have "m = r @ take (16 - k) x"
    using assms by (simp add: m_def memcpy_at_def k_def)
  then have m: "take 16 (r @ x) = m" "drop 16 (r @ x) = drop (16 - k) x" "length m = 16"
    using assms by (simp_all add: k_def)
  have "XXH32_absorb (v_lanes32 s) (r @ x) =
      XXH32_absorb (XXH32_stripe XXH_unaligned (v_lanes32 s) m) (drop (16 - k) x)"
    using assms(5) m absorb_block [of 16 "r @ x"] by simp
  then show thesis
    using u m(3) assms
    by (intro that [of "s\<lparr>mem32 := m, v_lanes32 := XXH32_stripe XXH_unaligned (v_lanes32 s) m, memsize32 := 0\<rparr>"
          "drop (16 - k) x"])
       (simp_all add: XXH32_fill_def m_def Let_def)
qed

lemma XXH32_update_fed:
  assumes "XXH32_fed seed s data"
  shows "XXH32_fed seed (snd (XXH32_update s (Some x) (length x))) (data @ x)"
proof -
  from assms obtain r where tl: "total_len_32 s = of_nat (length data)"
    and ll: "large_len s \<noteq> 0 \<longleftrightarrow> 16 \<le> length data" and m: "length (mem32 s) = 16"
    and a: "XXH32_absorb (XXH32_init seed) data = (v_lanes32 s, r)"
    and ms: "memsize32 s = of_nat (length r)" and r: "take (length r) (mem32 s) = r"
    by (auto simp: XXH32_fed_def)
  have r16: "length r < 16" using XXH32_absorb_rest [OF a] by simp
  define t where "t = s\<lparr>total_len_32 := total_len_32 s + of_nat (length x),
    large_len := large_len s OR of_bool (16 \<le> length x \<or> 16 \<le> total_len_32 s + of_nat (length x))\<rparr>"
  have t: "total_len_32 t = of_nat (length (data @ x))" "large_len t \<noteq> 0 \<longleftrightarrow> 16 \<le> length (data @ x)"
    "v_lanes32 t = v_lanes32 s" "mem32 t = mem32 s" "memsize32 t = memsize32 s"
    using tl large_len_step [OF tl ll, of x] by (simp_all add: t_def)
  have u: "unat (memsize32 s) = length r" using ms r16 by simp
  have app: "XXH32_absorb (XXH32_init seed) (data @ x) = XXH32_absorb (v_lanes32 s) (r @ x)"
    by (rule absorb_append [OF _ a]) simp
  show ?thesis
  proof (cases "length r + length x < 16")
    case True
    have "snd (XXH32_update s (Some x) (length x)) =
      t\<lparr>mem32 := memcpy_at (length r) x (mem32 s), memsize32 := of_nat (length (r @ x))\<rparr>"
      using True u ms by (simp add: XXH32_update_def t_def Let_def)
    moreover have "XXH32_absorb (v_lanes32 s) (r @ x) = (v_lanes32 s, r @ x)"
      using True by (simp add: absorb_short)
    moreover have "take (length (r @ x)) (memcpy_at (length r) x (mem32 s)) = r @ x"
      using take_memcpy_at [of "length r" "mem32 s" x] r m r16 by simp
    ultimately show ?thesis using t m True app by (simp add: XXH32_fed_def)
  next
    case False
    then have len: "16 \<le> length r + length x" by simp
    from XXH32_fill_absorb [of t r x] ms r r16 m t len obtain t' p where
      f: "XXH32_fill t x = (t', p, length p)" "XXH32_absorb (v_lanes32 s) (r @ x) = XXH32_absorb (v_lanes32 t') p"
        "t' = t\<lparr>mem32 := mem32 t', v_lanes32 := v_lanes32 t', memsize32 := 0\<rparr>" "length (mem32 t') = 16"
      by metis
    have upd: "snd (XXH32_update s (Some x) (length x)) =
      (let (state, p, rem) = XXH32_fill t x;
           (state, p, rem) = (if 16 \<le> rem then (let (v, p, rem) = XXH32_update_loop (v_lanes32 state) p rem
             in (state\<lparr>v_lanes32 := v\<rparr>, p, rem)) else (state, p, rem))
       in if 0 < rem then state\<lparr>mem32 := memcpy_at 0 (take rem p) (mem32 state), memsize32 := of_nat rem\<rparr>
          else state)"
      using False u by (simp add: XXH32_update_def XXH32_fill_def t_def Let_def split: prod.splits)
    obtain v q where q: "XXH32_absorb (v_lanes32 t') p = (v, q)" by fastforce
    from XXH32_absorb_rest [OF q] have "length q < 16" by simp
    have st: "(if 16 \<le> length p then (let (v, p, rem) = XXH32_update_loop (v_lanes32 t') p (length p)
        in (t'\<lparr>v_lanes32 := v\<rparr>, p, rem)) else (t', p, length p)) = (t'\<lparr>v_lanes32 := v\<rparr>, q, length q)"
      using q XXH32_update_loop_absorb [of p "v_lanes32 t'"] by (auto simp: absorb_short)
    have "snd (XXH32_update s (Some x) (length x)) =
      (if q \<noteq> [] then t'\<lparr>v_lanes32 := v, mem32 := memcpy_at 0 q (mem32 t'), memsize32 := of_nat (length q)\<rparr>
       else t'\<lparr>v_lanes32 := v\<rparr>)"
      unfolding upd f(1) by (simp add: st Let_def)
    moreover have "memsize32 t' = 0" "total_len_32 t' = total_len_32 t" "large_len t' = large_len t"
      by (subst f(3), simp)+
    moreover have "take (length q) (memcpy_at 0 q (mem32 t')) = q" by (simp add: memcpy_at_def)
    ultimately show ?thesis
      using t app f(2,4) q \<open>length q < 16\<close> by (auto simp: XXH32_fed_def)
  qed
qed

lemma XXH32_digest_fed:
  assumes "XXH32_fed seed s data"
  shows "XXH32_digest endjmp s = XXH32_of seed data"
proof -
  from assms obtain r where tl: "total_len_32 s = of_nat (length data)"
    and ll: "large_len s \<noteq> 0 \<longleftrightarrow> 16 \<le> length data" and m: "length (mem32 s) = 16"
    and a: "XXH32_absorb (XXH32_init seed) data = (v_lanes32 s, r)"
    and ms: "memsize32 s = of_nat (length r)" and r: "take (length r) (mem32 s) = r"
    by (auto simp: XXH32_fed_def)
  have r16: "length r < 16" using XXH32_absorb_rest [OF a] by simp
  have u: "unat (memsize32 s) = length r" using ms r16 by simp
  have "v_lanes32 s = XXH32_init seed" if "length data < 16" using a that by (simp add: absorb_short)
  then have h: "(if large_len s \<noteq> 0 then XXH32_converge (v_lanes32 s)
      else (case v_lanes32 s of (_, _, v3, _) \<Rightarrow> v3 + XXH_PRIME32_5)) =
    (if 16 \<le> length data then XXH32_converge (v_lanes32 s) else seed + XXH_PRIME32_5)"
    using ll by (auto simp: XXH32_init_def)
  show ?thesis
    unfolding XXH32_digest_def XXH32_of_def a h Let_def
    using m r r16 u tl by (simp add: XXH32_finalize_eq)
qed

interpretation xxh32: streaming_hash "XXH32_fed seed" "\<lambda>s x. snd (XXH32_update s (Some x) (length x))"
  "XXH32_digest endjmp" "XXH32_of seed" "2 ^ 64" for seed endjmp
  by unfold_locales (simp_all add: XXH32_update_fed XXH32_digest_fed)

text \<open>The hash of \<^verbatim>\<open>abc\<close>, computed.\<close>

lemma XXH32_test_vector: "XXH32 False False 0 [0x61, 0x62, 0x63] 3 0 = 0x32D153FF"
  by code_simp

section \<open>Properties\<close>

text \<open>
  Feeding an input to the streaming XXH32 in any pieces gives the one-shot XXH32 of the
  whole; the one-shot function neither depends on what follows its \<open>len\<close> bytes in memory,
  nor on the alignment of the input, nor on the variant of the tail processing.
\<close>

theorem XXH32_streaming:
  assumes "length (concat xs) < 2 ^ 64"
  shows "XXH32_digest endjmp (foldl (\<lambda>s x. snd (XXH32_update s (Some x) (length x)))
      (snd (XXH32_reset seed s)) xs) =
    XXH32 endjmp' force_align_check addr (concat xs @ rest) (length (concat xs)) seed"
  using xxh32.digest_of_chunks [OF XXH32_reset_fed assms] by (simp add: XXH32_eq)

theorem XXH32_streaming_witness:
  "XXH32_digest True (foldl (\<lambda>s x. snd (XXH32_update s (Some x) (length x)))
      (snd (XXH32_reset 0 undefined)) [[0x61, 0x62], [], [0x63]]) = 0x32D153FF"
  using XXH32_streaming [of "[[0x61, 0x62], [], [0x63]]" True 0 undefined False False 0 "[]"]
    XXH32_test_vector
  by (simp add: numeral_3_eq_3)

end
