(* ===== verification/Xxh64.thy ===== *)
theory Xxh64
  imports Xxh32
begin

text \<open>
  The 64-bit hash XXH64 of \<^verbatim>\<open>3rd/xxhash/include/xxhash.h\<close>: one-shot, streaming and canonical
  representation.  Its avalanche is also the one XXH3 ends short inputs with.
\<close>

section \<open>Rounds\<close>

definition XXH64_round :: "64 word \<Rightarrow> 64 word \<Rightarrow> 64 word" where
  "XXH64_round acc input =
     (let acc = acc + input * XXH_PRIME64_2; acc = XXH_rotl64 acc 31 in acc * XXH_PRIME64_1)"

definition XXH64_mergeRound :: "64 word \<Rightarrow> 64 word \<Rightarrow> 64 word" where
  "XXH64_mergeRound acc val =
     (let val = XXH64_round 0 val; acc = acc XOR val in acc * XXH_PRIME64_1 + XXH_PRIME64_4)"

definition XXH64_avalanche :: "64 word \<Rightarrow> 64 word" where
  "XXH64_avalanche h64 =
     (let h64 = h64 XOR drop_bit 33 h64; h64 = h64 * XXH_PRIME64_2;
          h64 = h64 XOR drop_bit 29 h64; h64 = h64 * XXH_PRIME64_3
      in h64 XOR drop_bit 32 h64)"

section \<open>The last bytes\<close>

fun XXH64_PROCESS8 :: "XXH_alignment \<Rightarrow> 64 word \<times> bytes \<Rightarrow> 64 word \<times> bytes" where
  "XXH64_PROCESS8 align (h64, ptr) =
     (let k1 = XXH64_round 0 (XXH_readLE64_align ptr align); h64 = h64 XOR k1
      in (XXH_rotl64 h64 27 * XXH_PRIME64_1 + XXH_PRIME64_4, drop 8 ptr))"

fun XXH64_PROCESS4 :: "XXH_alignment \<Rightarrow> 64 word \<times> bytes \<Rightarrow> 64 word \<times> bytes" where
  "XXH64_PROCESS4 align (h64, ptr) =
     (let h64 = h64 XOR (ucast (XXH_readLE32_align ptr align) * XXH_PRIME64_1)
      in (XXH_rotl64 h64 23 * XXH_PRIME64_2 + XXH_PRIME64_3, drop 4 ptr))"

fun XXH64_PROCESS1 :: "64 word \<times> bytes \<Rightarrow> 64 word \<times> bytes" where
  "XXH64_PROCESS1 (h64, ptr) =
     (let h64 = h64 XOR (ucast (ptr ! 0) * XXH_PRIME64_5)
      in (XXH_rotl64 h64 11 * XXH_PRIME64_1, drop 1 ptr))"

fun XXH64_loop8 :: "XXH_alignment \<Rightarrow> 64 word \<times> bytes \<Rightarrow> nat \<Rightarrow> (64 word \<times> bytes) \<times> nat" where
  "XXH64_loop8 align s len =
     (if 8 \<le> len then XXH64_loop8 align (XXH64_PROCESS8 align s) (len - 8) else (s, len))"

declare XXH64_loop8.simps [simp del]

fun XXH64_loop1 :: "64 word \<times> bytes \<Rightarrow> nat \<Rightarrow> 64 word \<times> bytes" where
  "XXH64_loop1 s 0 = s"
| "XXH64_loop1 s (Suc len) = XXH64_loop1 (XXH64_PROCESS1 s) len"

definition XXH64_finalize :: "64 word \<Rightarrow> bytes \<Rightarrow> nat \<Rightarrow> XXH_alignment \<Rightarrow> 64 word" where
  "XXH64_finalize h64 ptr len align =
     (let (s, len) = XXH64_loop8 align (h64, ptr) (len mod 32);
          (s, len) = (if 4 \<le> len then (XXH64_PROCESS4 align s, len - 4) else (s, len))
      in XXH64_avalanche (fst (XXH64_loop1 s len)))"

section \<open>One-shot hashing\<close>

type_synonym lanes64 = "64 word \<times> 64 word \<times> 64 word \<times> 64 word"

definition XXH64_init :: "64 word \<Rightarrow> lanes64" where
  "XXH64_init seed =
     (seed + XXH_PRIME64_1 + XXH_PRIME64_2, seed + XXH_PRIME64_2, seed + 0, seed - XXH_PRIME64_1)"

text \<open>
  One stripe of 32 bytes.  The code writes these four rounds out in \<open>XXH64_endian_align\<close> and twice in
  \<open>XXH64_update\<close>.
\<close>

fun XXH64_stripe :: "XXH_alignment \<Rightarrow> lanes64 \<Rightarrow> bytes \<Rightarrow> lanes64" where
  "XXH64_stripe align (v1, v2, v3, v4) p =
     (XXH64_round v1 (XXH_readLE64_align p align),
      XXH64_round v2 (XXH_readLE64_align (drop 8 p) align),
      XXH64_round v3 (XXH_readLE64_align (drop 16 p) align),
      XXH64_round v4 (XXH_readLE64_align (drop 24 p) align))"

fun XXH64_converge :: "lanes64 \<Rightarrow> 64 word" where
  "XXH64_converge (v1, v2, v3, v4) =
     (let h64 = XXH_rotl64 v1 1 + XXH_rotl64 v2 7 + XXH_rotl64 v3 12 + XXH_rotl64 v4 18;
          h64 = XXH64_mergeRound h64 v1; h64 = XXH64_mergeRound h64 v2;
          h64 = XXH64_mergeRound h64 v3
      in XXH64_mergeRound h64 v4)"

text \<open>
  The \<open>do ... while (input < limit)\<close> loop with \<open>limit = bEnd - 31\<close>; \<open>rem\<close> is
  \<open>bEnd - input\<close>.
\<close>

function XXH64_loop :: "XXH_alignment \<Rightarrow> lanes64 \<Rightarrow> bytes \<Rightarrow> nat \<Rightarrow> lanes64 \<times> bytes" where
  "XXH64_loop align v input rem =
     (let v = XXH64_stripe align v input; input = drop 32 input; rem = rem - 32
      in if 31 < rem then XXH64_loop align v input rem else (v, input))"
  by pat_completeness auto
termination by (relation "measure (\<lambda>(align, v, input, rem). rem)") auto

declare XXH64_loop.simps [simp del]

definition XXH64_endian_align :: "bytes \<Rightarrow> nat \<Rightarrow> 64 word \<Rightarrow> XXH_alignment \<Rightarrow> 64 word" where
  "XXH64_endian_align input len seed align =
     (let (h64, input) =
        (if 32 \<le> len
         then (let (v, input) = XXH64_loop align (XXH64_init seed) input len
               in (XXH64_converge v, input))
         else (seed + XXH_PRIME64_5, input));
        h64 = h64 + of_nat len
      in XXH64_finalize h64 input len align)"

definition XXH64 :: "bool \<Rightarrow> nat \<Rightarrow> bytes \<Rightarrow> nat \<Rightarrow> 64 word \<Rightarrow> 64 word" where
  "XXH64 force_align_check addr input len seed =
     (if force_align_check \<and> addr mod 8 = 0
      then XXH64_endian_align input len seed XXH_aligned
      else XXH64_endian_align input len seed XXH_unaligned)"

section \<open>Streaming\<close>

record XXH64_state =
  total_len64 :: "64 word"
  v_lanes64 :: lanes64
  mem64 :: bytes
  memsize64 :: "32 word"

definition XXH64_reset :: "64 word \<Rightarrow> XXH64_state \<Rightarrow> XXH_errorcode \<times> XXH64_state" where
  "XXH64_reset seed state =
     (XXH_OK, \<lparr>total_len64 = 0, v_lanes64 = XXH64_init seed, mem64 = replicate 32 0, memsize64 = 0\<rparr>)"

text \<open>The \<open>do ... while (p <= limit)\<close> loop with \<open>limit = bEnd - 32\<close>.\<close>

function XXH64_update_loop :: "lanes64 \<Rightarrow> bytes \<Rightarrow> nat \<Rightarrow> lanes64 \<times> bytes \<times> nat" where
  "XXH64_update_loop v p rem =
     (let v = XXH64_stripe XXH_unaligned v p; p = drop 32 p; rem = rem - 32
      in if 32 \<le> rem then XXH64_update_loop v p rem else (v, p, rem))"
  by pat_completeness auto
termination by (relation "measure (\<lambda>(v, p, rem). rem)") auto

declare XXH64_update_loop.simps [simp del]

definition XXH64_update ::
  "XXH64_state \<Rightarrow> bytes option \<Rightarrow> nat \<Rightarrow> XXH_errorcode \<times> XXH64_state" where
  "XXH64_update state input' len =
     (case input' of
        None \<Rightarrow> (XXH_OK, state)
      | Some input \<Rightarrow>
          (let state = state\<lparr>total_len64 := total_len64 state + of_nat len\<rparr>;
               memsize = unat (memsize64 state)
           in if memsize + len < 32
              then (XXH_OK, state\<lparr>mem64 := memcpy_at memsize (take len input) (mem64 state),
                                  memsize64 := memsize64 state + of_nat len\<rparr>)
              else
                (let (state, p, rem) =
                   (if memsize64 state \<noteq> 0
                    then (let m = memcpy_at memsize (take (32 - memsize) input) (mem64 state)
                          in (state\<lparr>mem64 := m, v_lanes64 := XXH64_stripe XXH_unaligned (v_lanes64 state) m,
                                    memsize64 := 0\<rparr>,
                              drop (32 - memsize) input, len - (32 - memsize)))
                    else (state, input, len));
                   (state, p, rem) =
                     (if 32 \<le> rem
                      then (let (v, p, rem) = XXH64_update_loop (v_lanes64 state) p rem
                            in (state\<lparr>v_lanes64 := v\<rparr>, p, rem))
                      else (state, p, rem));
                   state =
                     (if 0 < rem
                      then state\<lparr>mem64 := memcpy_at 0 (take rem p) (mem64 state),
                                 memsize64 := of_nat rem\<rparr>
                      else state)
                 in (XXH_OK, state))))"

definition XXH64_digest :: "XXH64_state \<Rightarrow> 64 word" where
  "XXH64_digest state =
     (let h64 = (if 32 \<le> total_len64 state then XXH64_converge (v_lanes64 state)
                 else (case v_lanes64 state of (_, _, v3, _) \<Rightarrow> v3 + XXH_PRIME64_5));
          h64 = h64 + total_len64 state
      in XXH64_finalize h64 (mem64 state) (unat (total_len64 state)) XXH_aligned)"

section \<open>Canonical representation\<close>

definition XXH64_canonicalFromHash :: "bool \<Rightarrow> 64 word \<Rightarrow> bytes" where
  "XXH64_canonicalFromHash little_endian hash =
     (let hash = (if little_endian then XXH_swap64 hash else hash)
      in if little_endian then le_bytes 8 hash else rev (le_bytes 8 hash))"

definition XXH64_hashFromCanonical :: "bytes \<Rightarrow> 64 word" where
  "XXH64_hashFromCanonical src = XXH_readBE64 src"

section \<open>The tail\<close>

text \<open>The tail as a function of exactly the bytes that remain.\<close>

definition XXH64_tail1 :: "64 word \<Rightarrow> bytes \<Rightarrow> 64 word" where
  "XXH64_tail1 h p =
     foldl (\<lambda>h b. XXH_rotl64 (h XOR (ucast b * XXH_PRIME64_5)) 11 * XXH_PRIME64_1) h p"

function XXH64_tail :: "64 word \<Rightarrow> bytes \<Rightarrow> 64 word" where
  "XXH64_tail h p =
     (if 8 \<le> length p
      then XXH64_tail (XXH_rotl64 (h XOR XXH64_round 0 (XXH_readLE64 p)) 27 * XXH_PRIME64_1 +
             XXH_PRIME64_4) (drop 8 p)
      else if 4 \<le> length p
      then XXH64_tail1 (XXH_rotl64 (h XOR (ucast (XXH_readLE32 p) * XXH_PRIME64_1)) 23 * XXH_PRIME64_2 +
             XXH_PRIME64_3) (drop 4 p)
      else XXH64_tail1 h p)"
  by pat_completeness auto
termination by (relation "measure (\<lambda>(h, p). length p)") auto

declare XXH64_tail.simps [simp del]

lemma XXH64_loop1_tail: "len \<le> length ptr \<Longrightarrow> fst (XXH64_loop1 (h, ptr) len) = XXH64_tail1 h (take len ptr)"
proof (induction len arbitrary: h ptr)
  case (Suc len)
  then obtain b bs where "ptr = b # bs" by (cases ptr) auto
  with Suc show ?case by (simp add: XXH64_tail1_def)
qed (simp add: XXH64_tail1_def)

lemma XXH64_loop_tail:
  "len \<le> length ptr \<Longrightarrow>
     (let (s, len) = XXH64_loop8 align (h, ptr) len;
          (s, len) = (if 4 \<le> len then (XXH64_PROCESS4 align s, len - 4) else (s, len))
      in fst (XXH64_loop1 s len)) = XXH64_tail h (take len ptr)"
proof (induction len arbitrary: h ptr rule: less_induct)
  case (less len)
  show ?case
  proof (cases "8 \<le> len")
    case True
    with less.prems have r: "XXH_readLE64 (take len ptr) = XXH_readLE64_align ptr align"
      using XXH_readLE64_take [of 0 len ptr] by (simp add: XXH_readLE64_align_eq)
    from True less.prems show ?thesis
      using less.IH [of "len - 8" "drop 8 ptr"] r
      by (simp add: XXH64_loop8.simps [of _ _ len] XXH64_tail.simps [of _ "take len ptr"]
          take_drop Let_def)
  next
    case False
    then have "XXH_readLE32 (take len ptr) = XXH_readLE32_align ptr align" if "4 \<le> len"
      using XXH_readLE32_take [of 0 len ptr] less.prems that by (simp add: XXH_readLE32_align_eq)
    with False less.prems show ?thesis
      by (simp add: XXH64_loop8.simps XXH64_loop1_tail XXH64_tail.simps [of _ "take len ptr"]
          take_drop)
  qed
qed

lemma XXH64_finalize_eq:
  "len mod 32 \<le> length ptr \<Longrightarrow>
     XXH64_finalize h ptr len align = XXH64_avalanche (XXH64_tail h (take (len mod 32) ptr))"
  using XXH64_loop_tail [of "len mod 32" ptr align h]
  by (auto simp: XXH64_finalize_def Let_def split: prod.splits)

section \<open>The loops absorb blocks\<close>

lemma XXH64_stripe_cong:
  assumes "32 \<le> length p" "take 32 p = take 32 q"
  shows "XXH64_stripe align v p = XXH64_stripe XXH_unaligned v q"
proof -
  have q: "32 \<le> length q" using assms by (metis length_take min.absorb_iff1 min.commute min_def)
  have r: "XXH_readLE64 (drop k p) = XXH_readLE64 (drop k q)" if "k \<le> 24" for k
    using XXH_readLE64_take [of k 32 p] XXH_readLE64_take [of k 32 q] assms q that by simp
  from r [of 0] r [of 8] r [of 16] r [of 24] assms q show ?thesis
    by (cases v) (simp add: XXH_readLE64_align_eq)
qed

abbreviation XXH64_absorb :: "lanes64 \<Rightarrow> bytes \<Rightarrow> lanes64 \<times> bytes" where
  "XXH64_absorb \<equiv> absorb 32 (XXH64_stripe XXH_unaligned)"

lemma XXH64_stripe_take:
  "32 \<le> length p \<Longrightarrow> XXH64_stripe align v p = XXH64_stripe XXH_unaligned v (take 32 p)"
  by (rule XXH64_stripe_cong) simp_all

lemma XXH64_loop_absorb:
  "32 \<le> length p \<Longrightarrow> XXH64_loop align v (p @ q) (length p) =
     (case XXH64_absorb v p of (v', r) \<Rightarrow> (v', r @ q))"
proof (induction "length p" arbitrary: v p rule: less_induct)
  case less
  from less.prems have s: "XXH64_stripe align v (p @ q) = XXH64_stripe XXH_unaligned v (take 32 p)"
    using XXH64_stripe_take [of "p @ q"] by simp
  show ?case
  proof (cases "32 \<le> length (drop 32 p)")
    case True
    with less.hyps [of "drop 32 p"] less.prems s show ?thesis
      by (simp add: XXH64_loop.simps [of _ _ "p @ q"] absorb_block Let_def)
  next
    case False
    with less.prems s show ?thesis
      by (simp add: XXH64_loop.simps [of _ _ "p @ q"] absorb_block absorb_short Let_def)
  qed
qed

lemma XXH64_update_loop_absorb:
  "32 \<le> length p \<Longrightarrow> XXH64_update_loop v p (length p) =
     (case XXH64_absorb v p of (v', r) \<Rightarrow> (v', r, length r))"
proof (induction "length p" arbitrary: v p rule: less_induct)
  case less
  from less.prems have s: "XXH64_stripe XXH_unaligned v p = XXH64_stripe XXH_unaligned v (take 32 p)"
    by (rule XXH64_stripe_take)
  show ?case
  proof (cases "32 \<le> length (drop 32 p)")
    case True
    with less.hyps [of "drop 32 p"] less.prems s show ?thesis
      by (simp add: XXH64_update_loop.simps [of _ p] absorb_block Let_def)
  next
    case False
    with less.prems s show ?thesis
      by (simp add: XXH64_update_loop.simps [of _ p] absorb_block absorb_short Let_def)
  qed
qed

section \<open>The hash as a function of the bytes\<close>

definition XXH64_of :: "64 word \<Rightarrow> bytes \<Rightarrow> 64 word" where
  "XXH64_of seed p =
     (let (v, r) = XXH64_absorb (XXH64_init seed) p;
          h = (if 32 \<le> length p then XXH64_converge v else seed + XXH_PRIME64_5)
      in XXH64_avalanche (XXH64_tail (h + of_nat (length p)) r))"

lemma XXH64_absorb_rest:
  assumes "XXH64_absorb v p = (v', r)"
  shows "length r = length p mod 32" "length r < 32"
  using absorb_rest [of 32 "XXH64_stripe XXH_unaligned" v p] assms by simp_all

lemma XXH64_endian_align_eq:
  "XXH64_endian_align (p @ q) (length p) seed align = XXH64_of seed p"
proof (cases "32 \<le> length p")
  case True
  obtain v r where a: "XXH64_absorb (XXH64_init seed) p = (v, r)" by fastforce
  with True XXH64_absorb_rest [OF a] show ?thesis
    by (simp add: XXH64_endian_align_def XXH64_of_def XXH64_loop_absorb XXH64_finalize_eq)
next
  case False
  then show ?thesis
    by (simp add: XXH64_endian_align_def XXH64_of_def absorb_short XXH64_finalize_eq)
qed

lemma XXH64_eq: "XXH64 fac addr (p @ q) (length p) seed = XXH64_of seed p"
  by (simp add: XXH64_def XXH64_endian_align_eq)

section \<open>Streaming computes the same hash\<close>

definition XXH64_fed :: "64 word \<Rightarrow> XXH64_state \<Rightarrow> bytes \<Rightarrow> bool" where
  "XXH64_fed seed s data \<longleftrightarrow>
     total_len64 s = of_nat (length data) \<and> length (mem64 s) = 32 \<and>
     (\<exists>r. XXH64_absorb (XXH64_init seed) data = (v_lanes64 s, r) \<and> memsize64 s = of_nat (length r) \<and>
          take (length r) (mem64 s) = r)"

lemma XXH64_reset_fed: "XXH64_fed seed (snd (XXH64_reset seed s)) []"
  by (simp add: XXH64_fed_def XXH64_reset_def absorb_short)

definition XXH64_fill :: "XXH64_state \<Rightarrow> bytes \<Rightarrow> XXH64_state \<times> bytes \<times> nat" where
  "XXH64_fill state input =
     (let memsize = unat (memsize64 state) in
      if memsize64 state \<noteq> 0
      then (let m = memcpy_at memsize (take (32 - memsize) input) (mem64 state)
            in (state\<lparr>mem64 := m, v_lanes64 := XXH64_stripe XXH_unaligned (v_lanes64 state) m, memsize64 := 0\<rparr>,
                drop (32 - memsize) input, length input - (32 - memsize)))
      else (state, input, length input))"

lemma XXH64_fill_absorb:
  assumes "memsize64 s = of_nat (length r)" "take (length r) (mem64 s) = r" "length r < 32"
    and "length (mem64 s) = 32" "32 \<le> length r + length x"
  obtains s' p where "XXH64_fill s x = (s', p, length p)"
    "XXH64_absorb (v_lanes64 s) (r @ x) = XXH64_absorb (v_lanes64 s') p"
    "s' = s\<lparr>mem64 := mem64 s', v_lanes64 := v_lanes64 s', memsize64 := 0\<rparr>" "length (mem64 s') = 32"
proof (cases "r = []")
  case True
  with assms that [of s x] show thesis by (simp add: XXH64_fill_def)
next
  case False
  define k where "k = length r"
  have u: "unat (memsize64 s) = k" "memsize64 s \<noteq> 0"
    using assms(1,3) False by (auto simp: k_def dest: arg_cong [of _ _ unat])
  define m where "m = memcpy_at k (take (32 - k) x) (mem64 s)"
  have "m = r @ take (32 - k) x"
    using assms by (simp add: m_def memcpy_at_def k_def)
  then have m: "take 32 (r @ x) = m" "drop 32 (r @ x) = drop (32 - k) x" "length m = 32"
    using assms by (simp_all add: k_def)
  have "XXH64_absorb (v_lanes64 s) (r @ x) =
      XXH64_absorb (XXH64_stripe XXH_unaligned (v_lanes64 s) m) (drop (32 - k) x)"
    using assms(5) m absorb_block [of 32 "r @ x"] by simp
  then show thesis
    using u m(3) assms
    by (intro that [of "s\<lparr>mem64 := m, v_lanes64 := XXH64_stripe XXH_unaligned (v_lanes64 s) m, memsize64 := 0\<rparr>"
          "drop (32 - k) x"])
       (simp_all add: XXH64_fill_def m_def Let_def)
qed

lemma XXH64_update_fed:
  assumes "XXH64_fed seed s data"
  shows "XXH64_fed seed (snd (XXH64_update s (Some x) (length x))) (data @ x)"
proof -
  from assms obtain r where tl: "total_len64 s = of_nat (length data)"
    and m: "length (mem64 s) = 32"
    and a: "XXH64_absorb (XXH64_init seed) data = (v_lanes64 s, r)"
    and ms: "memsize64 s = of_nat (length r)" and r: "take (length r) (mem64 s) = r"
    by (auto simp: XXH64_fed_def)
  have r32: "length r < 32" using XXH64_absorb_rest [OF a] by simp
  define t where "t = s\<lparr>total_len64 := total_len64 s + of_nat (length x)\<rparr>"
  have t: "total_len64 t = of_nat (length (data @ x))" "v_lanes64 t = v_lanes64 s" "mem64 t = mem64 s" "memsize64 t = memsize64 s"
    using tl by (simp_all add: t_def)
  have u: "unat (memsize64 s) = length r" using ms r32 by simp
  have app: "XXH64_absorb (XXH64_init seed) (data @ x) = XXH64_absorb (v_lanes64 s) (r @ x)"
    by (rule absorb_append [OF _ a]) simp
  show ?thesis
  proof (cases "length r + length x < 32")
    case True
    have "snd (XXH64_update s (Some x) (length x)) =
      t\<lparr>mem64 := memcpy_at (length r) x (mem64 s), memsize64 := of_nat (length (r @ x))\<rparr>"
      using True u ms by (simp add: XXH64_update_def t_def Let_def)
    moreover have "XXH64_absorb (v_lanes64 s) (r @ x) = (v_lanes64 s, r @ x)"
      using True by (simp add: absorb_short)
    moreover have "take (length (r @ x)) (memcpy_at (length r) x (mem64 s)) = r @ x"
      using take_memcpy_at [of "length r" "mem64 s" x] r m r32 by simp
    ultimately show ?thesis using t m True app by (simp add: XXH64_fed_def)
  next
    case False
    then have len: "32 \<le> length r + length x" by simp
    from XXH64_fill_absorb [of t r x] ms r r32 m t len obtain t' p where
      f: "XXH64_fill t x = (t', p, length p)" "XXH64_absorb (v_lanes64 s) (r @ x) = XXH64_absorb (v_lanes64 t') p"
        "t' = t\<lparr>mem64 := mem64 t', v_lanes64 := v_lanes64 t', memsize64 := 0\<rparr>" "length (mem64 t') = 32"
      by metis
    have upd: "snd (XXH64_update s (Some x) (length x)) =
      (let (state, p, rem) = XXH64_fill t x;
           (state, p, rem) = (if 32 \<le> rem then (let (v, p, rem) = XXH64_update_loop (v_lanes64 state) p rem
             in (state\<lparr>v_lanes64 := v\<rparr>, p, rem)) else (state, p, rem))
       in if 0 < rem then state\<lparr>mem64 := memcpy_at 0 (take rem p) (mem64 state), memsize64 := of_nat rem\<rparr>
          else state)"
      using False u by (simp add: XXH64_update_def XXH64_fill_def t_def Let_def split: prod.splits)
    obtain v q where q: "XXH64_absorb (v_lanes64 t') p = (v, q)" by fastforce
    from XXH64_absorb_rest [OF q] have "length q < 32" by simp
    have st: "(if 32 \<le> length p then (let (v, p, rem) = XXH64_update_loop (v_lanes64 t') p (length p)
        in (t'\<lparr>v_lanes64 := v\<rparr>, p, rem)) else (t', p, length p)) = (t'\<lparr>v_lanes64 := v\<rparr>, q, length q)"
      using q XXH64_update_loop_absorb [of p "v_lanes64 t'"] by (auto simp: absorb_short)
    have "snd (XXH64_update s (Some x) (length x)) =
      (if q \<noteq> [] then t'\<lparr>v_lanes64 := v, mem64 := memcpy_at 0 q (mem64 t'), memsize64 := of_nat (length q)\<rparr>
       else t'\<lparr>v_lanes64 := v\<rparr>)"
      unfolding upd f(1) by (simp add: st Let_def)
    moreover have "memsize64 t' = 0" "total_len64 t' = total_len64 t"
      by (subst f(3), simp)+
    moreover have "take (length q) (memcpy_at 0 q (mem64 t')) = q" by (simp add: memcpy_at_def)
    ultimately show ?thesis
      using t app f(2,4) q \<open>length q < 32\<close> by (auto simp: XXH64_fed_def)
  qed
qed

lemma XXH64_digest_fed:
  assumes "XXH64_fed seed s data" "length data < 2 ^ 64"
  shows "XXH64_digest s = XXH64_of seed data"
proof -
  from assms(1) obtain r where tl: "total_len64 s = of_nat (length data)"
    and m: "length (mem64 s) = 32"
    and a: "XXH64_absorb (XXH64_init seed) data = (v_lanes64 s, r)"
    and ms: "memsize64 s = of_nat (length r)" and r: "take (length r) (mem64 s) = r"
    by (auto simp: XXH64_fed_def)
  have u: "unat (total_len64 s) = length data" using tl assms(2) by simp
  then have "(32 \<le> total_len64 s) = (32 \<le> length data)" by (simp add: word_le_nat_alt)
  moreover have "v_lanes64 s = XXH64_init seed" if "length data < 32"
    using a that by (simp add: absorb_short)
  ultimately have h: "(if 32 \<le> total_len64 s then XXH64_converge (v_lanes64 s)
      else (case v_lanes64 s of (_, _, v3, _) \<Rightarrow> v3 + XXH_PRIME64_5)) =
    (if 32 \<le> length data then XXH64_converge (v_lanes64 s) else seed + XXH_PRIME64_5)"
    by (auto simp: XXH64_init_def)
  show ?thesis
    unfolding XXH64_digest_def XXH64_of_def a h Let_def
    using m r u tl XXH64_absorb_rest [OF a] by (simp add: XXH64_finalize_eq)
qed

interpretation xxh64: streaming_hash "XXH64_fed seed" "\<lambda>s x. snd (XXH64_update s (Some x) (length x))"
  XXH64_digest "XXH64_of seed" "2 ^ 64" for seed
  by unfold_locales (simp_all add: XXH64_update_fed XXH64_digest_fed)

section \<open>Canonical representations\<close>

lemma XXH32_canonical_bytes: "XXH32_canonicalFromHash le h = rev (le_bytes 4 h)"
proof -
  have "le_word (le_bytes 4 (XXH_swap32 h)) = (le_word (rev (le_bytes 4 h)) :: 32 word)"
    using XXH_swap32_le_word [of "le_bytes 4 h"] by (simp add: le_word_le_bytes)
  then have "le_bytes 4 (XXH_swap32 h) = le_bytes 4 (le_word (rev (le_bytes 4 h)) :: 32 word)"
    by (simp add: le_word_le_bytes)
  also have "\<dots> = rev (le_bytes 4 h)" by (rule le_bytes_le_word) simp_all
  finally show ?thesis by (simp add: XXH32_canonicalFromHash_def)
qed

lemma XXH64_canonical_bytes: "XXH64_canonicalFromHash le h = rev (le_bytes 8 h)"
proof -
  have "le_word (le_bytes 8 (XXH_swap64 h)) = (le_word (rev (le_bytes 8 h)) :: 64 word)"
    using XXH_swap64_le_word [of "le_bytes 8 h"] by (simp add: le_word_le_bytes)
  then have "le_bytes 8 (XXH_swap64 h) = le_bytes 8 (le_word (rev (le_bytes 8 h)) :: 64 word)"
    by (simp add: le_word_le_bytes)
  also have "\<dots> = rev (le_bytes 8 h)" by (rule le_bytes_le_word) simp_all
  finally show ?thesis by (simp add: XXH64_canonicalFromHash_def)
qed

text \<open>The hash of \<^verbatim>\<open>abc\<close>, computed.\<close>

lemma XXH64_test_vector: "XXH64 False 0 [0x61, 0x62, 0x63] 3 0 = 0x44BC2CF5AD770999"
  by code_simp

section \<open>Properties\<close>

text \<open>
  The canonical form of a hash is its bytes with the most significant first, on machines of
  either byte order, and reading it back gives the hash.
\<close>

theorem canonical_roundtrip:
  "XXH32_canonicalFromHash le h = rev (le_bytes 4 h) \<and>
   XXH32_hashFromCanonical (XXH32_canonicalFromHash le h) = h \<and>
   XXH64_canonicalFromHash le h' = rev (le_bytes 8 h') \<and>
   XXH64_hashFromCanonical (XXH64_canonicalFromHash le h') = h'"
  by (simp add: XXH32_canonical_bytes XXH64_canonical_bytes XXH32_hashFromCanonical_def
      XXH64_hashFromCanonical_def XXH_readBE32_eq XXH_readBE64_eq le_word_le_bytes)

text \<open>
  (C37) Feeding an input to the streaming XXH64 in any pieces gives the one-shot XXH64 of the
  whole; the one-shot function neither depends on what follows its \<open>len\<close> bytes in memory nor
  on the alignment of the input.
\<close>

theorem XXH64_streaming:
  assumes "length (concat xs) < 2 ^ 64"
  shows "XXH64_digest (foldl (\<lambda>s x. snd (XXH64_update s (Some x) (length x)))
      (snd (XXH64_reset seed s)) xs) =
    XXH64 force_align_check addr (concat xs @ rest) (length (concat xs)) seed"
  using xxh64.digest_of_chunks [OF XXH64_reset_fed assms] by (simp add: XXH64_eq)

theorem XXH64_streaming_witness:
  "XXH64_digest (foldl (\<lambda>s x. snd (XXH64_update s (Some x) (length x)))
      (snd (XXH64_reset 0 undefined)) [[0x61, 0x62], [], [0x63]]) = 0x44BC2CF5AD770999"
  using XXH64_streaming [of "[[0x61, 0x62], [], [0x63]]" 0 undefined False 0 "[]"]
    XXH64_test_vector
  by (simp add: numeral_3_eq_3)

end
