(* ===== verification/Xxh3.thy ===== *)
theory Xxh3
  imports Xxh64
begin

text \<open>
  The 64-bit hash XXH3 of \<^verbatim>\<open>3rd/xxhash/include/xxhash.h\<close>, one-shot: the three ranges of short
  inputs, the scalar kernel, and the loop over long inputs.  The kernels (\<open>f_acc512\<close>,
  \<open>f_scramble\<close>) are arguments of the long-input functions as they are in the code.
\<close>

section \<open>Secrets and multiplication\<close>

definition XXH_STRIPE_LEN :: nat where [simp]: "XXH_STRIPE_LEN = 64"
definition XXH_SECRET_CONSUME_RATE :: nat where [simp]: "XXH_SECRET_CONSUME_RATE = 8"
definition XXH_ACC_NB :: nat where [simp]: "XXH_ACC_NB = 8"
definition XXH_SECRET_DEFAULT_SIZE :: nat where [simp]: "XXH_SECRET_DEFAULT_SIZE = 192"
definition XXH3_SECRET_SIZE_MIN :: nat where [simp]: "XXH3_SECRET_SIZE_MIN = 136"
definition XXH3_MIDSIZE_MAX :: nat where [simp]: "XXH3_MIDSIZE_MAX = 240"
definition XXH3_MIDSIZE_STARTOFFSET :: nat where [simp]: "XXH3_MIDSIZE_STARTOFFSET = 3"
definition XXH3_MIDSIZE_LASTOFFSET :: nat where [simp]: "XXH3_MIDSIZE_LASTOFFSET = 17"
definition XXH_SECRET_LASTACC_START :: nat where [simp]: "XXH_SECRET_LASTACC_START = 7"
definition XXH_SECRET_MERGEACCS_START :: nat where [simp]: "XXH_SECRET_MERGEACCS_START = 11"

definition XXH3_kSecret :: bytes where
  "XXH3_kSecret =
    [0xb8, 0xfe, 0x6c, 0x39, 0x23, 0xa4, 0x4b, 0xbe, 0x7c, 0x01, 0x81, 0x2c, 0xf7, 0x21, 0xad, 0x1c,
     0xde, 0xd4, 0x6d, 0xe9, 0x83, 0x90, 0x97, 0xdb, 0x72, 0x40, 0xa4, 0xa4, 0xb7, 0xb3, 0x67, 0x1f,
     0xcb, 0x79, 0xe6, 0x4e, 0xcc, 0xc0, 0xe5, 0x78, 0x82, 0x5a, 0xd0, 0x7d, 0xcc, 0xff, 0x72, 0x21,
     0xb8, 0x08, 0x46, 0x74, 0xf7, 0x43, 0x24, 0x8e, 0xe0, 0x35, 0x90, 0xe6, 0x81, 0x3a, 0x26, 0x4c,
     0x3c, 0x28, 0x52, 0xbb, 0x91, 0xc3, 0x00, 0xcb, 0x88, 0xd0, 0x65, 0x8b, 0x1b, 0x53, 0x2e, 0xa3,
     0x71, 0x64, 0x48, 0x97, 0xa2, 0x0d, 0xf9, 0x4e, 0x38, 0x19, 0xef, 0x46, 0xa9, 0xde, 0xac, 0xd8,
     0xa8, 0xfa, 0x76, 0x3f, 0xe3, 0x9c, 0x34, 0x3f, 0xf9, 0xdc, 0xbb, 0xc7, 0xc7, 0x0b, 0x4f, 0x1d,
     0x8a, 0x51, 0xe0, 0x4b, 0xcd, 0xb4, 0x59, 0x31, 0xc8, 0x9f, 0x7e, 0xc9, 0xd9, 0x78, 0x73, 0x64,
     0xea, 0xc5, 0xac, 0x83, 0x34, 0xd3, 0xeb, 0xc3, 0xc5, 0x81, 0xa0, 0xff, 0xfa, 0x13, 0x63, 0xeb,
     0x17, 0x0d, 0xdd, 0x51, 0xb7, 0xf0, 0xda, 0x49, 0xd3, 0x16, 0x55, 0x26, 0x29, 0xd4, 0x68, 0x9e,
     0x2b, 0x16, 0xbe, 0x58, 0x7d, 0x47, 0xa1, 0xfc, 0x8f, 0xf8, 0xb8, 0xd1, 0x7a, 0xd0, 0x31, 0xce,
     0x45, 0xcb, 0x3a, 0x8f, 0x95, 0x16, 0x04, 0x28, 0xaf, 0xd7, 0xfb, 0xca, 0xbb, 0x4b, 0x40, 0x7e]"

definition XXH_mult32to64 :: "64 word \<Rightarrow> 64 word \<Rightarrow> 64 word" where
  "XXH_mult32to64 x y = (x AND 0xFFFFFFFF) * (y AND 0xFFFFFFFF)"

record XXH128_hash =
  low64 :: "64 word"
  high64 :: "64 word"

text \<open>With a 128-bit integer type.\<close>

definition XXH_mult64to128 :: "64 word \<Rightarrow> 64 word \<Rightarrow> XXH128_hash" where
  "XXH_mult64to128 lhs rhs =
     (let product = (ucast lhs :: 128 word) * ucast rhs
      in \<lparr>low64 = ucast product, high64 = ucast (drop_bit 64 product)\<rparr>)"

text \<open>The portable variant: grade-school multiplication of 32-bit halves.\<close>

definition XXH_mult64to128_portable :: "64 word \<Rightarrow> 64 word \<Rightarrow> XXH128_hash" where
  "XXH_mult64to128_portable lhs rhs =
     (let lo_lo = XXH_mult32to64 (lhs AND 0xFFFFFFFF) (rhs AND 0xFFFFFFFF);
          hi_lo = XXH_mult32to64 (drop_bit 32 lhs) (rhs AND 0xFFFFFFFF);
          lo_hi = XXH_mult32to64 (lhs AND 0xFFFFFFFF) (drop_bit 32 rhs);
          hi_hi = XXH_mult32to64 (drop_bit 32 lhs) (drop_bit 32 rhs);
          cross = drop_bit 32 lo_lo + (hi_lo AND 0xFFFFFFFF) + lo_hi;
          upper = drop_bit 32 hi_lo + drop_bit 32 cross + hi_hi;
          lower = push_bit 32 cross OR (lo_lo AND 0xFFFFFFFF)
      in \<lparr>low64 = lower, high64 = upper\<rparr>)"

definition XXH3_mul128_fold64 :: "64 word \<Rightarrow> 64 word \<Rightarrow> 64 word" where
  "XXH3_mul128_fold64 lhs rhs =
     (let product = XXH_mult64to128 lhs rhs in low64 product XOR high64 product)"

definition XXH_xorshift64 :: "64 word \<Rightarrow> nat \<Rightarrow> 64 word" where
  "XXH_xorshift64 v64 shift = v64 XOR drop_bit shift v64"

definition XXH3_avalanche :: "64 word \<Rightarrow> 64 word" where
  "XXH3_avalanche h64 =
     (let h64 = XXH_xorshift64 h64 37; h64 = h64 * 0x165667919E3779F9 in XXH_xorshift64 h64 32)"

definition XXH3_rrmxmx :: "64 word \<Rightarrow> 64 word \<Rightarrow> 64 word" where
  "XXH3_rrmxmx h64 len =
     (let h64 = h64 XOR (XXH_rotl64 h64 49 XOR XXH_rotl64 h64 24);
          h64 = h64 * 0x9FB21C651E98DF25;
          h64 = h64 XOR (drop_bit 35 h64 + len);
          h64 = h64 * 0x9FB21C651E98DF25
      in XXH_xorshift64 h64 28)"

section \<open>Short inputs\<close>

definition XXH3_len_1to3_64b :: "bytes \<Rightarrow> nat \<Rightarrow> bytes \<Rightarrow> 64 word \<Rightarrow> 64 word" where
  "XXH3_len_1to3_64b input len secret seed =
     (let c1 = input ! 0; c2 = input ! (len div 2); c3 = input ! (len - 1);
          combined = push_bit 16 (ucast c1) OR push_bit 24 (ucast c2) OR
                     push_bit 0 (ucast c3) OR push_bit 8 (of_nat len) :: 32 word;
          bitflip = ucast (XXH_readLE32 secret XOR XXH_readLE32 (drop 4 secret)) + seed;
          keyed = ucast combined XOR bitflip
      in XXH64_avalanche keyed)"

definition XXH3_len_4to8_64b :: "bytes \<Rightarrow> nat \<Rightarrow> bytes \<Rightarrow> 64 word \<Rightarrow> 64 word" where
  "XXH3_len_4to8_64b input len secret seed =
     (let seed = seed XOR push_bit 32 (ucast (XXH_swap32 (ucast seed)));
          input1 = XXH_readLE32 input; input2 = XXH_readLE32 (drop (len - 4) input);
          bitflip = (XXH_readLE64 (drop 8 secret) XOR XXH_readLE64 (drop 16 secret)) - seed;
          input64 = ucast input2 + push_bit 32 (ucast input1);
          keyed = input64 XOR bitflip
      in XXH3_rrmxmx keyed (of_nat len))"

definition XXH3_len_9to16_64b :: "bytes \<Rightarrow> nat \<Rightarrow> bytes \<Rightarrow> 64 word \<Rightarrow> 64 word" where
  "XXH3_len_9to16_64b input len secret seed =
     (let bitflip1 = (XXH_readLE64 (drop 24 secret) XOR XXH_readLE64 (drop 32 secret)) + seed;
          bitflip2 = (XXH_readLE64 (drop 40 secret) XOR XXH_readLE64 (drop 48 secret)) - seed;
          input_lo = XXH_readLE64 input XOR bitflip1;
          input_hi = XXH_readLE64 (drop (len - 8) input) XOR bitflip2;
          acc = of_nat len + XXH_swap64 input_lo + input_hi + XXH3_mul128_fold64 input_lo input_hi
      in XXH3_avalanche acc)"

definition XXH3_len_0to16_64b :: "bytes \<Rightarrow> nat \<Rightarrow> bytes \<Rightarrow> 64 word \<Rightarrow> 64 word" where
  "XXH3_len_0to16_64b input len secret seed =
     (if 8 < len then XXH3_len_9to16_64b input len secret seed
      else if 4 \<le> len then XXH3_len_4to8_64b input len secret seed
      else if len \<noteq> 0 then XXH3_len_1to3_64b input len secret seed
      else XXH64_avalanche
             (seed XOR (XXH_readLE64 (drop 56 secret) XOR XXH_readLE64 (drop 64 secret))))"

definition XXH3_mix16B :: "bytes \<Rightarrow> bytes \<Rightarrow> 64 word \<Rightarrow> 64 word" where
  "XXH3_mix16B input secret seed64 =
     (let input_lo = XXH_readLE64 input; input_hi = XXH_readLE64 (drop 8 input)
      in XXH3_mul128_fold64 (input_lo XOR (XXH_readLE64 secret + seed64))
           (input_hi XOR (XXH_readLE64 (drop 8 secret) - seed64)))"

definition XXH3_len_17to128_64b :: "bytes \<Rightarrow> nat \<Rightarrow> bytes \<Rightarrow> nat \<Rightarrow> 64 word \<Rightarrow> 64 word" where
  "XXH3_len_17to128_64b input len secret secretSize seed =
     (let mix = (\<lambda>i s. XXH3_mix16B (drop i input) (drop s secret) seed);
          acc = of_nat len * XXH_PRIME64_1;
          acc = (if 96 < len then acc + mix 48 96 + mix (len - 64) 112 else acc);
          acc = (if 64 < len then acc + mix 32 64 + mix (len - 48) 80 else acc);
          acc = (if 32 < len then acc + mix 16 32 + mix (len - 32) 48 else acc);
          acc = acc + mix 0 0 + mix (len - 16) 16
      in XXH3_avalanche acc)"

definition XXH3_len_129to240_64b :: "bytes \<Rightarrow> nat \<Rightarrow> bytes \<Rightarrow> nat \<Rightarrow> 64 word \<Rightarrow> 64 word" where
  "XXH3_len_129to240_64b input len secret secretSize seed =
     (let mix = (\<lambda>i s. XXH3_mix16B (drop i input) (drop s secret) seed);
          acc = of_nat len * XXH_PRIME64_1;
          nbRounds = len div 16;
          acc = foldl (\<lambda>acc i. acc + mix (16 * i) (16 * i)) acc [0..<8];
          acc = XXH3_avalanche acc;
          acc = foldl (\<lambda>acc i. acc + mix (16 * i) (16 * (i - 8) + XXH3_MIDSIZE_STARTOFFSET)) acc
                  [8..<nbRounds];
          acc = acc + mix (len - 16) (XXH3_SECRET_SIZE_MIN - XXH3_MIDSIZE_LASTOFFSET)
      in XXH3_avalanche acc)"

section \<open>The scalar kernel\<close>

type_synonym accs = "64 word list"

definition XXH3_accumulate_512_scalar :: "accs \<Rightarrow> bytes \<Rightarrow> bytes \<Rightarrow> accs" where
  "XXH3_accumulate_512_scalar acc input secret =
     foldl (\<lambda>xacc i.
       let data_val = XXH_readLE64 (drop (8 * i) input);
           data_key = data_val XOR XXH_readLE64 (drop (i * 8) secret);
           xacc = xacc[i XOR 1 := xacc ! (i XOR 1) + data_val]
       in xacc[i := xacc ! i + XXH_mult32to64 (data_key AND 0xFFFFFFFF) (drop_bit 32 data_key)])
     acc [0..<XXH_ACC_NB]"

definition XXH3_scrambleAcc_scalar :: "accs \<Rightarrow> bytes \<Rightarrow> accs" where
  "XXH3_scrambleAcc_scalar acc secret =
     foldl (\<lambda>xacc i.
       let key64 = XXH_readLE64 (drop (8 * i) secret);
           acc64 = xacc ! i;
           acc64 = XXH_xorshift64 acc64 47;
           acc64 = acc64 XOR key64;
           acc64 = acc64 * ucast XXH_PRIME32_1
       in xacc[i := acc64])
     acc [0..<XXH_ACC_NB]"

definition XXH3_initCustomSecret_scalar :: "bytes \<Rightarrow> 64 word \<Rightarrow> bytes" where
  "XXH3_initCustomSecret_scalar customSecret seed64 =
     foldl (\<lambda>dst i.
       let lo = XXH_readLE64 (drop (16 * i) XXH3_kSecret) + seed64;
           hi = XXH_readLE64 (drop (16 * i + 8) XXH3_kSecret) - seed64
       in XXH_writeLE64 (16 * i + 8) hi (XXH_writeLE64 (16 * i) lo dst))
     customSecret [0..<XXH_SECRET_DEFAULT_SIZE div 16]"

section \<open>Long inputs\<close>

type_synonym f_accumulate = "accs \<Rightarrow> bytes \<Rightarrow> bytes \<Rightarrow> accs"
type_synonym f_scrambleAcc = "accs \<Rightarrow> bytes \<Rightarrow> accs"

definition XXH3_accumulate :: "accs \<Rightarrow> bytes \<Rightarrow> bytes \<Rightarrow> nat \<Rightarrow> f_accumulate \<Rightarrow> accs" where
  "XXH3_accumulate acc input secret nbStripes f_acc512 =
     foldl (\<lambda>acc n. f_acc512 acc (drop (n * XXH_STRIPE_LEN) input)
                      (drop (n * XXH_SECRET_CONSUME_RATE) secret))
       acc [0..<nbStripes]"

definition XXH3_hashLong_internal_loop ::
  "accs \<Rightarrow> bytes \<Rightarrow> nat \<Rightarrow> bytes \<Rightarrow> nat \<Rightarrow> f_accumulate \<Rightarrow> f_scrambleAcc \<Rightarrow> accs" where
  "XXH3_hashLong_internal_loop acc input len secret secretSize f_acc512 f_scramble =
     (let nbStripesPerBlock = (secretSize - XXH_STRIPE_LEN) div XXH_SECRET_CONSUME_RATE;
          block_len = XXH_STRIPE_LEN * nbStripesPerBlock;
          nb_blocks = (len - 1) div block_len;
          acc = foldl (\<lambda>acc n.
                  f_scramble (XXH3_accumulate acc (drop (n * block_len) input) secret
                                nbStripesPerBlock f_acc512)
                    (drop (secretSize - XXH_STRIPE_LEN) secret)) acc [0..<nb_blocks];
          nbStripes = ((len - 1) - (block_len * nb_blocks)) div XXH_STRIPE_LEN;
          acc = XXH3_accumulate acc (drop (nb_blocks * block_len) input) secret nbStripes f_acc512;
          p = drop (len - XXH_STRIPE_LEN) input
      in f_acc512 acc p (drop (secretSize - XXH_STRIPE_LEN - XXH_SECRET_LASTACC_START) secret))"

definition XXH3_mix2Accs :: "accs \<Rightarrow> bytes \<Rightarrow> 64 word" where
  "XXH3_mix2Accs acc secret =
     XXH3_mul128_fold64 (acc ! 0 XOR XXH_readLE64 secret) (acc ! 1 XOR XXH_readLE64 (drop 8 secret))"

definition XXH3_mergeAccs :: "accs \<Rightarrow> bytes \<Rightarrow> 64 word \<Rightarrow> 64 word" where
  "XXH3_mergeAccs acc secret start =
     XXH3_avalanche
       (foldl (\<lambda>result64 i. result64 + XXH3_mix2Accs (drop (2 * i) acc) (drop (16 * i) secret))
          start [0..<4])"

definition XXH3_INIT_ACC :: accs where
  "XXH3_INIT_ACC =
     [ucast XXH_PRIME32_3, XXH_PRIME64_1, XXH_PRIME64_2, XXH_PRIME64_3,
      XXH_PRIME64_4, ucast XXH_PRIME32_2, XXH_PRIME64_5, ucast XXH_PRIME32_1]"

definition XXH3_hashLong_64b_internal ::
  "bytes \<Rightarrow> nat \<Rightarrow> bytes \<Rightarrow> nat \<Rightarrow> f_accumulate \<Rightarrow> f_scrambleAcc \<Rightarrow> 64 word" where
  "XXH3_hashLong_64b_internal input len secret secretSize f_acc512 f_scramble =
     (let acc = XXH3_hashLong_internal_loop XXH3_INIT_ACC input len secret secretSize f_acc512 f_scramble
      in XXH3_mergeAccs acc (drop XXH_SECRET_MERGEACCS_START secret) (of_nat len * XXH_PRIME64_1))"

text \<open>
  The kernel \<open>XXH3_accumulate_512\<close>, \<open>XXH3_scrambleAcc\<close>, \<open>XXH3_initCustomSecret\<close> is chosen at
  compile time; here it is a record.
\<close>

record xxh3_kernel =
  k_accumulate :: f_accumulate
  k_scramble :: f_scrambleAcc
  k_init :: "bytes \<Rightarrow> 64 word \<Rightarrow> bytes"

definition scalar_kernel :: xxh3_kernel where
  "scalar_kernel = \<lparr>k_accumulate = XXH3_accumulate_512_scalar, k_scramble = XXH3_scrambleAcc_scalar,
                    k_init = XXH3_initCustomSecret_scalar\<rparr>"

type_synonym f_hashLong64 = "bytes \<Rightarrow> nat \<Rightarrow> 64 word \<Rightarrow> bytes \<Rightarrow> nat \<Rightarrow> 64 word"

definition XXH3_hashLong_64b_withSecret :: "xxh3_kernel \<Rightarrow> f_hashLong64" where
  "XXH3_hashLong_64b_withSecret K input len seed64 secret secretLen =
     XXH3_hashLong_64b_internal input len secret secretLen (k_accumulate K) (k_scramble K)"

definition XXH3_hashLong_64b_default :: "xxh3_kernel \<Rightarrow> f_hashLong64" where
  "XXH3_hashLong_64b_default K input len seed64 secret secretLen =
     XXH3_hashLong_64b_internal input len XXH3_kSecret XXH_SECRET_DEFAULT_SIZE
       (k_accumulate K) (k_scramble K)"

text \<open>The local array \<open>secret\<close> is not initialised before \<open>f_initSec\<close> fills it.\<close>

definition XXH3_hashLong_64b_withSeed_internal ::
  "bytes \<Rightarrow> nat \<Rightarrow> 64 word \<Rightarrow> f_accumulate \<Rightarrow> f_scrambleAcc \<Rightarrow> (bytes \<Rightarrow> 64 word \<Rightarrow> bytes) \<Rightarrow> bytes \<Rightarrow> 64 word" where
  "XXH3_hashLong_64b_withSeed_internal input len seed f_acc512 f_scramble f_initSec uninit =
     (if seed = 0
      then XXH3_hashLong_64b_internal input len XXH3_kSecret XXH_SECRET_DEFAULT_SIZE f_acc512 f_scramble
      else XXH3_hashLong_64b_internal input len (f_initSec uninit seed) XXH_SECRET_DEFAULT_SIZE
             f_acc512 f_scramble)"

definition XXH3_hashLong_64b_withSeed :: "xxh3_kernel \<Rightarrow> f_hashLong64" where
  "XXH3_hashLong_64b_withSeed K input len seed secret secretLen =
     XXH3_hashLong_64b_withSeed_internal input len seed (k_accumulate K) (k_scramble K) (k_init K)
       (replicate XXH_SECRET_DEFAULT_SIZE 0)"

definition XXH3_64bits_internal ::
  "bytes \<Rightarrow> nat \<Rightarrow> 64 word \<Rightarrow> bytes \<Rightarrow> nat \<Rightarrow> f_hashLong64 \<Rightarrow> 64 word" where
  "XXH3_64bits_internal input len seed64 secret secretLen f_hashLong =
     (if len \<le> 16 then XXH3_len_0to16_64b input len secret seed64
      else if len \<le> 128 then XXH3_len_17to128_64b input len secret secretLen seed64
      else if len \<le> XXH3_MIDSIZE_MAX then XXH3_len_129to240_64b input len secret secretLen seed64
      else f_hashLong input len seed64 secret secretLen)"

definition XXH3_64bits :: "xxh3_kernel \<Rightarrow> bytes \<Rightarrow> nat \<Rightarrow> 64 word" where
  "XXH3_64bits K input len =
     XXH3_64bits_internal input len 0 XXH3_kSecret XXH_SECRET_DEFAULT_SIZE
       (XXH3_hashLong_64b_default K)"

definition XXH3_64bits_withSecret :: "xxh3_kernel \<Rightarrow> bytes \<Rightarrow> nat \<Rightarrow> bytes \<Rightarrow> nat \<Rightarrow> 64 word" where
  "XXH3_64bits_withSecret K input len secret secretSize =
     XXH3_64bits_internal input len 0 secret secretSize (XXH3_hashLong_64b_withSecret K)"

definition XXH3_64bits_withSeed :: "xxh3_kernel \<Rightarrow> bytes \<Rightarrow> nat \<Rightarrow> 64 word \<Rightarrow> 64 word" where
  "XXH3_64bits_withSeed K input len seed =
     XXH3_64bits_internal input len seed XXH3_kSecret XXH_SECRET_DEFAULT_SIZE
       (XXH3_hashLong_64b_withSeed K)"

text \<open>In \<open>withSecretandSeed\<close> the null function pointer is never called: \<open>len\<close> is small.\<close>

definition XXH3_64bits_withSecretandSeed ::
  "xxh3_kernel \<Rightarrow> bytes \<Rightarrow> nat \<Rightarrow> bytes \<Rightarrow> nat \<Rightarrow> 64 word \<Rightarrow> 64 word" where
  "XXH3_64bits_withSecretandSeed K input len secret secretSize seed =
     (if len \<le> XXH3_MIDSIZE_MAX
      then XXH3_64bits_internal input len seed XXH3_kSecret XXH_SECRET_DEFAULT_SIZE undefined
      else XXH3_hashLong_64b_withSecret K input len seed secret secretSize)"

section \<open>Short inputs are read within their length\<close>

lemma XXH3_mix16B_append:
  "i + 16 \<le> length p \<Longrightarrow> XXH3_mix16B (drop i (p @ q)) s seed = XXH3_mix16B (drop i p) s seed"
  using XXH_readLE64_append [of i p q] XXH_readLE64_append [of "i + 8" p q]
  by (simp add: XXH3_mix16B_def add.commute del: drop_append)

lemma XXH3_len_1to3_64b_append:
  "1 \<le> length p \<Longrightarrow> XXH3_len_1to3_64b (p @ q) (length p) s seed = XXH3_len_1to3_64b p (length p) s seed"
  by (auto simp: XXH3_len_1to3_64b_def nth_append)

lemma XXH3_len_4to8_64b_append:
  "4 \<le> length p \<Longrightarrow> XXH3_len_4to8_64b (p @ q) (length p) s seed = XXH3_len_4to8_64b p (length p) s seed"
  using XXH_readLE32_append [of 0 p q] XXH_readLE32_append [of "length p - 4" p q]
  by (simp add: XXH3_len_4to8_64b_def del: drop_append)

lemma XXH3_len_9to16_64b_append:
  "8 \<le> length p \<Longrightarrow> XXH3_len_9to16_64b (p @ q) (length p) s seed = XXH3_len_9to16_64b p (length p) s seed"
  using XXH_readLE64_append [of 0 p q] XXH_readLE64_append [of "length p - 8" p q]
  by (simp add: XXH3_len_9to16_64b_def del: drop_append)

lemma XXH3_len_0to16_64b_append:
  "XXH3_len_0to16_64b (p @ q) (length p) s seed = XXH3_len_0to16_64b p (length p) s seed"
proof -
  consider "8 < length p" | "4 \<le> length p" "length p \<le> 8" | "1 \<le> length p" "length p < 4" | "p = []"
    by (cases p) (auto, linarith)
  then show ?thesis
    by cases (simp_all add: XXH3_len_0to16_64b_def XXH3_len_9to16_64b_append
        XXH3_len_4to8_64b_append XXH3_len_1to3_64b_append)
qed

lemma XXH3_len_17to128_64b_append:
  assumes "17 \<le> length p"
  shows "XXH3_len_17to128_64b (p @ q) (length p) s n seed = XXH3_len_17to128_64b p (length p) s n seed"
proof -
  have m: "XXH3_mix16B (drop i (p @ q)) t seed = XXH3_mix16B (drop i p) t seed"
    if "i + 16 \<le> length p" for i t using that by (rule XXH3_mix16B_append)
  have m0: "XXH3_mix16B (p @ q) t seed = XXH3_mix16B p t seed" for t
    using m [of 0] assms by simp
  show ?thesis using assms
    by (simp add: XXH3_len_17to128_64b_def Let_def m m0 del: drop_append)
qed

lemma XXH3_len_129to240_64b_append:
  assumes "129 \<le> length p"
  shows "XXH3_len_129to240_64b (p @ q) (length p) s n seed = XXH3_len_129to240_64b p (length p) s n seed"
proof -
  have m: "XXH3_mix16B (drop i (p @ q)) t seed = XXH3_mix16B (drop i p) t seed"
    if "i + 16 \<le> length p" for i t using that by (rule XXH3_mix16B_append)
  have f: "foldl (\<lambda>acc i. acc + XXH3_mix16B (drop (16 * i) (p @ q)) (drop (g i) s) seed) a [k..<r] =
      foldl (\<lambda>acc i. acc + XXH3_mix16B (drop (16 * i) p) (drop (g i) s) seed) a [k..<r]"
    if "16 * r \<le> length p" for a k r g
  proof (rule foldl_cong)
    fix acc i assume "i \<in> set [k..<r]"
    then have "16 * i + 16 \<le> length p" using that by simp
    then show "acc + XXH3_mix16B (drop (16 * i) (p @ q)) (drop (g i) s) seed =
        acc + XXH3_mix16B (drop (16 * i) p) (drop (g i) s) seed"
      using m by simp
  qed simp_all
  have "16 * (length p div 16) \<le> length p" "16 * 8 \<le> length p" using assms by simp_all
  then show ?thesis using assms
    by (simp add: XXH3_len_129to240_64b_def Let_def m f del: drop_append)
qed

lemma XXH3_64bits_internal_append:
  "length p \<le> 240 \<Longrightarrow>
   XXH3_64bits_internal (p @ q) (length p) seed s n f = XXH3_64bits_internal p (length p) seed s n g"
  by (simp add: XXH3_64bits_internal_def XXH3_len_0to16_64b_append XXH3_len_17to128_64b_append
      XXH3_len_129to240_64b_append)

end
