(* ===== verification/Xxh3_Stream.thy ===== *)
theory Xxh3_Stream
  imports Xxh3
begin

text \<open>
  The streaming functions of XXH3 (\<^verbatim>\<open>XXH3_64bits_reset\<close>, \<^verbatim>\<open>XXH3_64bits_update\<close>,
  \<^verbatim>\<open>XXH3_64bits_digest\<close> and their variants), and the proof that they compute the one-shot
  hash of the concatenated pieces, for every kernel that only reads its stripe.
\<close>

section \<open>The state\<close>

text \<open>
  The \<open>size_t\<close> fields are natural numbers below \<open>2 ^ 64\<close>; \<open>size_sub\<close> is the subtraction of
  two of them, which wraps.  \<open>extSecret\<close> is the null pointer or points to a secret.
\<close>

definition size_sub :: "nat \<Rightarrow> nat \<Rightarrow> nat" where
  "size_sub a b = (if b \<le> a then a - b else a + 2 ^ 64 - b)"

record XXH3_state =
  st_acc :: accs
  st_customSecret :: bytes
  st_buffer :: bytes
  st_bufferedSize :: "32 word"
  st_useSeed :: "32 word"
  st_nbStripesSoFar :: nat
  st_totalLen :: "64 word"
  st_nbStripesPerBlock :: nat
  st_secretLimit :: nat
  st_seed :: "64 word"
  st_extSecret :: "bytes option"

definition XXH3_INTERNALBUFFER_SIZE :: nat where [simp]: "XXH3_INTERNALBUFFER_SIZE = 256"
definition XXH3_INTERNALBUFFER_STRIPES :: nat where [simp]: "XXH3_INTERNALBUFFER_STRIPES = 4"

text \<open>\<open>const secret = (state->extSecret == NULL) ? state->customSecret : state->extSecret\<close>\<close>

definition st_secret :: "XXH3_state \<Rightarrow> bytes" where
  "st_secret s = (case st_extSecret s of None \<Rightarrow> st_customSecret s | Some secret \<Rightarrow> secret)"

text \<open>
  What \<open>XXH_alignedMalloc\<close> returns is arbitrary memory, of which \<open>XXH3_INITSTATE\<close> sets the
  seed.
\<close>

definition XXH3_createState :: "XXH3_state option \<Rightarrow> XXH3_state option" where
  "XXH3_createState allocated = map_option (\<lambda>s. s\<lparr>st_seed := 0\<rparr>) allocated"

section \<open>Reset\<close>

definition XXH3_reset_internal :: "XXH3_state \<Rightarrow> 64 word \<Rightarrow> bytes option \<Rightarrow> nat \<Rightarrow> XXH3_state" where
  "XXH3_reset_internal statePtr seed secret secretSize =
     (let limit = size_sub secretSize XXH_STRIPE_LEN in
      statePtr\<lparr>st_bufferedSize := 0, st_useSeed := of_bool (seed \<noteq> 0), st_nbStripesSoFar := 0,
               st_totalLen := 0, st_acc := XXH3_INIT_ACC, st_seed := seed, st_extSecret := secret,
               st_secretLimit := limit,
               st_nbStripesPerBlock := limit div XXH_SECRET_CONSUME_RATE\<rparr>)"

type_synonym reset_result = "XXH_errorcode \<times> XXH3_state option"

definition XXH3_64bits_reset :: "XXH3_state option \<Rightarrow> reset_result" where
  "XXH3_64bits_reset statePtr =
     (case statePtr of
        None \<Rightarrow> (XXH_ERROR, None)
      | Some s \<Rightarrow>
          (XXH_OK, Some (XXH3_reset_internal s 0 (Some XXH3_kSecret) XXH_SECRET_DEFAULT_SIZE)))"

definition XXH3_64bits_reset_withSecret ::
  "XXH3_state option \<Rightarrow> bytes option \<Rightarrow> nat \<Rightarrow> reset_result" where
  "XXH3_64bits_reset_withSecret statePtr secret secretSize =
     (case statePtr of
        None \<Rightarrow> (XXH_ERROR, None)
      | Some s \<Rightarrow>
          (let s = XXH3_reset_internal s 0 secret secretSize
           in (if secret = None then XXH_ERROR
               else if secretSize < XXH3_SECRET_SIZE_MIN then XXH_ERROR else XXH_OK, Some s)))"

definition XXH3_64bits_reset_withSeed ::
  "xxh3_kernel \<Rightarrow> XXH3_state option \<Rightarrow> 64 word \<Rightarrow> reset_result" where
  "XXH3_64bits_reset_withSeed K statePtr seed =
     (case statePtr of
        None \<Rightarrow> (XXH_ERROR, None)
      | Some s \<Rightarrow>
          (if seed = 0 then XXH3_64bits_reset (Some s)
           else
             (let s = (if seed \<noteq> st_seed s \<or> st_extSecret s \<noteq> None
                       then s\<lparr>st_customSecret := k_init K (st_customSecret s) seed\<rparr> else s)
              in (XXH_OK, Some (XXH3_reset_internal s seed None XXH_SECRET_DEFAULT_SIZE)))))"

definition XXH3_64bits_reset_withSecretandSeed ::
  "XXH3_state option \<Rightarrow> bytes option \<Rightarrow> nat \<Rightarrow> 64 word \<Rightarrow> reset_result" where
  "XXH3_64bits_reset_withSecretandSeed statePtr secret secretSize seed64 =
     (case statePtr of
        None \<Rightarrow> (XXH_ERROR, None)
      | Some s \<Rightarrow>
          (if secret = None then (XXH_ERROR, Some s)
           else if secretSize < XXH3_SECRET_SIZE_MIN then (XXH_ERROR, Some s)
           else (XXH_OK, Some ((XXH3_reset_internal s seed64 secret secretSize)\<lparr>st_useSeed := 1\<rparr>))))"

section \<open>Update\<close>

definition XXH3_consumeStripes ::
  "accs \<Rightarrow> nat \<Rightarrow> nat \<Rightarrow> bytes \<Rightarrow> nat \<Rightarrow> bytes \<Rightarrow> nat \<Rightarrow> f_accumulate \<Rightarrow> f_scrambleAcc \<Rightarrow> accs \<times> nat" where
  "XXH3_consumeStripes acc nbStripesSoFar nbStripesPerBlock input nbStripes secret secretLimit
     f_acc512 f_scramble =
     (if nbStripesPerBlock - nbStripesSoFar \<le> nbStripes
      then
        (let nbStripesToEndofBlock = nbStripesPerBlock - nbStripesSoFar;
             nbStripesAfterBlock = nbStripes - nbStripesToEndofBlock;
             acc = XXH3_accumulate acc input (drop (nbStripesSoFar * XXH_SECRET_CONSUME_RATE) secret)
                     nbStripesToEndofBlock f_acc512;
             acc = f_scramble acc (drop secretLimit secret);
             acc = XXH3_accumulate acc (drop (nbStripesToEndofBlock * XXH_STRIPE_LEN) input) secret
                     nbStripesAfterBlock f_acc512
         in (acc, nbStripesAfterBlock))
      else
        (XXH3_accumulate acc input (drop (nbStripesSoFar * XXH_SECRET_CONSUME_RATE) secret)
           nbStripes f_acc512, nbStripesSoFar + nbStripes))"

text \<open>
  The pointer \<open>input\<close> of \<open>XXH3_update\<close> is an offset into the caller's input, since the code
  also reads the 64 bytes in front of it.  The loop over whole blocks: a block has at least one
  stripe (\<open>XXH_ASSERT(secretSize >= XXH3_SECRET_SIZE_MIN)\<close>).
\<close>

function XXH3_block_loop ::
  "f_accumulate \<Rightarrow> f_scrambleAcc \<Rightarrow> bytes \<Rightarrow> nat \<Rightarrow> nat \<Rightarrow> bytes \<Rightarrow> accs \<Rightarrow> nat \<Rightarrow> nat \<Rightarrow> accs \<times> nat \<times> nat" where
  "XXH3_block_loop f_acc512 f_scramble secret secretLimit nbStripesPerBlock input acc off nbStripes =
     (if nbStripesPerBlock \<le> nbStripes \<and> 0 < nbStripesPerBlock
      then
        (let acc = XXH3_accumulate acc (drop off input) secret nbStripesPerBlock f_acc512;
             acc = f_scramble acc (drop secretLimit secret)
         in XXH3_block_loop f_acc512 f_scramble secret secretLimit nbStripesPerBlock input acc
              (off + nbStripesPerBlock * XXH_STRIPE_LEN) (nbStripes - nbStripesPerBlock))
      else (acc, off, nbStripes))"
  by pat_completeness auto
termination by (relation "measure (\<lambda>(fa, fs, se, sl, pb, i, a, off, n). n)") auto

declare XXH3_block_loop.simps [simp del]

text \<open>The \<open>do ... while (input < limit)\<close> loop, with \<open>limit = bEnd - 256\<close>.\<close>

function XXH3_buffer_loop ::
  "f_accumulate \<Rightarrow> f_scrambleAcc \<Rightarrow> bytes \<Rightarrow> nat \<Rightarrow> nat \<Rightarrow> bytes \<Rightarrow> nat \<Rightarrow> accs \<Rightarrow> nat \<Rightarrow> nat \<Rightarrow> accs \<times> nat \<times> nat" where
  "XXH3_buffer_loop f_acc512 f_scramble secret secretLimit nbStripesPerBlock input len
     acc nbStripesSoFar off =
     (let (acc, nbStripesSoFar) =
        XXH3_consumeStripes acc nbStripesSoFar nbStripesPerBlock (drop off input)
          XXH3_INTERNALBUFFER_STRIPES secret secretLimit f_acc512 f_scramble;
        off = off + XXH3_INTERNALBUFFER_SIZE
      in if off + XXH3_INTERNALBUFFER_SIZE < len
         then XXH3_buffer_loop f_acc512 f_scramble secret secretLimit nbStripesPerBlock input len
                acc nbStripesSoFar off
         else (acc, nbStripesSoFar, off))"
  by pat_completeness auto
termination by (relation "measure (\<lambda>(fa, fs, se, sl, pb, i, len, a, n, off). len - off)") auto

declare XXH3_buffer_loop.simps [simp del]

text \<open>\<open>memcpy(state->buffer + sizeof(state->buffer) - 64, input - 64, 64)\<close>\<close>

definition save_last_stripe :: "bytes \<Rightarrow> nat \<Rightarrow> bytes \<Rightarrow> bytes" where
  "save_last_stripe input off buf =
     memcpy_at (XXH3_INTERNALBUFFER_SIZE - XXH_STRIPE_LEN)
       (take XXH_STRIPE_LEN (drop (off - XXH_STRIPE_LEN) input)) buf"

text \<open>
  The three parts of \<open>XXH3_update\<close> once the input does not fit the buffer: completing and
  consuming a partly filled buffer; consuming the input directly, by whole blocks when there is
  more than a block of it and by the buffer's size otherwise; keeping the rest.
\<close>

definition XXH3_update_fill ::
  "f_accumulate \<Rightarrow> f_scrambleAcc \<Rightarrow> bytes \<Rightarrow> XXH3_state \<Rightarrow> bytes \<Rightarrow> bytes \<times> accs \<times> nat \<times> nat" where
  "XXH3_update_fill f_acc512 f_scramble secret state input =
     (let bsize = unat (st_bufferedSize state) in
      if st_bufferedSize state \<noteq> 0
      then (let loadSize = XXH3_INTERNALBUFFER_SIZE - bsize;
                buf = memcpy_at bsize (take loadSize input) (st_buffer state);
                (acc, soFar) = XXH3_consumeStripes (st_acc state) (st_nbStripesSoFar state)
                  (st_nbStripesPerBlock state) buf XXH3_INTERNALBUFFER_STRIPES
                  secret (st_secretLimit state) f_acc512 f_scramble
            in (buf, acc, soFar, loadSize))
      else (st_buffer state, st_acc state, st_nbStripesSoFar state, 0))"

definition XXH3_update_direct ::
  "f_accumulate \<Rightarrow> f_scrambleAcc \<Rightarrow> bytes \<Rightarrow> nat \<Rightarrow> nat \<Rightarrow> bytes \<Rightarrow> nat \<Rightarrow>
     bytes \<times> accs \<times> nat \<times> nat \<Rightarrow> bytes \<times> accs \<times> nat \<times> nat" where
  "XXH3_update_direct f_acc512 f_scramble secret limit PB input len = (\<lambda>(buf, acc, soFar, off).
     if PB * XXH_STRIPE_LEN < len - off
     then
       (let nbStripes = (len - off - 1) div XXH_STRIPE_LEN;
            toEnd = PB - soFar;
            acc = XXH3_accumulate acc (drop off input)
                    (drop (soFar * XXH_SECRET_CONSUME_RATE) secret) toEnd f_acc512;
            acc = f_scramble acc (drop limit secret);
            off = off + toEnd * XXH_STRIPE_LEN;
            nbStripes = nbStripes - toEnd;
            (acc, off, nbStripes) =
              XXH3_block_loop f_acc512 f_scramble secret limit PB input acc off nbStripes;
            acc = XXH3_accumulate acc (drop off input) secret nbStripes f_acc512;
            off = off + nbStripes * XXH_STRIPE_LEN
        in (save_last_stripe input off buf, acc, nbStripes, off))
     else if XXH3_INTERNALBUFFER_SIZE < len - off
     then
       (let (acc, soFar, off) =
          XXH3_buffer_loop f_acc512 f_scramble secret limit PB input len acc soFar off
        in (save_last_stripe input off buf, acc, soFar, off))
     else (buf, acc, soFar, off))"

definition XXH3_update ::
  "XXH3_state \<Rightarrow> bytes option \<Rightarrow> nat \<Rightarrow> f_accumulate \<Rightarrow> f_scrambleAcc \<Rightarrow> XXH_errorcode \<times> XXH3_state" where
  "XXH3_update state input' len f_acc512 f_scramble =
     (case input' of
        None \<Rightarrow> (XXH_OK, state)
      | Some input \<Rightarrow>
          (let secret = st_secret state;
               state = state\<lparr>st_totalLen := st_totalLen state + of_nat len\<rparr>;
               bsize = unat (st_bufferedSize state)
           in if bsize + len \<le> XXH3_INTERNALBUFFER_SIZE
              then (XXH_OK, state\<lparr>st_buffer := memcpy_at bsize (take len input) (st_buffer state),
                                  st_bufferedSize := st_bufferedSize state + of_nat len\<rparr>)
              else
                (let (buf, acc, soFar, off) =
                   XXH3_update_direct f_acc512 f_scramble secret (st_secretLimit state)
                     (st_nbStripesPerBlock state) input len
                     (XXH3_update_fill f_acc512 f_scramble secret state input)
                 in (XXH_OK,
                     state\<lparr>st_buffer := memcpy_at 0 (take (len - off) (drop off input)) buf,
                           st_bufferedSize := of_nat (len - off), st_acc := acc,
                           st_nbStripesSoFar := soFar\<rparr>))))"

definition XXH3_64bits_update ::
  "xxh3_kernel \<Rightarrow> XXH3_state \<Rightarrow> bytes option \<Rightarrow> nat \<Rightarrow> XXH_errorcode \<times> XXH3_state" where
  "XXH3_64bits_update K state input len =
     XXH3_update state input len (k_accumulate K) (k_scramble K)"

section \<open>Digest\<close>

definition XXH3_digest_long :: "xxh3_kernel \<Rightarrow> XXH3_state \<Rightarrow> bytes \<Rightarrow> accs" where
  "XXH3_digest_long K state secret =
     (let acc = st_acc state; bsize = unat (st_bufferedSize state);
          last_secret = drop (st_secretLimit state - XXH_SECRET_LASTACC_START) secret
      in if XXH_STRIPE_LEN \<le> bsize
         then
           (let nbStripes = (bsize - 1) div XXH_STRIPE_LEN;
                (acc, soFar) = XXH3_consumeStripes acc (st_nbStripesSoFar state)
                  (st_nbStripesPerBlock state) (st_buffer state) nbStripes secret
                  (st_secretLimit state) (k_accumulate K) (k_scramble K)
            in k_accumulate K acc (drop (bsize - XXH_STRIPE_LEN) (st_buffer state)) last_secret)
         else
           (let catchupSize = XXH_STRIPE_LEN - bsize;
                lastStripe = take catchupSize (drop (256 - catchupSize) (st_buffer state)) @
                  take bsize (st_buffer state)
            in k_accumulate K acc lastStripe last_secret))"

definition XXH3_64bits_digest :: "xxh3_kernel \<Rightarrow> XXH3_state \<Rightarrow> 64 word" where
  "XXH3_64bits_digest K state =
     (let secret = st_secret state in
      if 240 < st_totalLen state
      then XXH3_mergeAccs (XXH3_digest_long K state secret) (drop XXH_SECRET_MERGEACCS_START secret)
             (st_totalLen state * XXH_PRIME64_1)
      else if st_useSeed state \<noteq> 0
      then XXH3_64bits_withSeed K (st_buffer state) (unat (st_totalLen state)) (st_seed state)
      else XXH3_64bits_withSecret K (st_buffer state) (unat (st_totalLen state)) secret
             (st_secretLimit state + XXH_STRIPE_LEN))"

section \<open>Consuming a sequence of stripes\<close>

text \<open>
  \<open>stripe_step\<close> is what stripe number \<open>j\<close> of the input does to the accumulators: it meets
  the secret at a position that depends on its place in the block, and the last stripe of a
  block is followed by a scramble.
\<close>

definition stripe_step ::
  "f_accumulate \<Rightarrow> f_scrambleAcc \<Rightarrow> bytes \<Rightarrow> nat \<Rightarrow> nat \<Rightarrow> nat \<Rightarrow> accs \<Rightarrow> bytes \<Rightarrow> accs" where
  "stripe_step f_acc512 f_scramble secret limit PB j acc p =
     (let acc = f_acc512 acc p (drop (8 * (j mod PB)) secret)
      in if Suc (j mod PB) = PB then f_scramble acc (drop limit secret) else acc)"

fun consume ::
  "f_accumulate \<Rightarrow> f_scrambleAcc \<Rightarrow> bytes \<Rightarrow> nat \<Rightarrow> nat \<Rightarrow> nat \<Rightarrow> nat \<Rightarrow> accs \<Rightarrow> bytes \<Rightarrow> accs" where
  "consume fa fs secret limit PB j 0 acc p = acc"
| "consume fa fs secret limit PB j (Suc n) acc p =
     consume fa fs secret limit PB (Suc j) n (stripe_step fa fs secret limit PB j acc p) (drop 64 p)"

lemma consume_add:
  "consume fa fs secret limit PB j (m + n) acc p =
   consume fa fs secret limit PB (j + m) n (consume fa fs secret limit PB j m acc p) (drop (64 * m) p)"
proof (induction m arbitrary: j acc p)
  case (Suc m)
  have "drop (64 * m) (drop 64 p) = drop (64 * Suc m) p" by (simp add: add.commute)
  with Suc [of "Suc j"] show ?case by (simp del: drop_drop mult_Suc_right)
qed simp

lemma consume_mod:
  "j mod PB = j' mod PB \<Longrightarrow>
   consume fa fs secret limit PB j n acc p = consume fa fs secret limit PB j' n acc p"
proof (induction n arbitrary: j j' acc p)
  case (Suc n)
  then have s: "Suc j mod PB = Suc j' mod PB" by (metis mod_Suc_eq)
  have "stripe_step fa fs secret limit PB j acc p = stripe_step fa fs secret limit PB j' acc p"
    by (simp add: stripe_step_def Suc.prems)
  then show ?case using Suc.IH [OF s] by simp
qed simp

lemma accumulate_Suc:
  "XXH3_accumulate acc p secret (Suc n) fa = XXH3_accumulate (fa acc p secret) (drop 64 p) (drop 8 secret) n fa"
proof -
  have "[0..<Suc n] = 0 # map Suc [0..<n]" by (simp add: upt_conv_Cons map_Suc_upt)
  then show ?thesis by (simp add: XXH3_accumulate_def foldl_map add.commute del: upt_Suc)
qed

lemma accumulate_0 [simp]: "XXH3_accumulate acc p secret 0 fa = acc"
  by (simp add: XXH3_accumulate_def)

text \<open>Accumulating inside a block, and up to its end.\<close>

lemma accumulate_inside:
  "s + n < PB \<Longrightarrow>
   XXH3_accumulate acc p (drop (8 * s) secret) n fa = consume fa fs secret limit PB s n acc p"
proof (induction n arbitrary: s acc p)
  case (Suc n)
  from Suc.IH [of "Suc s"] Suc.prems show ?case
    by (simp add: accumulate_Suc stripe_step_def add.commute)
qed simp

lemma accumulate_to_end:
  assumes "s < PB"
  shows "fs (XXH3_accumulate acc p (drop (8 * s) secret) (PB - s) fa) (drop limit secret) =
    consume fa fs secret limit PB s (PB - s) acc p"
proof -
  obtain n where n: "PB - s = Suc n" "s + n < PB" using assms
    by (metis Suc_diff_Suc less_add_Suc2 less_diff_conv add.commute lessI)
  have "XXH3_accumulate acc p (drop (8 * s) secret) (n + 1) fa =
    fa (XXH3_accumulate acc p (drop (8 * s) secret) n fa) (drop (64 * n) p) (drop (8 * (s + n)) secret)"
    by (simp add: XXH3_accumulate_def algebra_simps)
  moreover have "consume fa fs secret limit PB s (n + 1) acc p =
    stripe_step fa fs secret limit PB (s + n) (consume fa fs secret limit PB s n acc p) (drop (64 * n) p)"
    using consume_add [of fa fs secret limit PB s n 1 acc p] by simp
  moreover have "Suc (s + n) = PB" "PB - s = n + 1" using n assms by linarith+
  ultimately show ?thesis
    using accumulate_inside [OF n(2), of acc p secret fa fs limit] n(2)
    by (simp add: stripe_step_def)
qed

lemma consumeStripes_consume:
  assumes "s < PB" "n \<le> PB"
  shows "XXH3_consumeStripes acc s PB p n secret limit fa fs =
    (consume fa fs secret limit PB s n acc p, (s + n) mod PB)"
proof (cases "PB - s \<le> n")
  case True
  define m where "m = n - (PB - s)"
  have n: "n = (PB - s) + m" "m < PB" "s + (PB - s) = PB" using True assms by (simp_all add: m_def)
  have "XXH3_consumeStripes acc s PB p n secret limit fa fs =
    (XXH3_accumulate (consume fa fs secret limit PB s (PB - s) acc p) (drop (64 * (PB - s)) p) secret m fa, m)"
    using True accumulate_to_end [OF assms(1), of fs acc p secret fa limit]
    by (simp add: XXH3_consumeStripes_def m_def Let_def mult.commute)
  also have "XXH3_accumulate (consume fa fs secret limit PB s (PB - s) acc p) (drop (64 * (PB - s)) p) secret m fa =
    consume fa fs secret limit PB 0 m (consume fa fs secret limit PB s (PB - s) acc p) (drop (64 * (PB - s)) p)"
    using accumulate_inside [of 0 m PB _ _ secret fa fs limit] n(2) by simp
  also have "\<dots> = consume fa fs secret limit PB (s + (PB - s)) m
      (consume fa fs secret limit PB s (PB - s) acc p) (drop (64 * (PB - s)) p)"
    by (rule consume_mod) (simp add: n(3))
  also have "\<dots> = consume fa fs secret limit PB s n acc p"
    by (subst n(1)) (rule consume_add [symmetric])
  also have "m = (s + n) mod PB"
  proof -
    have "s + n = PB + m" using n by simp
    then show ?thesis using n(2) by simp
  qed
  finally show ?thesis .
next
  case False
  then have "s + n < PB" by simp
  with accumulate_inside [OF this, of acc p secret fa fs limit] False show ?thesis
    by (simp add: XXH3_consumeStripes_def mult.commute)
qed

lemma block_loop_consume:
  assumes "0 < PB"
  shows "(case XXH3_block_loop fa fs secret limit PB input acc off n of
      (a, o', m) \<Rightarrow> (XXH3_accumulate a (drop o' input) secret m fa, m, o' + m * 64)) =
    (consume fa fs secret limit PB 0 n acc (drop off input), n mod PB, off + 64 * n)"
proof (induction n arbitrary: acc off rule: less_induct)
  case (less n)
  show ?case
  proof (cases "PB \<le> n")
    case True
    define m where "m = n - PB"
    have n: "n = PB + m" "m < n" using True assms by (simp_all add: m_def)
    let ?acc = "consume fa fs secret limit PB 0 PB acc (drop off input)"
    have "fs (XXH3_accumulate acc (drop off input) secret PB fa) (drop limit secret) = ?acc"
      using accumulate_to_end [of 0 PB fs acc "drop off input" secret fa limit] assms by simp
    then have step: "XXH3_block_loop fa fs secret limit PB input acc off n =
        XXH3_block_loop fa fs secret limit PB input ?acc (off + PB * 64) m"
      using True assms by (subst XXH3_block_loop.simps) (simp add: m_def)
    have rest: "drop (64 * PB) (drop off input) = drop (off + PB * 64) input"
      by (simp add: add.commute mult.commute)
    have "consume fa fs secret limit PB 0 n acc (drop off input) =
        consume fa fs secret limit PB (0 + PB) m ?acc (drop (off + PB * 64) input)"
      unfolding n(1) consume_add rest ..
    also have "\<dots> = consume fa fs secret limit PB 0 m ?acc (drop (off + PB * 64) input)"
      by (rule consume_mod) simp
    finally have c: "consume fa fs secret limit PB 0 n acc (drop off input) =
        consume fa fs secret limit PB 0 m ?acc (drop (off + PB * 64) input)" .
    have "n mod PB = m mod PB" "off + 64 * n = off + PB * 64 + 64 * m" using n(1) by simp_all
    with less.IH [OF n(2), of ?acc "off + PB * 64"] show ?thesis unfolding step c by simp
  next
    case False
    then show ?thesis
      using accumulate_inside [of 0 n PB acc "drop off input" secret fa fs limit]
      by (simp add: XXH3_block_loop.simps)
  qed
qed

lemma buffer_loop_consume:
  assumes "s < PB" "4 \<le> PB" "off + 256 < len"
  shows "\<exists>c>0. XXH3_buffer_loop fa fs secret limit PB input len acc s off =
      (consume fa fs secret limit PB s (4 * c) acc (drop off input), (s + 4 * c) mod PB, off + 256 * c) \<and>
    off + 256 * c < len \<and> len \<le> off + 256 * c + 256"
  using assms
proof (induction "len - off" arbitrary: acc s off rule: less_induct)
  case less
  let ?c = "consume fa fs secret limit PB"
  note cs = consumeStripes_consume [of s PB 4 acc "drop off input" secret limit fa fs]
  show ?case
  proof (cases "off + 512 < len")
    case True
    have "(s + 4) mod PB < PB" using less.prems by simp
    moreover have "len - (off + 256) < len - off" "off + 256 + 256 < len" using True by simp_all
    ultimately obtain c where c: "XXH3_buffer_loop fa fs secret limit PB input len
        (?c s 4 acc (drop off input)) ((s + 4) mod PB) (off + 256) =
      (?c ((s + 4) mod PB) (4 * c) (?c s 4 acc (drop off input)) (drop (off + 256) input),
       ((s + 4) mod PB + 4 * c) mod PB, off + 256 + 256 * c)"
      "off + 256 + 256 * c < len" "len \<le> off + 256 + 256 * c + 256"
      using less.hyps [of "off + 256" "(s + 4) mod PB" "?c s 4 acc (drop off input)"] less.prems(2)
      by blast
    have "?c ((s + 4) mod PB) (4 * c) (?c s 4 acc (drop off input)) (drop (off + 256) input) =
        ?c s (4 + 4 * c) acc (drop off input)"
      unfolding consume_add
      using consume_mod [of "(s + 4) mod PB" PB "s + 4"] by (simp add: add.commute)
    then have "XXH3_buffer_loop fa fs secret limit PB input len acc s off =
      (?c s (4 * Suc c) acc (drop off input), (s + 4 * Suc c) mod PB, off + 256 * Suc c)"
      using cs less.prems True c(1)
      by (subst XXH3_buffer_loop.simps) (simp add: Let_def mod_simps algebra_simps)
    then show ?thesis using c(2,3) by (intro exI [of _ "Suc c"]) simp
  next
    case False
    then show ?thesis using cs less.prems
      by (intro exI [of _ 1]) (simp add: XXH3_buffer_loop.simps [of _ _ _ _ _ _ _ _ _ off])
  qed
qed

section \<open>What a state stands for\<close>

text \<open>
  Of the bytes \<open>data\<close> a state has been fed, \<open>k\<close> stripes are consumed and the rest is in
  the buffer.  Once something is consumed the buffer is not empty, and when it holds less than a
  stripe, the last consumed stripe is at its end.
\<close>

definition buffered :: "XXH3_state \<Rightarrow> nat \<Rightarrow> bytes \<Rightarrow> bool" where
  "buffered s k data \<longleftrightarrow>
     64 * k \<le> length data \<and> length data - 64 * k \<le> 256 \<and> length (st_buffer s) = 256 \<and>
     st_bufferedSize s = of_nat (length data - 64 * k) \<and>
     take (length data - 64 * k) (st_buffer s) = drop (64 * k) data \<and>
     (0 < k \<longrightarrow> 64 * k < length data \<and> 256 < length data \<and>
       (length data - 64 * k < 64 \<longrightarrow> drop 192 (st_buffer s) = take 64 (drop (64 * k - 64) data)))"

definition configured :: "XXH3_state \<Rightarrow> bytes \<Rightarrow> nat \<Rightarrow> 64 word \<Rightarrow> bool \<Rightarrow> bool" where
  "configured s secret secretSize seed useSeed \<longleftrightarrow>
     st_secret s = secret \<and> st_secretLimit s = secretSize - 64 \<and>
     st_nbStripesPerBlock s = (secretSize - 64) div 8 \<and> st_seed s = seed \<and>
     (st_useSeed s \<noteq> 0 \<longleftrightarrow> useSeed)"

definition XXH3_fed ::
  "f_accumulate \<Rightarrow> f_scrambleAcc \<Rightarrow> bytes \<Rightarrow> nat \<Rightarrow> 64 word \<Rightarrow> bool \<Rightarrow> XXH3_state \<Rightarrow> bytes \<Rightarrow> bool" where
  "XXH3_fed fa fs secret secretSize seed useSeed s data \<longleftrightarrow>
     configured s secret secretSize seed useSeed \<and> st_totalLen s = of_nat (length data) \<and>
     (\<exists>k. buffered s k data \<and>
        st_acc s = consume fa fs secret (secretSize - 64) ((secretSize - 64) div 8) 0 k XXH3_INIT_ACC data \<and>
        st_nbStripesSoFar s = k mod ((secretSize - 64) div 8))"

lemma configured_simps [simp]:
  "configured (s\<lparr>st_totalLen := a\<rparr>) = configured s"
  "configured (s\<lparr>st_buffer := b\<rparr>) = configured s"
  "configured (s\<lparr>st_bufferedSize := c\<rparr>) = configured s"
  "configured (s\<lparr>st_acc := d\<rparr>) = configured s"
  "configured (s\<lparr>st_nbStripesSoFar := e\<rparr>) = configured s"
  by (simp_all add: fun_eq_iff configured_def st_secret_def split: option.splits)

lemma buffered_size:
  assumes "buffered s k data"
  shows "unat (st_bufferedSize s) = length data - 64 * k"
    and "st_bufferedSize s \<noteq> 0 \<longleftrightarrow> length data \<noteq> 64 * k"
proof -
  have "length data - 64 * k < 4294967296" "64 * k \<le> length data"
    "st_bufferedSize s = of_nat (length data - 64 * k)"
    using assms by (auto simp: buffered_def)
  then show u: "unat (st_bufferedSize s) = length data - 64 * k"
    by (simp only: unat_of_nat_32)
  show "st_bufferedSize s \<noteq> 0 \<longleftrightarrow> length data \<noteq> 64 * k"
    using u \<open>64 * k \<le> length data\<close> unat_eq_zero [of "st_bufferedSize s"] by linarith
qed

lemma buffered_append_small:
  assumes "buffered s k data" "length data - 64 * k + length x \<le> 256"
    and "t = s\<lparr>st_totalLen := tlen, st_buffer := memcpy_at (length data - 64 * k) x (st_buffer s),
               st_bufferedSize := st_bufferedSize s + of_nat (length x)\<rparr>"
  shows "buffered t k (data @ x)"
proof -
  define b where "b = length data - 64 * k"
  have b: "length (data @ x) - 64 * k = b + length x" "b + length x \<le> 256" "b \<le> 256"
    using assms(1,2) by (auto simp: buffered_def b_def)
  have tk: "take (b + length x) (memcpy_at b x (st_buffer s)) = drop (64 * k) data @ x"
    using assms(1) take_memcpy_at [of b "st_buffer s" x] b by (simp add: buffered_def b_def)
  have "drop 192 (memcpy_at b x (st_buffer s)) = drop 192 (st_buffer s)" if "b + length x < 64"
    using that assms(1) by (simp add: memcpy_at_def buffered_def)
  moreover have "take 64 (drop (64 * k - 64) (data @ x)) = take 64 (drop (64 * k - 64) data)" if "0 < k"
    using assms(1) that by (simp add: buffered_def)
  ultimately show ?thesis
    using assms(1,3) b tk unfolding buffered_def b(1) b_def [symmetric] by auto
qed

lemma buffered_rest:
  assumes "length buf = 256" "64 * k = length data + off" "off < length x" "length x - off \<le> 256"
    and "0 < k \<Longrightarrow> drop 192 buf = take 64 (drop (64 * k - 64) (data @ x))"
    and "0 < k" "256 < length (data @ x)"
    and "st_buffer t = memcpy_at 0 (drop off x) buf" "st_bufferedSize t = of_nat (length x - off)"
  shows "buffered t k (data @ x)"
proof -
  have l: "length (data @ x) - 64 * k = length x - off" "64 * k \<le> length (data @ x)"
    "64 * k < length (data @ x)"
    using assms(2,3) by simp_all
  have d: "drop (64 * k) (data @ x) = drop off x" using assms(2) by simp
  have "drop 192 (memcpy_at 0 (drop off x) buf) = drop 192 buf" if "length x - off < 64"
    using that assms(1) by (simp add: memcpy_at_def)
  moreover have "take (length x - off) (memcpy_at 0 (drop off x) buf) = drop off x"
    by (simp add: memcpy_at_def)
  ultimately show ?thesis using assms l d unfolding buffered_def by auto
qed

section \<open>Kernels that only read their stripe\<close>

locale stripe_kernel =
  fixes fa :: f_accumulate and fs :: f_scrambleAcc
  assumes fa_take: "64 \<le> length p \<Longrightarrow> fa acc (take 64 p) s = fa acc p s"
begin

lemma fa_append: "64 \<le> length p \<Longrightarrow> fa acc (p @ q) s = fa acc p s"
  using fa_take [of "p @ q"] fa_take [of p] by simp

lemma consume_append:
  "64 * n \<le> length p \<Longrightarrow>
   consume fa fs secret limit PB j n acc (p @ q) = consume fa fs secret limit PB j n acc p"
  by (induction n arbitrary: j acc p) (simp_all add: stripe_step_def fa_append)

lemma consume_take:
  "64 * n \<le> m \<Longrightarrow> m \<le> length p \<Longrightarrow>
   consume fa fs secret limit PB j n acc (take m p) = consume fa fs secret limit PB j n acc p"
  using consume_append [of n "take m p" secret limit PB j acc "drop m p"] by simp

end

section \<open>Update and digest, for any such kernel\<close>

lemma save_last_stripe_props:
  assumes "length buf = 256" "64 \<le> off" "off \<le> length x"
  shows "length (save_last_stripe x off buf) = 256"
    and "drop 192 (save_last_stripe x off buf) = take 64 (drop (off - 64) x)"
  using assms by (simp_all add: save_last_stripe_def memcpy_at_def)

lemma drop_stripe_append:
  assumes "64 * k = length data + off" "64 \<le> off"
  shows "drop (64 * k - 64) (data @ x) = drop (off - 64) x"
proof -
  have "64 * k - 64 - length data = off - 64" "length data \<le> 64 * k - 64" using assms by linarith+
  then show ?thesis by simp
qed

context stripe_kernel
begin

text \<open>Completing and consuming the buffer.\<close>

lemma fill_fed:
  assumes b: "buffered s k data" and s: "st_secretLimit s = limit" "st_nbStripesPerBlock s = PB"
    and acc: "st_acc s = consume fa fs secret limit PB 0 k init data"
    and so: "st_nbStripesSoFar s = k mod PB" and PB: "4 \<le> PB"
    and len: "256 < length data - 64 * k + length x"
  obtains buf k' off where
    "XXH3_update_fill fa fs secret s x =
       (buf, consume fa fs secret limit PB 0 k' init (data @ x), k' mod PB, off)"
    "length buf = 256" "64 * k' = length data + off" "off < length x"
    "0 < k' \<Longrightarrow> drop 192 buf = take 64 (drop (64 * k' - 64) (data @ x))"
    "k' = 0 \<Longrightarrow> data = [] \<and> off = 0"
proof (cases "length data = 64 * k")
  case True
  with b have k: "k = 0" "data = []" by (auto simp: buffered_def)
  with b have "st_bufferedSize s = 0" "length (st_buffer s) = 256" by (auto simp: buffered_def)
  with k acc so len show thesis
    by (intro that [of "st_buffer s" 0 0]) (auto simp: XXH3_update_fill_def)
next
  case False
  define m where "m = length data - 64 * k"
  have m: "0 < m" "m \<le> 256" "unat (st_bufferedSize s) = m" "st_bufferedSize s \<noteq> 0"
    using b False buffered_size [OF b] by (auto simp: buffered_def m_def)
  define buf where "buf = memcpy_at m (take (256 - m) x) (st_buffer s)"
  have lenbuf: "length (st_buffer s) = 256" "take m (st_buffer s) = drop (64 * k) data"
    "64 * k \<le> length data"
    using b by (simp_all add: buffered_def m_def)
  have lx: "256 - m < length x" using len m by (simp add: m_def)
  have buf: "buf = take 256 (drop (64 * k) (data @ x))"
    using lenbuf lx m by (simp add: buf_def memcpy_at_def m_def)
  have lbuf: "length buf = 256" using lx lenbuf m by (simp add: buf m_def)
  have "XXH3_update_fill fa fs secret s x =
      (buf, consume fa fs secret limit PB (k mod PB) 4 (st_acc s) buf, (k mod PB + 4) mod PB, 256 - m)"
    using m s so PB by (simp add: XXH3_update_fill_def consumeStripes_consume buf_def Let_def)
  also have "consume fa fs secret limit PB (k mod PB) 4 (st_acc s) buf =
      consume fa fs secret limit PB (0 + k) 4 (st_acc s) (drop (64 * k) (data @ x))"
    using consume_mod [of "k mod PB" PB k] lbuf lx m lenbuf
    by (simp add: buf consume_take m_def del: drop_append)
  also have "st_acc s = consume fa fs secret limit PB 0 k init (data @ x)"
    using acc consume_append lenbuf by simp
  finally have f: "XXH3_update_fill fa fs secret s x =
      (buf, consume fa fs secret limit PB 0 (k + 4) init (data @ x), (k + 4) mod PB, 256 - m)"
    by (simp add: consume_add mod_simps)
  have lst: "drop 192 buf = take 64 (drop (64 * (k + 4) - 64) (data @ x))"
    by (simp add: buf drop_take add.commute del: drop_append)
  have pos: "64 * (k + 4) = length data + (256 - m)" using lenbuf m by (simp add: m_def)
  show thesis by (rule that [OF f lbuf pos lx]) (use lst in blast, simp)
qed

end

context stripe_kernel
begin

text \<open>Consuming the input directly leaves at least one byte, and at most 256.\<close>

lemma direct_consume:
  assumes off: "off < length x" and buf: "length buf = 256" and PB: "4 \<le> PB" and so: "so < PB"
  obtains n buf' where
    "XXH3_update_direct fa fs secret limit PB x (length x) (buf, acc, so, off) =
       (buf', consume fa fs secret limit PB so n acc (drop off x), (so + n) mod PB, off + 64 * n)"
    "off + 64 * n < length x" "length x - (off + 64 * n) \<le> 256" "length buf' = 256"
    "0 < n \<Longrightarrow> drop 192 buf' = take 64 (drop (off + 64 * n - 64) x)" "n = 0 \<Longrightarrow> buf' = buf"
    "256 < length x - off \<Longrightarrow> 0 < n"
proof -
  have PB0: "0 < PB" using PB by simp
  consider "PB * 64 < length x - off" | "length x - off \<le> PB * 64" "256 < length x - off"
    | "length x - off \<le> PB * 64" "length x - off \<le> 256" by linarith
  then show thesis
  proof cases
    case 1
    define n where "n = (length x - off - 1) div 64"
    define e where "e = PB - so"
    have n: "PB \<le> n" "64 * n < length x - off" "length x - off \<le> 64 * n + 64"
      using 1 unfolding n_def by linarith+
    have e: "e \<le> n" "so + e = PB" using so n by (simp_all add: e_def)
    let ?acc = "consume fa fs secret limit PB so e acc (drop off x)"
    obtain a o' m where bl: "XXH3_block_loop fa fs secret limit PB x ?acc (off + e * 64) (n - e) = (a, o', m)"
      by (metis prod_cases3)
    from block_loop_consume [OF PB0, where fa = fa and fs = fs and secret = secret and
        limit = limit and input = x and acc = ?acc and off = "off + e * 64" and n = "n - e", unfolded bl prod.case prod.inject]
    have a: "XXH3_accumulate a (drop o' x) secret m fa =
        consume fa fs secret limit PB 0 (n - e) ?acc (drop (off + e * 64) x)"
      and m: "m = (n - e) mod PB" and o'': "o' + m * 64 = off + e * 64 + 64 * (n - e)"
      by (blast, blast, blast)
    from o'' e(1) have o': "o' + m * 64 = off + 64 * n" by linarith
    have "consume fa fs secret limit PB 0 (n - e) ?acc (drop (off + e * 64) x) =
        consume fa fs secret limit PB (so + e) (n - e) ?acc (drop (64 * e) (drop off x))"
      using consume_mod [of 0 PB "so + e"] e(2) by (simp add: add.commute mult.commute)
    also have "\<dots> = consume fa fs secret limit PB so (e + (n - e)) acc (drop off x)"
      by (rule consume_add [symmetric])
    finally have a': "XXH3_accumulate a (drop o' x) secret m fa =
        consume fa fs secret limit PB so n acc (drop off x)"
      using a e(1) by simp
    have m': "m = (so + n) mod PB"
    proof -
      have "so + n = PB + (n - e)" using e by simp
      then show ?thesis using m by simp
    qed
    have "XXH3_update_direct fa fs secret limit PB x (length x) (buf, acc, so, off) =
        (save_last_stripe x (off + 64 * n) buf,
         consume fa fs secret limit PB so n acc (drop off x), (so + n) mod PB, off + 64 * n)"
      using 1 bl accumulate_to_end [OF so, of fs acc "drop off x" secret fa limit] a' m' o'
      by (simp add: XXH3_update_direct_def n_def e_def mult.commute Let_def)
    moreover have "64 \<le> off + 64 * n" "off + 64 * n \<le> length x" using n PB by linarith+
    ultimately show thesis
      using that save_last_stripe_props [OF buf, of "off + 64 * n" x] n PB by simp
  next
    case 2
    then have "off + 256 < length x" by linarith
    from buffer_loop_consume [OF so PB this, of fa fs secret limit x acc]
    obtain c where c: "0 < c" "XXH3_buffer_loop fa fs secret limit PB x (length x) acc so off =
        (consume fa fs secret limit PB so (4 * c) acc (drop off x), (so + 4 * c) mod PB, off + 256 * c)"
      "off + 256 * c < length x" "length x \<le> off + 256 * c + 256"
      by blast
    have "XXH3_update_direct fa fs secret limit PB x (length x) (buf, acc, so, off) =
        (save_last_stripe x (off + 64 * (4 * c)) buf,
         consume fa fs secret limit PB so (4 * c) acc (drop off x), (so + 4 * c) mod PB, off + 64 * (4 * c))"
      using 2 c(2) by (simp add: XXH3_update_direct_def)
    moreover have "64 \<le> off + 64 * (4 * c)" "off + 64 * (4 * c) \<le> length x" using c by linarith+
    ultimately show thesis
      using that save_last_stripe_props [OF buf, of "off + 64 * (4 * c)" x] c by simp
  next
    case 3
    then show thesis
      using that [of buf 0] off buf so by (simp add: XXH3_update_direct_def)
  qed
qed

lemma update_fed:
  assumes fed: "XXH3_fed fa fs secret secretSize seed useSeed s data" and size: "136 \<le> secretSize"
  shows "XXH3_fed fa fs secret secretSize seed useSeed
    (snd (XXH3_update s (Some x) (length x) fa fs)) (data @ x)"
proof -
  define limit where "limit = secretSize - 64"
  define PB where "PB = limit div 8"
  note limit_def [simp]
  from size have PB: "4 \<le> PB" by (simp add: PB_def)
  note limit_def [simp del] limit_def [symmetric, simp] PB_def [symmetric, simp]
  from fed obtain k where conf: "configured s secret secretSize seed useSeed"
    and tot: "st_totalLen s = of_nat (length data)" and b: "buffered s k data"
    and acc: "st_acc s = consume fa fs secret limit PB 0 k XXH3_INIT_ACC data"
    and so: "st_nbStripesSoFar s = k mod PB"
    by (auto simp: XXH3_fed_def)
  have c: "st_secret s = secret" "st_secretLimit s = limit" "st_nbStripesPerBlock s = PB"
    using conf by (simp_all add: configured_def)
  note u = buffered_size(1) [OF b]
  show ?thesis
  proof (cases "length data - 64 * k + length x \<le> 256")
    case True
    let ?t = "s\<lparr>st_totalLen := st_totalLen s + of_nat (length x),
      st_buffer := memcpy_at (length data - 64 * k) x (st_buffer s),
      st_bufferedSize := st_bufferedSize s + of_nat (length x)\<rparr>"
    have "snd (XXH3_update s (Some x) (length x) fa fs) = ?t"
      using True u by (simp add: XXH3_update_def Let_def)
    moreover have "buffered ?t k (data @ x)" by (rule buffered_append_small [OF b True refl])
    moreover have "st_acc s = consume fa fs secret limit PB 0 k XXH3_INIT_ACC (data @ x)"
      using acc b by (simp add: consume_append buffered_def)
    ultimately show ?thesis
      using conf tot so unfolding XXH3_fed_def by auto
  next
    case False
    define t where "t = s\<lparr>st_totalLen := st_totalLen s + of_nat (length x)\<rparr>"
    have bt: "buffered t k data" using b by (simp add: buffered_def t_def)
    obtain buf k' off where f: "XXH3_update_fill fa fs secret t x =
        (buf, consume fa fs secret limit PB 0 k' XXH3_INIT_ACC (data @ x), k' mod PB, off)"
      and lb: "length buf = 256" and k': "64 * k' = length data + off" and off: "off < length x"
      and lst: "0 < k' \<Longrightarrow> drop 192 buf = take 64 (drop (64 * k' - 64) (data @ x))"
      and z: "k' = 0 \<Longrightarrow> data = [] \<and> off = 0"
      using fill_fed [OF bt, of limit PB secret XXH3_INIT_ACC x] c acc so PB False
      by (auto simp: t_def)
    define n_acc where "n_acc = consume fa fs secret limit PB 0 k' XXH3_INIT_ACC (data @ x)"
    have so': "k' mod PB < PB" using PB by simp
    from direct_consume [OF off lb PB so', where secret = secret and limit = limit and acc = n_acc]
    obtain n buf' where d: "XXH3_update_direct fa fs secret limit PB x (length x) (buf, n_acc, k' mod PB, off) =
         (buf', consume fa fs secret limit PB (k' mod PB) n n_acc (drop off x), (k' mod PB + n) mod PB, off + 64 * n)"
      and n: "off + 64 * n < length x" "length x - (off + 64 * n) \<le> 256" "length buf' = 256"
      and n0: "0 < n \<Longrightarrow> drop 192 buf' = take 64 (drop (off + 64 * n - 64) x)" "n = 0 \<Longrightarrow> buf' = buf"
      and big: "256 < length x - off \<Longrightarrow> 0 < n"
      by metis
    have pos: "64 * (k' + n) = length data + (off + 64 * n)" using k' by simp
    have dr: "drop (64 * k') (data @ x) = drop off x" using k' by simp
    have "consume fa fs secret limit PB (k' mod PB) n n_acc (drop off x) =
        consume fa fs secret limit PB (0 + k') n n_acc (drop (64 * k') (data @ x))"
      unfolding dr using consume_mod [of "k' mod PB" PB k'] by simp
    also have "\<dots> = consume fa fs secret limit PB 0 (k' + n) XXH3_INIT_ACC (data @ x)"
      unfolding n_acc_def by (rule consume_add [symmetric])
    finally have a: "consume fa fs secret limit PB (k' mod PB) n n_acc (drop off x) =
        consume fa fs secret limit PB 0 (k' + n) XXH3_INIT_ACC (data @ x)" .
    define t' where "t' = t\<lparr>st_buffer := memcpy_at 0 (drop (off + 64 * n) x) buf',
      st_bufferedSize := of_nat (length x - (off + 64 * n)),
      st_acc := consume fa fs secret limit PB 0 (k' + n) XXH3_INIT_ACC (data @ x),
      st_nbStripesSoFar := (k' + n) mod PB\<rparr>"
    have upd: "snd (XXH3_update s (Some x) (length x) fa fs) = t'"
      using False u c f d a unfolding n_acc_def t_def t'_def
      by (simp add: XXH3_update_def Let_def st_secret_def mod_simps)
    have "0 < k' + n" using z big False by (cases "k' = 0") auto
    moreover have "drop 192 buf' = take 64 (drop (64 * (k' + n) - 64) (data @ x))"
    proof (cases "n = 0")
      case True
      then show ?thesis using n0(2) lst \<open>0 < k' + n\<close> by simp
    next
      case False
      then show ?thesis using n0(1) drop_stripe_append [OF pos, of x] by simp
    qed
    moreover have "256 < length (data @ x)" using False by simp
    ultimately have "buffered t' (k' + n) (data @ x)"
      using pos n by (intro buffered_rest [of buf' _ data "off + 64 * n"])
        (simp_all add: t'_def del: drop_append take_append)
    then show ?thesis
      unfolding upd XXH3_fed_def using conf tot
      by (auto simp: t'_def t_def)
  qed
qed

end

section \<open>Long inputs\<close>

text \<open>What the accumulators are after all of \<open>data\<close>: its stripes, then its last 64 bytes.\<close>

definition long_accs :: "f_accumulate \<Rightarrow> f_scrambleAcc \<Rightarrow> bytes \<Rightarrow> nat \<Rightarrow> accs \<Rightarrow> bytes \<Rightarrow> accs" where
  "long_accs fa fs secret secretSize acc data =
     fa (consume fa fs secret (secretSize - 64) ((secretSize - 64) div 8) 0
           ((length data - 1) div 64) acc data)
        (drop (length data - 64) data) (drop (secretSize - 71) secret)"

lemma blocks_consume:
  assumes "0 < PB"
  shows "foldl (\<lambda>acc n. fs (XXH3_accumulate acc (drop (n * (64 * PB)) p) secret PB fa) (drop limit secret))
      acc [0..<nb] = consume fa fs secret limit PB 0 (nb * PB) acc p"
proof (induction nb)
  case (Suc nb)
  let ?a = "consume fa fs secret limit PB 0 (nb * PB) acc p"
  have "fs (XXH3_accumulate ?a (drop (nb * (64 * PB)) p) secret PB fa) (drop limit secret) =
      consume fa fs secret limit PB 0 PB ?a (drop (nb * (64 * PB)) p)"
    using accumulate_to_end [of 0 PB fs ?a "drop (nb * (64 * PB)) p" secret fa limit] assms by simp
  also have "\<dots> = consume fa fs secret limit PB (0 + nb * PB) PB ?a (drop (64 * (nb * PB)) p)"
    using consume_mod [of 0 PB "0 + nb * PB"] by (simp add: mult_ac)
  also have "\<dots> = consume fa fs secret limit PB 0 (nb * PB + PB) acc p"
    by (rule consume_add [symmetric])
  finally show ?case using Suc by (simp add: add.commute)
qed simp

context stripe_kernel
begin

lemma internal_loop_eq:
  assumes "64 < length data" "136 \<le> secretSize"
  shows "XXH3_hashLong_internal_loop acc (data @ rest) (length data) secret secretSize fa fs =
    long_accs fa fs secret secretSize acc data"
proof -
  define limit PB where "limit = secretSize - 64" and "PB = limit div 8"
  have PB: "0 < PB" using assms(2) by (simp add: limit_def PB_def)
  define nb m where "nb = (length data - 1) div (64 * PB)"
    and "m = ((length data - 1) - 64 * PB * nb) div 64"
  have l: "(length data - 1) - 64 * PB * nb = (length data - 1) mod (64 * PB)"
    unfolding nb_def by (rule minus_mult_div_eq_mod)
  have mPB: "m < PB" using PB unfolding m_def l by (simp add: div_less_iff_less_mult mult.commute)
  have "nb * PB + m = (length data - 1) div 64"
  proof -
    have "64 * PB * nb \<le> length data - 1" by (simp add: nb_def mult.commute)
    then have "length data - 1 = 64 * (PB * nb) + ((length data - 1) - 64 * PB * nb)"
      by (simp add: mult.assoc)
    then have "(length data - 1) div 64 = PB * nb + m"
      unfolding m_def by (metis div_mult_self4 zero_neq_numeral)
    then show ?thesis by (simp add: mult.commute)
  qed
  moreover have "XXH3_accumulate a (drop (nb * (64 * PB)) (data @ rest)) secret m fa =
      consume fa fs secret limit PB (0 + nb * PB) m a (drop (64 * (nb * PB)) (data @ rest))" for a
    using accumulate_inside [of 0 m PB a "drop (64 * (nb * PB)) (data @ rest)" secret fa fs limit]
      consume_mod [of 0 PB "0 + nb * PB"] mPB by (simp add: mult_ac)
  ultimately have "XXH3_accumulate (foldl (\<lambda>acc n. fs (XXH3_accumulate acc
        (drop (n * (64 * PB)) (data @ rest)) secret PB fa) (drop limit secret)) acc [0..<nb])
      (drop (nb * (64 * PB)) (data @ rest)) secret m fa =
    consume fa fs secret limit PB 0 ((length data - 1) div 64) acc (data @ rest)"
    unfolding blocks_consume [OF PB] using consume_add by metis
  moreover have "consume fa fs secret limit PB 0 ((length data - 1) div 64) acc (data @ rest) =
      consume fa fs secret limit PB 0 ((length data - 1) div 64) acc data"
    by (rule consume_append) linarith
  moreover have "drop (length data - 64) (data @ rest) = drop (length data - 64) data @ rest"
    by simp
  moreover have "XXH3_hashLong_internal_loop acc (data @ rest) (length data) secret secretSize fa fs =
      fa (XXH3_accumulate (foldl (\<lambda>acc n. fs (XXH3_accumulate acc
            (drop (n * (64 * PB)) (data @ rest)) secret PB fa) (drop limit secret)) acc [0..<nb])
          (drop (nb * (64 * PB)) (data @ rest)) secret m fa)
        (drop (length data - 64) (data @ rest)) (drop (limit - 7) secret)"
    unfolding nb_def m_def limit_def PB_def
    by (simp only: XXH3_hashLong_internal_loop_def Let_def XXH_STRIPE_LEN_def
        XXH_SECRET_CONSUME_RATE_def XXH_SECRET_LASTACC_START_def)
  moreover have "limit - 7 = secretSize - 71" by (simp add: limit_def)
  ultimately show ?thesis
    using assms(1) by (simp add: long_accs_def fa_append limit_def PB_def)
qed

lemma digest_long_eq:
  assumes fed: "XXH3_fed fa fs secret secretSize seed useSeed s data"
    and len: "240 < length data" and size: "136 \<le> secretSize"
    and K: "k_accumulate K = fa" "k_scramble K = fs"
  shows "XXH3_digest_long K s secret = long_accs fa fs secret secretSize XXH3_INIT_ACC data"
proof -
  define limit where "limit = secretSize - 64"
  define PB where "PB = limit div 8"
  have PB: "4 \<le> PB" and lim: "secretSize - 71 = limit - 7"
    using size by (simp_all add: PB_def limit_def)
  note [simp] = limit_def [symmetric] PB_def [symmetric]
  from fed obtain k where b: "buffered s k data"
    and conf: "st_secretLimit s = limit" "st_nbStripesPerBlock s = PB"
    and acc: "st_acc s = consume fa fs secret limit PB 0 k XXH3_INIT_ACC data"
    and so: "st_nbStripesSoFar s = k mod PB"
    by (auto simp: XXH3_fed_def configured_def)
  define m where "m = length data - 64 * k"
  have m: "m \<le> 256" "take m (st_buffer s) = drop (64 * k) data" "64 * k + m = length data"
    "length (st_buffer s) = 256" "unat (st_bufferedSize s) = m"
    using b buffered_size [OF b] by (auto simp: buffered_def m_def)
  have m0: "0 < m" using b len by (cases "k = 0") (auto simp: buffered_def m_def)
  show ?thesis
  proof (cases "64 \<le> m")
    case True
    define n where "n = (m - 1) div 64"
    have n: "n \<le> PB" "64 * n \<le> m" "(length data - 1) div 64 = k + n"
    proof -
      have "length data - 1 = 64 * k + (m - 1)" using m m0 by linarith
      then show "(length data - 1) div 64 = k + n" by (simp add: n_def)
      show "n \<le> PB" "64 * n \<le> m" using m(1) PB unfolding n_def by linarith+
    qed
    have "consume fa fs secret limit PB (k mod PB) n (st_acc s) (st_buffer s) =
        consume fa fs secret limit PB (0 + k) n (st_acc s) (take m (st_buffer s))"
      using consume_mod [of "k mod PB" PB "0 + k"] n(2) m consume_take [of n m "st_buffer s"] by simp
    also have "\<dots> = consume fa fs secret limit PB 0 (k + n) XXH3_INIT_ACC data"
      unfolding acc m(2) by (rule consume_add [symmetric])
    finally have c: "consume fa fs secret limit PB (k mod PB) n (st_acc s) (st_buffer s) =
        consume fa fs secret limit PB 0 (k + n) XXH3_INIT_ACC data" .
    have "drop (m - 64) (take m (st_buffer s)) = drop (length data - 64) data"
    proof -
      have "m - 64 + 64 * k = length data - 64" using m(3) True by linarith
      then show ?thesis unfolding m(2) by simp
    qed
    moreover have "drop (m - 64) (take m (st_buffer s)) = take 64 (drop (m - 64) (st_buffer s))"
      using True by (simp add: drop_take)
    moreover have "take 64 (drop (length data - 64) data) = drop (length data - 64) data" by simp
    ultimately have "take 64 (drop (m - 64) (st_buffer s)) = take 64 (drop (length data - 64) data)"
      by simp
    then have l: "fa a (drop (m - 64) (st_buffer s)) t = fa a (drop (length data - 64) data) t" for a t
      using fa_take [of "drop (m - 64) (st_buffer s)" a t] fa_take [of "drop (length data - 64) data" a t]
        True m len by simp
    show ?thesis
      using True m K conf so n c l lim PB
      by (simp add: XXH3_digest_long_def long_accs_def n_def consumeStripes_consume)
  next
    case False
    then have k: "0 < k" using m len by (cases "k = 0") auto
    then have st: "drop 192 (st_buffer s) = take 64 (drop (64 * k - 64) data)"
      using b False by (simp add: buffered_def m_def)
    have "length data - 1 = 64 * k + (m - 1)" using m m0 by linarith
    then have n: "(length data - 1) div 64 = k" using False by simp
    have "take (64 - m) (drop (256 - (64 - m)) (st_buffer s)) = drop m (drop 192 (st_buffer s))"
      using m False by (simp add: add.commute)
    also have "\<dots> = take (64 - m) (drop (length data - 64) data)"
    proof -
      have "m + (64 * k - 64) = length data - 64" using m(3) k by linarith
      then show ?thesis unfolding st by (simp add: drop_take)
    qed
    finally have "take (64 - m) (drop (256 - (64 - m)) (st_buffer s)) @ take m (st_buffer s) =
        take (64 - m) (drop (length data - 64) data) @ drop (64 * k) data"
      using m(2) by simp
    also have "drop (64 * k) data = drop (64 - m) (drop (length data - 64) data)"
    proof -
      have "64 - m + (length data - 64) = 64 * k" using m(3) k False by linarith
      then show ?thesis by simp
    qed
    finally have l: "take (64 - m) (drop (256 - (64 - m)) (st_buffer s)) @ take m (st_buffer s) =
        drop (length data - 64) data"
      by (simp only: append_take_drop_id)
    show ?thesis
      using False m K conf acc n l lim by (simp add: XXH3_digest_long_def long_accs_def Let_def)
  qed
qed

end

section \<open>The one-shot hash a configuration stands for\<close>

definition XXH3_of :: "xxh3_kernel \<Rightarrow> bytes \<Rightarrow> nat \<Rightarrow> 64 word \<Rightarrow> bool \<Rightarrow> bytes \<Rightarrow> 64 word" where
  "XXH3_of K secret secretSize seed useSeed data =
     (if 240 < length data
      then XXH3_mergeAccs (long_accs (k_accumulate K) (k_scramble K) secret secretSize XXH3_INIT_ACC data)
             (drop XXH_SECRET_MERGEACCS_START secret) (of_nat (length data) * XXH_PRIME64_1)
      else if useSeed then XXH3_64bits_withSeed K data (length data) seed
      else XXH3_64bits_withSecret K data (length data) secret secretSize)"

locale configured_kernel = stripe_kernel fa fs for fa fs +
  fixes K :: xxh3_kernel and secret :: bytes and secretSize :: nat
    and seed :: "64 word" and useSeed :: bool
  assumes K: "k_accumulate K = fa" "k_scramble K = fs" and size: "136 \<le> secretSize"
begin

lemma K_update_fed:
  "XXH3_fed fa fs secret secretSize seed useSeed s data \<Longrightarrow>
   XXH3_fed fa fs secret secretSize seed useSeed
     (snd (XXH3_64bits_update K s (Some x) (length x))) (data @ x)"
  using update_fed size by (simp add: XXH3_64bits_update_def K)

lemma K_digest_fed:
  assumes fed: "XXH3_fed fa fs secret secretSize seed useSeed s data" and len: "length data < 2 ^ 64"
  shows "XXH3_64bits_digest K s = XXH3_of K secret secretSize seed useSeed data"
proof -
  from fed obtain k where b: "buffered s k data" and tot: "st_totalLen s = of_nat (length data)"
    and conf: "configured s secret secretSize seed useSeed"
    by (auto simp: XXH3_fed_def)
  have u: "unat (st_totalLen s) = length data" using tot len by simp
  then have big: "(240 < st_totalLen s) = (240 < length data)" by (simp add: word_less_nat_alt)
  have c: "st_secret s = secret" "st_secretLimit s + 64 = secretSize" "st_seed s = seed"
    "(st_useSeed s \<noteq> 0) = useSeed"
    using conf size by (auto simp: configured_def)
  show ?thesis
  proof (cases "240 < length data")
    case True
    then show ?thesis
      using digest_long_eq [OF fed True size K] big c tot K
      by (simp add: XXH3_64bits_digest_def XXH3_of_def)
  next
    case False
    then have "k = 0" using b by (auto simp: buffered_def)
    with b have "take (length data) (st_buffer s) = data" by (simp add: buffered_def)
    then obtain rest where buf: "st_buffer s = data @ rest" by (metis append_take_drop_id)
    have short: "length data \<le> 240" using False by simp
    have "XXH3_64bits_internal (data @ rest) (length data) sd sec n f =
        XXH3_64bits_internal data (length data) sd sec n f" for sd sec n f
      by (rule XXH3_64bits_internal_append [OF short])
    then show ?thesis
      using False big c u
      by (simp add: XXH3_64bits_digest_def XXH3_of_def Let_def buf XXH3_64bits_withSeed_def
          XXH3_64bits_withSecret_def)
  qed
qed

lemma one_shot_long:
  assumes "240 < length data"
  shows "XXH3_hashLong_64b_internal (data @ rest) (length data) secret secretSize fa fs =
    XXH3_of K secret secretSize seed useSeed data"
  using assms internal_loop_eq [OF _ size, of data] K
  by (simp add: XXH3_hashLong_64b_internal_def XXH3_of_def)

end

sublocale configured_kernel \<subseteq> stream: streaming_hash
  "XXH3_fed fa fs secret secretSize seed useSeed"
  "\<lambda>s x. snd (XXH3_64bits_update K s (Some x) (length x))"
  "XXH3_64bits_digest K" "XXH3_of K secret secretSize seed useSeed" "2 ^ 64"
  by unfold_locales (simp_all add: K_update_fed K_digest_fed)

text \<open>A state that was just reset has been fed nothing.\<close>

lemma reset_internal_fed:
  assumes "64 \<le> secretSize" "length (st_buffer s) = 256"
    and "secret = (case ext of None \<Rightarrow> st_customSecret s | Some e \<Rightarrow> e)"
  shows "XXH3_fed fa fs secret secretSize seed (seed \<noteq> 0) (XXH3_reset_internal s seed ext secretSize) []"
proof -
  have "buffered (XXH3_reset_internal s seed ext secretSize) 0 []"
    using assms(2) by (simp add: buffered_def XXH3_reset_internal_def Let_def)
  moreover have "size_sub secretSize 64 = secretSize - 64" using assms(1) by (simp add: size_sub_def)
  ultimately show ?thesis
    unfolding XXH3_fed_def using assms(3)
    by (auto simp: configured_def XXH3_reset_internal_def Let_def st_secret_def
        split: option.splits)
qed

lemma reset_internal_useSeed_fed:
  assumes "64 \<le> secretSize" "length (st_buffer s) = 256"
  shows "XXH3_fed fa fs secret secretSize seed True
    ((XXH3_reset_internal s seed (Some secret) secretSize)\<lparr>st_useSeed := 1\<rparr>) []"
proof -
  let ?t = "(XXH3_reset_internal s seed (Some secret) secretSize)\<lparr>st_useSeed := 1\<rparr>"
  have "buffered ?t 0 []"
    using assms(2) by (simp add: buffered_def XXH3_reset_internal_def Let_def)
  moreover have "size_sub secretSize 64 = secretSize - 64" using assms(1) by (simp add: size_sub_def)
  ultimately show ?thesis
    unfolding XXH3_fed_def by (auto simp: configured_def XXH3_reset_internal_def Let_def st_secret_def)
qed

end
