(* ===== verification/Xxh3_Simd.thy ===== *)
theory Xxh3_Simd
  imports Xxh3_Stream
begin

text \<open>
  The vector kernels of XXH3 (SSE2, which an x86-64 build of the program uses, AVX2, AVX-512 and
  NEON), and the proof that they compute what the scalar kernel computes.

  A vector register is the list of its 64-bit lanes: two for \<open>__m128i\<close> and \<open>uint64x2_t\<close>, four
  for \<open>__m256i\<close>, eight for \<open>__m512i\<close>.  The intrinsics are modelled as the vendors document them.
\<close>

section \<open>Intrinsics\<close>

type_synonym vec = "64 word list"

definition mm_loadu :: "nat \<Rightarrow> bytes \<Rightarrow> vec" where
  "mm_loadu lanes p = map (\<lambda>i. XXH_readLE64 (drop (8 * i) p)) [0..<lanes]"

definition mm_xor :: "vec \<Rightarrow> vec \<Rightarrow> vec" where "mm_xor a b = map2 (XOR) a b"

definition mm_add_epi64 :: "vec \<Rightarrow> vec \<Rightarrow> vec" where "mm_add_epi64 a b = map2 (+) a b"

definition mm_srli_epi64 :: "vec \<Rightarrow> nat \<Rightarrow> vec" where "mm_srli_epi64 a n = map (drop_bit n) a"

definition mm_slli_epi64 :: "vec \<Rightarrow> nat \<Rightarrow> vec" where "mm_slli_epi64 a n = map (push_bit n) a"

text \<open>\<open>_mm_mul_epu32\<close> multiplies the low halves of the lanes.\<close>

definition mm_mul_epu32 :: "vec \<Rightarrow> vec \<Rightarrow> vec" where
  "mm_mul_epu32 a b = map2 (\<lambda>x y. (x AND 0xFFFFFFFF) * (y AND 0xFFFFFFFF)) a b"

definition mm_set1_epi32 :: "nat \<Rightarrow> 32 word \<Rightarrow> vec" where
  "mm_set1_epi32 lanes c = replicate lanes (ucast c OR push_bit 32 (ucast c))"

text \<open>
  \<open>_MM_SHUFFLE(z, y, x, w)\<close> selects, for the dwords 0 to 3 of every 128 bits, the dwords
  \<open>w\<close>, \<open>x\<close>, \<open>y\<close> and \<open>z\<close> of the same 128 bits.
\<close>

definition dword :: "64 word \<Rightarrow> 64 word \<Rightarrow> nat \<Rightarrow> 64 word" where
  "dword a b k =
     (if k = 0 then a AND 0xFFFFFFFF else if k = 1 then drop_bit 32 a
      else if k = 2 then b AND 0xFFFFFFFF else drop_bit 32 b)"

fun mm_shuffle_epi32 :: "vec \<Rightarrow> nat \<times> nat \<times> nat \<times> nat \<Rightarrow> vec" where
  "mm_shuffle_epi32 (a # b # v) (z, y, x, w) =
     (dword a b w OR push_bit 32 (dword a b x)) # (dword a b y OR push_bit 32 (dword a b z)) #
     mm_shuffle_epi32 v (z, y, x, w)"
| "mm_shuffle_epi32 v imm = []"

text \<open>Register number \<open>i\<close> of the accumulators.\<close>

definition get_vec :: "nat \<Rightarrow> accs \<Rightarrow> nat \<Rightarrow> vec" where
  "get_vec lanes xacc i = take lanes (drop (lanes * i) xacc)"

definition set_vec :: "nat \<Rightarrow> accs \<Rightarrow> nat \<Rightarrow> vec \<Rightarrow> accs" where
  "set_vec lanes xacc i v = memcpy_at (lanes * i) v xacc"

section \<open>The kernels\<close>

text \<open>The bodies of the loops, which the three instruction sets of x86 share.\<close>

definition accumulate_body :: "nat \<Rightarrow> accs \<Rightarrow> bytes \<Rightarrow> bytes \<Rightarrow> nat \<Rightarrow> accs" where
  "accumulate_body lanes xacc xinput xsecret i =
     (let data_vec = mm_loadu lanes (drop (8 * lanes * i) xinput);
          key_vec = mm_loadu lanes (drop (8 * lanes * i) xsecret);
          data_key = mm_xor data_vec key_vec;
          data_key_lo = mm_shuffle_epi32 data_key (0, 3, 0, 1);
          product = mm_mul_epu32 data_key data_key_lo;
          data_swap = mm_shuffle_epi32 data_vec (1, 0, 3, 2);
          sum = mm_add_epi64 (get_vec lanes xacc i) data_swap
      in set_vec lanes xacc i (mm_add_epi64 product sum))"

definition scramble_body :: "nat \<Rightarrow> accs \<Rightarrow> bytes \<Rightarrow> nat \<Rightarrow> accs" where
  "scramble_body lanes xacc xsecret i =
     (let prime32 = mm_set1_epi32 lanes XXH_PRIME32_1;
          acc_vec = get_vec lanes xacc i;
          shifted = mm_srli_epi64 acc_vec 47;
          data_vec = mm_xor acc_vec shifted;
          key_vec = mm_loadu lanes (drop (8 * lanes * i) xsecret);
          data_key = mm_xor data_vec key_vec;
          data_key_hi = mm_shuffle_epi32 data_key (0, 3, 0, 1);
          prod_lo = mm_mul_epu32 data_key prime32;
          prod_hi = mm_mul_epu32 data_key_hi prime32
      in set_vec lanes xacc i (mm_add_epi64 prod_lo (mm_slli_epi64 prod_hi 32)))"

definition store_vec :: "nat \<Rightarrow> bytes \<Rightarrow> nat \<Rightarrow> vec \<Rightarrow> bytes" where
  "store_vec lanes dest i v = memcpy_at (8 * lanes * i) (concat (map (le_bytes 8) v)) dest"

definition init_body :: "nat \<Rightarrow> vec \<Rightarrow> bytes \<Rightarrow> nat \<Rightarrow> bytes" where
  "init_body lanes seed dest i =
     store_vec lanes dest i (mm_add_epi64 (mm_loadu lanes (drop (8 * lanes * i) XXH3_kSecret)) seed)"

definition XXH3_accumulate_512_sse2 :: f_accumulate where
  "XXH3_accumulate_512_sse2 acc input secret =
     foldl (\<lambda>xacc i. accumulate_body 2 xacc input secret i) acc [0..<XXH_STRIPE_LEN div 16]"

definition XXH3_scrambleAcc_sse2 :: f_scrambleAcc where
  "XXH3_scrambleAcc_sse2 acc secret =
     foldl (\<lambda>xacc i. scramble_body 2 xacc secret i) acc [0..<XXH_STRIPE_LEN div 16]"

definition XXH3_initCustomSecret_sse2 :: "bytes \<Rightarrow> 64 word \<Rightarrow> bytes" where
  "XXH3_initCustomSecret_sse2 customSecret seed64 =
     foldl (init_body 2 [seed64, 0 - seed64]) customSecret [0..<XXH_SECRET_DEFAULT_SIZE div 16]"

definition XXH3_accumulate_512_avx2 :: f_accumulate where
  "XXH3_accumulate_512_avx2 acc input secret =
     foldl (\<lambda>xacc i. accumulate_body 4 xacc input secret i) acc [0..<XXH_STRIPE_LEN div 32]"

definition XXH3_scrambleAcc_avx2 :: f_scrambleAcc where
  "XXH3_scrambleAcc_avx2 acc secret =
     foldl (\<lambda>xacc i. scramble_body 4 xacc secret i) acc [0..<XXH_STRIPE_LEN div 32]"

definition XXH3_initCustomSecret_avx2 :: "bytes \<Rightarrow> 64 word \<Rightarrow> bytes" where
  "XXH3_initCustomSecret_avx2 customSecret seed64 =
     (let body = init_body 4 [seed64, 0 - seed64, seed64, 0 - seed64]
      in body (body (body (body (body (body customSecret 0) 1) 2) 3) 4) 5)"

definition XXH3_accumulate_512_avx512 :: f_accumulate where
  "XXH3_accumulate_512_avx512 acc input secret = accumulate_body 8 acc input secret 0"

definition XXH3_scrambleAcc_avx512 :: f_scrambleAcc where
  "XXH3_scrambleAcc_avx512 acc secret = scramble_body 8 acc secret 0"

text \<open>\<open>_mm512_mask_set1_epi64(src, mask, a)\<close> takes \<open>a\<close> in the lanes whose mask bit is set.\<close>

definition mm512_mask_set1_epi64 :: "vec \<Rightarrow> 8 word \<Rightarrow> 64 word \<Rightarrow> vec" where
  "mm512_mask_set1_epi64 src m a = map (\<lambda>i. if bit m i then a else src ! i) [0..<8]"

definition XXH3_initCustomSecret_avx512 :: "bytes \<Rightarrow> 64 word \<Rightarrow> bytes" where
  "XXH3_initCustomSecret_avx512 customSecret seed64 =
     (let seed = mm512_mask_set1_epi64 (replicate 8 seed64) 0xAA (0 - seed64)
      in foldl (init_body 8 seed) customSecret [0..<XXH_SECRET_DEFAULT_SIZE div 64])"

text \<open>NEON: \<open>vextq_u64(v, v, 1)\<close> swaps the lanes, \<open>vmlal_u32(a, b, c)\<close> is \<open>a + b * c\<close>.\<close>

definition vextq_u64_1 :: "vec \<Rightarrow> vec" where "vextq_u64_1 v = [v ! 1, v ! 0]"

definition vmull_u32 :: "32 word list \<Rightarrow> 32 word list \<Rightarrow> vec" where
  "vmull_u32 b c = map2 (\<lambda>x y. ucast x * ucast y) b c"

definition vmlal_u32 :: "vec \<Rightarrow> 32 word list \<Rightarrow> 32 word list \<Rightarrow> vec" where
  "vmlal_u32 a b c = mm_add_epi64 a (vmull_u32 b c)"

definition neon_accumulate_body :: "accs \<Rightarrow> bytes \<Rightarrow> bytes \<Rightarrow> nat \<Rightarrow> accs" where
  "neon_accumulate_body xacc xinput xsecret i =
     (let data64 = mm_loadu 2 (drop (i * 16) xinput);
          key_vec = mm_loadu 2 (drop (i * 16) xsecret);
          swapped = vextq_u64_1 data64;
          xacc = set_vec 2 xacc i (mm_add_epi64 (get_vec 2 xacc i) swapped);
          data_key = mm_xor data64 key_vec;
          data_key_lo = map ucast data_key;
          data_key_hi = map (\<lambda>x. ucast (drop_bit 32 x)) data_key
      in set_vec 2 xacc i (vmlal_u32 (get_vec 2 xacc i) data_key_lo data_key_hi))"

definition neon_scramble_body :: "accs \<Rightarrow> bytes \<Rightarrow> nat \<Rightarrow> accs" where
  "neon_scramble_body xacc xsecret i =
     (let prime = [XXH_PRIME32_1, XXH_PRIME32_1];
          acc_vec = get_vec 2 xacc i;
          shifted = mm_srli_epi64 acc_vec 47;
          data_vec = mm_xor acc_vec shifted;
          key_vec = mm_loadu 2 (drop (i * 16) xsecret);
          data_key = mm_xor data_vec key_vec;
          data_key_lo = map ucast data_key;
          data_key_hi = map (\<lambda>x. ucast (drop_bit 32 x)) data_key;
          prod_hi = vmull_u32 data_key_hi prime;
          xacc = set_vec 2 xacc i (mm_slli_epi64 prod_hi 32)
      in set_vec 2 xacc i (vmlal_u32 (get_vec 2 xacc i) data_key_lo prime))"

definition XXH3_accumulate_512_neon :: f_accumulate where
  "XXH3_accumulate_512_neon acc input secret =
     foldl (\<lambda>xacc i. neon_accumulate_body xacc input secret i) acc [0..<XXH_STRIPE_LEN div 16]"

definition XXH3_scrambleAcc_neon :: f_scrambleAcc where
  "XXH3_scrambleAcc_neon acc secret =
     foldl (\<lambda>xacc i. neon_scramble_body xacc secret i) acc [0..<XXH_STRIPE_LEN div 16]"

definition sse2_kernel :: xxh3_kernel where
  "sse2_kernel = \<lparr>k_accumulate = XXH3_accumulate_512_sse2, k_scramble = XXH3_scrambleAcc_sse2,
                  k_init = XXH3_initCustomSecret_sse2\<rparr>"

definition avx2_kernel :: xxh3_kernel where
  "avx2_kernel = \<lparr>k_accumulate = XXH3_accumulate_512_avx2, k_scramble = XXH3_scrambleAcc_avx2,
                  k_init = XXH3_initCustomSecret_avx2\<rparr>"

definition avx512_kernel :: xxh3_kernel where
  "avx512_kernel = \<lparr>k_accumulate = XXH3_accumulate_512_avx512, k_scramble = XXH3_scrambleAcc_avx512,
                    k_init = XXH3_initCustomSecret_avx512\<rparr>"

definition neon_kernel :: xxh3_kernel where
  "neon_kernel = \<lparr>k_accumulate = XXH3_accumulate_512_neon, k_scramble = XXH3_scrambleAcc_neon,
                  k_init = XXH3_initCustomSecret_scalar\<rparr>"

section \<open>Lane by lane\<close>

definition acc_lane :: "accs \<Rightarrow> bytes \<Rightarrow> bytes \<Rightarrow> nat \<Rightarrow> nat \<Rightarrow> 64 word" where
  "acc_lane acc p s i j =
     (let d = XXH_readLE64 (drop (8 * i) p); k = d XOR XXH_readLE64 (drop (8 * i) s)
      in acc ! i + XXH_readLE64 (drop (8 * j) p) + (k AND 0xFFFFFFFF) * drop_bit 32 k)"

definition acc_lanes :: f_accumulate where
  "acc_lanes acc p s =
     [acc_lane acc p s 0 1, acc_lane acc p s 1 0, acc_lane acc p s 2 3, acc_lane acc p s 3 2,
      acc_lane acc p s 4 5, acc_lane acc p s 5 4, acc_lane acc p s 6 7, acc_lane acc p s 7 6]"

definition scramble_lane :: "accs \<Rightarrow> bytes \<Rightarrow> nat \<Rightarrow> 64 word" where
  "scramble_lane acc s i =
     ((acc ! i XOR drop_bit 47 (acc ! i)) XOR XXH_readLE64 (drop (8 * i) s)) * ucast XXH_PRIME32_1"

definition scramble_lanes :: f_scrambleAcc where
  "scramble_lanes acc s = map (scramble_lane acc s) [0..<8]"

lemma length_8E:
  assumes "length (xs :: 'a list) = 8"
  obtains a b c d e f g h where "xs = [a, b, c, d, e, f, g, h]"
proof -
  have "xs = [xs ! 0, xs ! 1, xs ! 2, xs ! 3, xs ! 4, xs ! 5, xs ! 6, xs ! 7]"
    using assms by (intro nth_equalityI) (auto simp: less_Suc_eq numeral_eq_Suc)
  then show thesis by (rule that)
qed

lemma high_word_mask: "drop_bit 32 x AND 0xFFFFFFFF = drop_bit 32 (x :: 64 word)"
proof (rule bit_word_eqI)
  fix n
  have m: "(0xFFFFFFFF :: 64 word) = mask 32" by (simp add: mask_eq_exp_minus_1)
  show "bit (drop_bit 32 x AND 0xFFFFFFFF) n = bit (drop_bit 32 x) n"
    unfolding m by (auto simp: bit_and_iff bit_drop_bit_eq bit_mask_iff dest: bit_imp_le_length
        simp del: mask_numeral)
qed

lemma low_word_mask: "(x AND 0xFFFFFFFF) AND 0xFFFFFFFF = (x :: 64 word) AND 0xFFFFFFFF"
  by (simp add: and.assoc)

lemma upt_8: "[0..<8] = [0, 1, 2, 3, 4, 5, 6, 7 :: nat]" by code_simp
lemma upt_4: "[0..<4] = [0, 1, 2, 3 :: nat]" by code_simp
lemma upt_2: "[0..<2] = [0, 1 :: nat]" by code_simp

lemma xor_one:
  "(0 :: nat) XOR 1 = 1" "(1 :: nat) XOR 1 = 0" "(2 :: nat) XOR 1 = 3" "(3 :: nat) XOR 1 = 2"
  "(4 :: nat) XOR 1 = 5" "(5 :: nat) XOR 1 = 4" "(6 :: nat) XOR 1 = 7" "(7 :: nat) XOR 1 = 6"
  by simp_all

lemma accumulate_scalar_lanes:
  "length acc = 8 \<Longrightarrow> XXH3_accumulate_512_scalar acc p s = acc_lanes acc p s"
  by (erule length_8E)
     (simp add: XXH3_accumulate_512_scalar_def upt_8 xor_one acc_lanes_def acc_lane_def Let_def
      XXH_mult32to64_def high_word_mask low_word_mask mult.commute [of _ 8] add_ac)

lemma scramble_scalar_lanes:
  "length acc = 8 \<Longrightarrow> XXH3_scrambleAcc_scalar acc s = scramble_lanes acc s"
  by (erule length_8E)
     (simp add: XXH3_scrambleAcc_scalar_def upt_8 scramble_lanes_def scramble_lane_def Let_def
      XXH_xorshift64_def)

text \<open>The low halves of what the shuffles produce.\<close>

lemma or_shifted_low: "((a AND 0xFFFFFFFF) OR push_bit 32 b) AND 0xFFFFFFFF = (a :: 64 word) AND 0xFFFFFFFF"
proof (rule bit_word_eqI)
  fix n
  have m: "(0xFFFFFFFF :: 64 word) = mask 32" by (simp add: mask_eq_exp_minus_1)
  show "bit (((a AND 0xFFFFFFFF) OR push_bit 32 b) AND 0xFFFFFFFF) n = bit (a AND 0xFFFFFFFF) n"
    unfolding m by (auto simp: bit_and_iff bit_or_iff bit_push_bit_iff bit_mask_iff
        simp del: mask_numeral)
qed

lemma or_shifted_low': "(drop_bit 32 a OR push_bit 32 b) AND 0xFFFFFFFF = drop_bit 32 (a :: 64 word)"
  using or_shifted_low [of "drop_bit 32 a" b] by (simp add: high_word_mask)

lemma split_dwords: "(a AND 0xFFFFFFFF) OR push_bit 32 (drop_bit 32 a) = (a :: 64 word)"
proof (rule bit_word_eqI)
  fix n assume "n < LENGTH(64)"
  have m: "(0xFFFFFFFF :: 64 word) = mask 32" by (simp add: mask_eq_exp_minus_1)
  show "bit ((a AND 0xFFFFFFFF) OR push_bit 32 (drop_bit 32 a)) n = bit a n"
    using \<open>n < LENGTH(64)\<close>
    unfolding m by (cases "n < 32") (auto simp: bit_and_iff bit_or_iff bit_push_bit_iff bit_mask_iff
        bit_drop_bit_eq simp del: mask_numeral)
qed

lemma prime_low:
  "(ucast (c :: 32 word) OR push_bit 32 (ucast c)) AND 0xFFFFFFFF = (ucast c :: 64 word)"
proof (rule bit_word_eqI)
  fix n
  have m: "(0xFFFFFFFF :: 64 word) = mask 32" by (simp add: mask_eq_exp_minus_1)
  show "bit ((ucast c OR push_bit 32 (ucast c)) AND 0xFFFFFFFF :: 64 word) n = bit (ucast c :: 64 word) n"
    unfolding m by (auto simp: bit_and_iff bit_or_iff bit_push_bit_iff bit_mask_iff bit_ucast_iff
        dest: bit_imp_le_length simp del: mask_numeral)
qed

lemma dword_simps:
  "dword a b 0 = a AND 0xFFFFFFFF" "dword a b 1 = drop_bit 32 a"
  "dword a b 2 = b AND 0xFFFFFFFF" "dword a b 3 = drop_bit 32 b"
  by (simp_all add: dword_def)

text \<open>Multiplying the halves and shifting the upper product into place.\<close>

lemma mult_halves: "(x AND 0xFFFFFFFF) * p + push_bit 32 (drop_bit 32 x * p) = (x :: 64 word) * p"
proof -
  have "x = (x AND 0xFFFFFFFF) OR push_bit 32 (drop_bit 32 x)" by (simp add: split_dwords)
  also have "\<dots> = (x AND 0xFFFFFFFF) + push_bit 32 (drop_bit 32 x)"
  proof (rule disjunctive_add [symmetric])
    fix n
    have m: "(0xFFFFFFFF :: 64 word) = mask 32" by (simp add: mask_eq_exp_minus_1)
    show "\<not> bit (x AND 0xFFFFFFFF) n \<or> \<not> bit (push_bit 32 (drop_bit 32 x)) n"
      unfolding m by (auto simp: bit_and_iff bit_push_bit_iff bit_mask_iff simp del: mask_numeral)
  qed
  finally have "x * p = ((x AND 0xFFFFFFFF) + push_bit 32 (drop_bit 32 x)) * p" by simp
  then show ?thesis by (simp add: push_bit_eq_mult algebra_simps)
qed

lemma shuffle_swap:
  "mm_shuffle_epi32 (a # b # v) (1, 0, 3, 2) = b # a # mm_shuffle_epi32 v (1, 0, 3, 2)"
  "mm_shuffle_epi32 [] (1, 0, 3, 2) = []"
  by (simp_all only: mm_shuffle_epi32.simps dword_simps split_dwords)

lemma mul_shuffle_high:
  "mm_mul_epu32 (a # b # v) (mm_shuffle_epi32 (a # b # v) (0, 3, 0, 1)) =
     ((a AND 0xFFFFFFFF) * drop_bit 32 a) # ((b AND 0xFFFFFFFF) * drop_bit 32 b) #
     mm_mul_epu32 v (mm_shuffle_epi32 v (0, 3, 0, 1))"
  "mm_mul_epu32 [] w = []"
  by (simp_all only: mm_mul_epu32_def mm_shuffle_epi32.simps dword_simps or_shifted_low'
      zip_Cons_Cons zip_Nil list.map prod.case)

lemma mul_prime_low:
  "mm_mul_epu32 (a # v) ((ucast c OR push_bit 32 (ucast c)) # w) =
     ((a AND 0xFFFFFFFF) * ucast (c :: 32 word)) # mm_mul_epu32 v w"
  by (simp only: mm_mul_epu32_def prime_low zip_Cons_Cons list.map prod.case)

lemma mul_prime_high:
  "mm_mul_epu32 (mm_shuffle_epi32 (a # b # v) (0, 3, 0, 1))
       ((ucast c OR push_bit 32 (ucast c)) # (ucast c OR push_bit 32 (ucast c)) # w) =
     (drop_bit 32 a * ucast (c :: 32 word)) # (drop_bit 32 b * ucast c) #
     mm_mul_epu32 (mm_shuffle_epi32 v (0, 3, 0, 1)) w"
  "mm_mul_epu32 (mm_shuffle_epi32 [] (0, 3, 0, 1)) w = []"
  by (simp_all only: mm_mul_epu32_def mm_shuffle_epi32.simps dword_simps or_shifted_low' prime_low
      zip_Cons_Cons zip_Nil list.map prod.case)

lemmas register_simps = get_vec_def set_vec_def mm_loadu_def mm_xor_def mm_add_epi64_def
  mm_srli_epi64_def mm_slli_epi64_def mm_set1_epi32_def memcpy_at_def Let_def upt_8 upt_4 upt_2

lemma replicate_lanes:
  "replicate 2 x = [x, x]" "replicate 4 x = [x, x, x, x]" "replicate 8 x = [x, x, x, x, x, x, x, x]"
  by (simp_all add: numeral_eq_Suc)

lemmas lane_simps = register_simps shuffle_swap mul_shuffle_high replicate_lanes mul_prime_low
  mul_prime_high mult_halves acc_lanes_def acc_lane_def scramble_lanes_def scramble_lane_def

lemma accumulate_sse2_lanes: "length acc = 8 \<Longrightarrow> XXH3_accumulate_512_sse2 acc p s = acc_lanes acc p s"
  by (elim length_8E) (simp add: XXH3_accumulate_512_sse2_def accumulate_body_def lane_simps ac_simps
      del: mm_shuffle_epi32.simps One_nat_def)

lemma accumulate_avx2_lanes: "length acc = 8 \<Longrightarrow> XXH3_accumulate_512_avx2 acc p s = acc_lanes acc p s"
  by (elim length_8E) (simp add: XXH3_accumulate_512_avx2_def accumulate_body_def lane_simps ac_simps
      del: mm_shuffle_epi32.simps One_nat_def)

lemma accumulate_avx512_lanes:
  "length acc = 8 \<Longrightarrow> XXH3_accumulate_512_avx512 acc p s = acc_lanes acc p s"
  by (elim length_8E) (simp add: XXH3_accumulate_512_avx512_def accumulate_body_def lane_simps ac_simps
      del: mm_shuffle_epi32.simps One_nat_def)

lemma scramble_sse2_lanes: "length acc = 8 \<Longrightarrow> XXH3_scrambleAcc_sse2 acc s = scramble_lanes acc s"
  by (elim length_8E) (simp add: XXH3_scrambleAcc_sse2_def scramble_body_def lane_simps
      del: mm_shuffle_epi32.simps One_nat_def drop_bit_xor)

lemma scramble_avx2_lanes: "length acc = 8 \<Longrightarrow> XXH3_scrambleAcc_avx2 acc s = scramble_lanes acc s"
  by (elim length_8E) (simp add: XXH3_scrambleAcc_avx2_def scramble_body_def lane_simps
      del: mm_shuffle_epi32.simps One_nat_def drop_bit_xor)

lemma scramble_avx512_lanes: "length acc = 8 \<Longrightarrow> XXH3_scrambleAcc_avx512 acc s = scramble_lanes acc s"
  by (elim length_8E) (simp add: XXH3_scrambleAcc_avx512_def scramble_body_def lane_simps
      del: mm_shuffle_epi32.simps One_nat_def drop_bit_xor)

lemma ucast_low: "(ucast (ucast (x :: 64 word) :: 32 word) :: 64 word) = x AND 0xFFFFFFFF"
proof (rule bit_word_eqI)
  fix n
  have m: "(0xFFFFFFFF :: 64 word) = mask 32" by (simp add: mask_eq_exp_minus_1)
  show "bit (ucast (ucast x :: 32 word) :: 64 word) n = bit (x AND 0xFFFFFFFF) n"
    unfolding m by (auto simp: bit_and_iff bit_mask_iff bit_ucast_iff dest: bit_imp_le_length
        simp del: mask_numeral)
qed

lemma ucast_high: "(ucast (ucast (drop_bit 32 (x :: 64 word)) :: 32 word) :: 64 word) = drop_bit 32 x"
  by (simp only: ucast_low high_word_mask)

lemma vmull_pair: "vmull_u32 [a, b] [c, d] = [ucast a * ucast c, ucast b * ucast d]"
  by (simp add: vmull_u32_def)

lemma neon_accumulate_body_eq:
  assumes "length acc = 8" "i < 4"
  shows "neon_accumulate_body acc p s i =
    acc[2 * i := acc_lane acc p s (2 * i) (2 * i + 1), 2 * i + 1 := acc_lane acc p s (2 * i + 1) (2 * i)]"
proof -
  from assms(2) consider "i = 0" | "i = 1" | "i = 2" | "i = 3" by linarith
  then show ?thesis using assms(1)
    by cases (elim length_8E; simp add: neon_accumulate_body_def vextq_u64_1_def vmlal_u32_def vmull_pair
      register_simps ucast_low ucast_high high_word_mask acc_lane_def del: drop_bit_xor)+
qed

lemma neon_scramble_body_eq:
  assumes "length acc = 8" "i < 4"
  shows "neon_scramble_body acc s i =
    acc[2 * i := scramble_lane acc s (2 * i), 2 * i + 1 := scramble_lane acc s (2 * i + 1)]"
proof -
  have h: "push_bit 32 (drop_bit 32 x * p) + (x AND 0xFFFFFFFF) * p = x * p" for x p :: "64 word"
    using mult_halves [of x p] by (simp only: add.commute)
  from assms(2) consider "i = 0" | "i = 1" | "i = 2" | "i = 3" by linarith
  then show ?thesis using assms(1)
    by cases (elim length_8E; simp add: neon_scramble_body_def vmlal_u32_def vmull_pair
      register_simps ucast_low ucast_high high_word_mask scramble_lane_def h del: drop_bit_xor)+
qed

lemma accumulate_neon_lanes:
  assumes "length acc = 8"
  shows "XXH3_accumulate_512_neon acc p s = acc_lanes acc p s"
proof -
  have l: "acc_lane (xs[k := v]) p s i j = acc_lane xs p s i j" if "k \<noteq> i" for xs k v i j
    using that by (simp add: acc_lane_def)
  have "XXH3_accumulate_512_neon acc p s =
    acc[0 := acc_lane acc p s 0 1, 1 := acc_lane acc p s 1 0, 2 := acc_lane acc p s 2 3,
        3 := acc_lane acc p s 3 2, 4 := acc_lane acc p s 4 5, 5 := acc_lane acc p s 5 4,
        6 := acc_lane acc p s 6 7, 7 := acc_lane acc p s 7 6]"
    using assms by (simp add: XXH3_accumulate_512_neon_def upt_4 neon_accumulate_body_eq l)
  also have "\<dots> = acc_lanes acc p s" using assms by (elim length_8E) (simp add: acc_lanes_def)
  finally show ?thesis .
qed

lemma scramble_neon_lanes:
  assumes "length acc = 8"
  shows "XXH3_scrambleAcc_neon acc s = scramble_lanes acc s"
proof -
  have l: "scramble_lane (xs[k := v]) s i = scramble_lane xs s i" if "k \<noteq> i" for xs k v i
    using that by (simp add: scramble_lane_def)
  have "XXH3_scrambleAcc_neon acc s =
    acc[0 := scramble_lane acc s 0, 1 := scramble_lane acc s 1, 2 := scramble_lane acc s 2,
        3 := scramble_lane acc s 3, 4 := scramble_lane acc s 4, 5 := scramble_lane acc s 5,
        6 := scramble_lane acc s 6, 7 := scramble_lane acc s 7]"
    using assms by (simp add: XXH3_scrambleAcc_neon_def upt_4 neon_scramble_body_eq l)
  also have "\<dots> = scramble_lanes acc s"
    using assms by (elim length_8E) (simp add: scramble_lanes_def upt_8)
  finally show ?thesis .
qed

end
