(* ===== verification/Xxh3_Vsx.thy ===== *)
theory Xxh3_Vsx
  imports Xxh3_Simd
begin

text \<open>
  The vector kernel of XXH3 for POWER and z/Architecture, for both byte orders.

  A register is the list of its two doublewords in memory order; as four words or sixteen bytes it
  is the same register.  \<^verbatim>\<open>vmulouw\<close> and \<^verbatim>\<open>vmuleuw\<close> multiply the odd and the even words, which are
  the low and the high halves of the doublewords.
\<close>

section \<open>Loads and intrinsics\<close>

text \<open>The bytes of a register on a big-endian machine, and the register of sixteen bytes.\<close>

definition register_bytes :: "vec \<Rightarrow> bytes" where
  "register_bytes v = concat (map (\<lambda>x. rev (le_bytes 8 x)) v)"

definition mm_loadu_be :: "bytes \<Rightarrow> vec" where
  "mm_loadu_be p = map (\<lambda>i. XXH_readBE64 (drop (8 * i) p)) [0..<2]"

definition vec_perm :: "vec \<Rightarrow> vec \<Rightarrow> nat list \<Rightarrow> vec" where
  "vec_perm a b sel = mm_loadu_be (map (\<lambda>k. (register_bytes a @ register_bytes b) ! k) sel)"

text \<open>\<open>vec_revb\<close> reverses the bytes of each doubleword; \<open>XXH_vec_revb\<close> does so with a permutation.\<close>

definition vec_revb :: "vec \<Rightarrow> vec" where
  "vec_revb v = map XXH_swap64 v"

definition XXH_vec_revb :: "vec \<Rightarrow> vec" where
  "XXH_vec_revb val =
     (let vByteSwap = [7, 6, 5, 4, 3, 2, 1, 0, 15, 14, 13, 12, 11, 10, 9, 8] in vec_perm val val vByteSwap)"

definition XXH_vec_loadu :: "bool \<Rightarrow> bytes \<Rightarrow> vec" where
  "XXH_vec_loadu big_endian p = (if big_endian then XXH_vec_revb (mm_loadu_be p) else mm_loadu 2 p)"

definition vec_rl :: "vec \<Rightarrow> nat \<Rightarrow> vec" where
  "vec_rl v n = map (\<lambda>x. XXH_rotl64 x n) v"

definition XXH_vec_mulo :: "vec \<Rightarrow> vec \<Rightarrow> vec" where
  "XXH_vec_mulo a b = map2 (\<lambda>x y. (x AND 0xFFFFFFFF) * (y AND 0xFFFFFFFF)) a b"

definition XXH_vec_mule :: "vec \<Rightarrow> vec \<Rightarrow> vec" where
  "XXH_vec_mule a b = map2 (\<lambda>x y. drop_bit 32 x * drop_bit 32 y) a b"

text \<open>\<open>vec_xxpermdi(a, b, 2)\<close>: the second doubleword of \<open>a\<close> and the first of \<open>b\<close>.\<close>

definition vec_xxpermdi_2 :: "vec \<Rightarrow> vec \<Rightarrow> vec" where
  "vec_xxpermdi_2 a b = [a ! 1, b ! 0]"

section \<open>The kernel\<close>

definition vsx_accumulate_body :: "bool \<Rightarrow> accs \<Rightarrow> bytes \<Rightarrow> bytes \<Rightarrow> nat \<Rightarrow> accs" where
  "vsx_accumulate_body be xacc xinput xsecret i =
     (let data_vec = XXH_vec_loadu be (drop (16 * i) xinput);
          key_vec = XXH_vec_loadu be (drop (16 * i) xsecret);
          data_key = mm_xor data_vec key_vec;
          shuffled = vec_rl data_key 32;
          product = XXH_vec_mulo data_key shuffled;
          acc_vec = mm_add_epi64 (get_vec 2 xacc i) product;
          acc_vec = mm_add_epi64 acc_vec (vec_xxpermdi_2 data_vec data_vec)
      in set_vec 2 xacc i acc_vec)"

definition vsx_scramble_body :: "bool \<Rightarrow> accs \<Rightarrow> bytes \<Rightarrow> nat \<Rightarrow> accs" where
  "vsx_scramble_body be xacc xsecret i =
     (let prime = mm_set1_epi32 2 XXH_PRIME32_1;
          acc_vec = get_vec 2 xacc i;
          data_vec = mm_xor acc_vec (mm_srli_epi64 acc_vec 47);
          key_vec = XXH_vec_loadu be (drop (16 * i) xsecret);
          data_key = mm_xor data_vec key_vec;
          prod_even = XXH_vec_mule data_key prime;
          prod_odd = XXH_vec_mulo data_key prime
      in set_vec 2 xacc i (mm_add_epi64 prod_odd (mm_slli_epi64 prod_even 32)))"

definition XXH3_accumulate_512_vsx :: "bool \<Rightarrow> f_accumulate" where
  "XXH3_accumulate_512_vsx be acc input secret =
     foldl (\<lambda>xacc i. vsx_accumulate_body be xacc input secret i) acc [0..<XXH_STRIPE_LEN div 16]"

definition XXH3_scrambleAcc_vsx :: "bool \<Rightarrow> f_scrambleAcc" where
  "XXH3_scrambleAcc_vsx be acc secret =
     foldl (\<lambda>xacc i. vsx_scramble_body be xacc secret i) acc [0..<XXH_STRIPE_LEN div 16]"

definition vsx_kernel :: "bool \<Rightarrow> xxh3_kernel" where
  "vsx_kernel be = \<lparr>k_accumulate = XXH3_accumulate_512_vsx be, k_scramble = XXH3_scrambleAcc_vsx be,
                    k_init = XXH3_initCustomSecret_scalar\<rparr>"

section \<open>Lane by lane\<close>

lemma first_8: "length (map ((!) p) [0..<8]) = 8" "i < 8 \<Longrightarrow> map ((!) p) [0..<8] ! i = p ! i"
  by simp_all

lemma swap_readBE64: "XXH_swap64 (XXH_readBE64 p) = XXH_readLE64 p"
proof -
  let ?q = "map ((!) p) [0..<8]"
  have "XXH_readBE64 p = XXH_readBE64 ?q" "XXH_readLE64 p = XXH_readLE64 ?q"
    by (simp_all add: XXH_readBE64_def XXH_readLE64_def upt_8)
  moreover have "XXH_swap64 (XXH_readBE64 ?q) = XXH_readLE64 ?q"
    by (simp add: XXH_readBE64_eq XXH_readLE64_eq XXH_swap64_le_word)
  ultimately show ?thesis by simp
qed

lemma readBE64_le_bytes: "XXH_readBE64 (le_bytes 8 x @ q) = XXH_swap64 x"
proof -
  have "XXH_readBE64 (le_bytes 8 x @ q) = le_word (rev (le_bytes 8 x))" by (simp add: XXH_readBE64_eq)
  also have "\<dots> = XXH_swap64 (le_word (le_bytes 8 x))" by (simp add: XXH_swap64_le_word)
  finally show ?thesis by (simp add: le_word_le_bytes)
qed

text \<open>The permutation reverses the bytes of the doublewords.\<close>

lemma vec_revb_permutation: "XXH_vec_revb [a, b] = vec_revb [a, b]"
proof -
  obtain a0 a1 a2 a3 a4 a5 a6 a7 where a: "le_bytes 8 a = [a0, a1, a2, a3, a4, a5, a6, a7]"
    by (rule length_8E [of "le_bytes 8 a"]) simp
  obtain b0 b1 b2 b3 b4 b5 b6 b7 where b: "le_bytes 8 b = [b0, b1, b2, b3, b4, b5, b6, b7]"
    by (rule length_8E [of "le_bytes 8 b"]) simp
  have "XXH_vec_revb [a, b] = mm_loadu_be (le_bytes 8 a @ le_bytes 8 b @ [])"
    by (simp add: XXH_vec_revb_def vec_perm_def register_bytes_def a b)
  also have "\<dots> = vec_revb [a, b]"
    using readBE64_le_bytes [of a "le_bytes 8 b @ []"] readBE64_le_bytes [of b "[]"]
    by (simp add: mm_loadu_be_def vec_revb_def upt_2 del: append_Nil2)
  finally show ?thesis .
qed

lemma XXH_vec_loadu_eq: "XXH_vec_loadu be p = mm_loadu 2 p"
proof -
  have "XXH_vec_revb (mm_loadu_be p) = mm_loadu 2 p"
    by (simp add: mm_loadu_be_def mm_loadu_def upt_2 vec_revb_permutation) (simp add: vec_revb_def swap_readBE64)
  then show ?thesis by (simp add: XXH_vec_loadu_def)
qed

lemma rotl_low: "XXH_rotl64 x 32 AND 0xFFFFFFFF = drop_bit 32 x"
proof (rule bit_word_eqI)
  fix n
  have m: "(0xFFFFFFFF :: 64 word) = mask 32" by (simp add: mask_eq_exp_minus_1)
  show "bit (XXH_rotl64 x 32 AND 0xFFFFFFFF) n = bit (drop_bit 32 x) n"
    unfolding m XXH_rotl64_def by (auto simp: bit_and_iff bit_or_iff bit_push_bit_iff bit_mask_iff bit_drop_bit_eq
        dest: bit_imp_le_length simp del: mask_numeral)
qed

lemma prime_high: "drop_bit 32 (ucast (c :: 32 word) OR push_bit 32 (ucast c)) = (ucast c :: 64 word)"
proof (rule bit_word_eqI)
  fix n
  show "bit (drop_bit 32 (ucast c OR push_bit 32 (ucast c)) :: 64 word) n = bit (ucast c :: 64 word) n"
    by (auto simp: bit_or_iff bit_push_bit_iff bit_drop_bit_eq bit_ucast_iff dest: bit_imp_le_length)
qed

lemma vsx_accumulate_body_eq:
  assumes "length acc = 8" and "i < 4"
  shows "vsx_accumulate_body be acc p s i =
    acc[2 * i := acc_lane acc p s (2 * i) (2 * i + 1), 2 * i + 1 := acc_lane acc p s (2 * i + 1) (2 * i)]"
proof -
  from assms(2) consider "i = 0" | "i = 1" | "i = 2" | "i = 3" by linarith
  then show ?thesis using assms(1)
    by cases (elim length_8E; simp add: vsx_accumulate_body_def XXH_vec_loadu_eq vec_xxpermdi_2_def XXH_vec_mulo_def
      vec_rl_def register_simps rotl_low acc_lane_def ac_simps del: drop_bit_xor)+
qed

lemma vsx_scramble_body_eq:
  assumes "length acc = 8" and "i < 4"
  shows "vsx_scramble_body be acc s i =
    acc[2 * i := scramble_lane acc s (2 * i), 2 * i + 1 := scramble_lane acc s (2 * i + 1)]"
proof -
  from assms(2) consider "i = 0" | "i = 1" | "i = 2" | "i = 3" by linarith
  then show ?thesis using assms(1)
    by cases (elim length_8E; simp add: vsx_scramble_body_def XXH_vec_loadu_eq XXH_vec_mulo_def XXH_vec_mule_def
      register_simps replicate_lanes prime_low prime_high mult_halves scramble_lane_def del: drop_bit_xor drop_bit_or)+
qed

lemma accumulate_vsx_lanes:
  assumes "length acc = 8"
  shows "XXH3_accumulate_512_vsx be acc p s = acc_lanes acc p s"
proof -
  have "foldl (\<lambda>xacc i. vsx_accumulate_body be xacc p s i) acc [0..<4] =
      foldl (\<lambda>xacc i. neon_accumulate_body xacc p s i) acc [0..<4]"
    using assms by (simp add: upt_4 vsx_accumulate_body_eq neon_accumulate_body_eq)
  then show ?thesis
    using accumulate_neon_lanes [OF assms] by (simp add: XXH3_accumulate_512_vsx_def XXH3_accumulate_512_neon_def)
qed

lemma scramble_vsx_lanes:
  assumes "length acc = 8"
  shows "XXH3_scrambleAcc_vsx be acc s = scramble_lanes acc s"
proof -
  have "foldl (\<lambda>xacc i. vsx_scramble_body be xacc s i) acc [0..<4] =
      foldl (\<lambda>xacc i. neon_scramble_body xacc s i) acc [0..<4]"
    using assms by (simp add: upt_4 vsx_scramble_body_eq neon_scramble_body_eq)
  then show ?thesis
    using scramble_neon_lanes [OF assms] by (simp add: XXH3_scrambleAcc_vsx_def XXH3_scrambleAcc_neon_def)
qed

end
