(* ===== verification/Xxh3_Mult.thy ===== *)
theory Xxh3_Mult
  imports Xxh3
begin

text \<open>
  The two variants of \<^verbatim>\<open>XXH_mult64to128\<close>: the portable grade-school multiplication computes the
  product the 128-bit integer type gives.
\<close>

lemma of_nat_unat_64: "of_nat (unat w) = (w :: 64 word)"
  by simp

lemma unat_ucast_128: "unat (ucast (x :: 64 word) :: 128 word) = unat x"
proof -
  have "unat x < 2 ^ 128" using unsigned_less [of x, where 'a = nat] by simp
  then show ?thesis by (simp add: unsigned_ucast_eq take_bit_nat_eq_self)
qed

lemma unat_low_half: "unat ((x :: 64 word) AND 0xFFFFFFFF) = unat x mod 4294967296"
proof -
  have "x AND 0xFFFFFFFF = take_bit 32 x"
    by (simp add: take_bit_eq_mask mask_eq_exp_minus_1)
  then show ?thesis by (simp only: unsigned_take_bit_eq take_bit_eq_mod [where 'a = nat]) simp
qed

lemma unat_high_half: "unat (drop_bit 32 (x :: 64 word)) = unat x div 4294967296"
  by (simp only: unat_drop_bit_eq drop_bit_eq_div [where 'a = nat]) simp

lemma halves_bound:
  assumes "p < 4294967296" "q < (4294967296 :: nat)"
  shows "p * q \<le> 4294967295 * 4294967295"
  using assms by (intro mult_le_mono) simp_all

lemma unat_mult32to64: "unat (XXH_mult32to64 x y) = (unat x mod 4294967296) * (unat y mod 4294967296)"
proof -
  have "(unat x mod 4294967296) * (unat y mod 4294967296) \<le> 4294967295 * 4294967295"
    by (rule halves_bound) simp_all
  then have "unat (x AND 0xFFFFFFFF) * unat (y AND 0xFFFFFFFF) < 2 ^ LENGTH(64)"
    unfolding unat_low_half by simp
  then show ?thesis
    unfolding XXH_mult32to64_def by (simp add: unat_mult_lem [THEN iffD1] unat_low_half)
qed

text \<open>The carry arithmetic, on natural numbers.\<close>

lemma grade_school:
  fixes a0 a1 b0 b1 :: nat
  assumes "a0 < 4294967296" "a1 < 4294967296" "b0 < 4294967296" "b1 < 4294967296"
  defines "M \<equiv> 4294967296 :: nat"
  defines "cross \<equiv> (a0 * b0) div M + (a1 * b0) mod M + a0 * b1"
  defines "upper \<equiv> (a1 * b0) div M + cross div M + a1 * b1"
  defines "lower \<equiv> (cross mod M) * M + (a0 * b0) mod M"
  shows "(a1 * M + a0) * (b1 * M + b0) = upper * (M * M) + lower"
    and "cross < M * M" and "lower < M * M" and "upper < M * M"
proof -
  have c: "cross = cross div M * M + cross mod M" and ll: "a0 * b0 = (a0 * b0) div M * M + (a0 * b0) mod M"
    and hl: "a1 * b0 = (a1 * b0) div M * M + (a1 * b0) mod M"
    by simp_all
  have "(a1 * M + a0) * (b1 * M + b0) = a1 * b1 * (M * M) + (a1 * b0) * M + (a0 * b1) * M + a0 * b0"
    by (simp add: algebra_simps)
  also have "(a1 * b0) * M = (a1 * b0) div M * (M * M) + (a1 * b0) mod M * M"
    using arg_cong [OF hl, of "\<lambda>x. x * M"] by (simp only: distrib_right mult.assoc)
  also have "a0 * b0 = (a0 * b0) div M * M + (a0 * b0) mod M" by (rule ll)
  also have "a1 * b1 * (M * M) + ((a1 * b0) div M * (M * M) + (a1 * b0) mod M * M) + a0 * b1 * M +
      ((a0 * b0) div M * M + (a0 * b0) mod M) =
    a1 * b1 * (M * M) + (a1 * b0) div M * (M * M) + cross * M + (a0 * b0) mod M"
    unfolding cross_def by (simp only: distrib_right distrib_left ac_simps)
  also have "cross * M = cross div M * (M * M) + cross mod M * M"
    using arg_cong [OF c, of "\<lambda>x. x * M"] by (simp only: distrib_right mult.assoc)
  also have "a1 * b1 * (M * M) + (a1 * b0) div M * (M * M) + (cross div M * (M * M) + cross mod M * M) +
      (a0 * b0) mod M = upper * (M * M) + lower"
    unfolding upper_def lower_def by (simp only: distrib_right distrib_left ac_simps)
  finally show e: "(a1 * M + a0) * (b1 * M + b0) = upper * (M * M) + lower" .
  have "a0 * b0 \<le> 4294967295 * 4294967295" "a0 * b1 \<le> 4294967295 * 4294967295"
    by (rule halves_bound [OF assms(1,3)], rule halves_bound [OF assms(1,4)])
  then have "(a0 * b0) div M \<le> 4294967294" "a0 * b1 \<le> 4294967295 * 4294967295" unfolding M_def by simp_all
  moreover have "(a1 * b0) mod M \<le> 4294967295" unfolding M_def by simp
  ultimately show "cross < M * M" unfolding cross_def M_def by simp
  have "(a0 * b0) mod M < M" "cross mod M < M" by (simp_all add: M_def)
  then show "lower < M * M" unfolding lower_def M_def by linarith
  have "(a1 * M + a0) * (b1 * M + b0) < (M * M) * (M * M)"
    by (rule mult_strict_mono) (use assms(1-4) in \<open>simp_all add: M_def\<close>)
  with e have "upper * (M * M) < (M * M) * (M * M)" by linarith
  then show "upper < M * M" by (simp add: M_def)
qed

lemma mult64to128_portable: "XXH_mult64to128_portable lhs rhs = XXH_mult64to128 lhs rhs"
proof -
  define M where "M = (4294967296 :: nat)"
  define a0 a1 b0 b1 where "a0 = unat lhs mod M" and "a1 = unat lhs div M"
    and "b0 = unat rhs mod M" and "b1 = unat rhs div M"
  have lt: "unat lhs < M * M" "unat rhs < M * M"
    using unsigned_less [of lhs, where 'a = nat] unsigned_less [of rhs, where 'a = nat]
    by (simp_all add: M_def)
  then have bounds: "a0 < 4294967296" "a1 < 4294967296" "b0 < 4294967296" "b1 < 4294967296"
    unfolding a0_def a1_def b0_def b1_def M_def by (simp_all add: less_mult_imp_div_less)
  define cross where "cross = (a0 * b0) div M + (a1 * b0) mod M + a0 * b1"
  define upper where "upper = (a1 * b0) div M + cross div M + a1 * b1"
  define lower where "lower = (cross mod M) * M + (a0 * b0) mod M"
  note g = grade_school [OF bounds, folded M_def, folded cross_def, folded upper_def lower_def]
  have prod: "unat lhs * unat rhs = upper * (M * M) + lower"
    using g(1) by (simp add: a0_def a1_def b0_def b1_def)
  define LL HL LH HH where "LL = XXH_mult32to64 (lhs AND 0xFFFFFFFF) (rhs AND 0xFFFFFFFF)"
    and "HL = XXH_mult32to64 (drop_bit 32 lhs) (rhs AND 0xFFFFFFFF)"
    and "LH = XXH_mult32to64 (lhs AND 0xFFFFFFFF) (drop_bit 32 rhs)"
    and "HH = XXH_mult32to64 (drop_bit 32 lhs) (drop_bit 32 rhs)"
  have u: "unat LL = a0 * b0" "unat HL = a1 * b0" "unat LH = a0 * b1" "unat HH = a1 * b1"
    using bounds unfolding LL_def HL_def LH_def HH_def unat_mult32to64 unat_low_half unat_high_half
      a0_def a1_def b0_def b1_def M_def by simp_all
  define C where "C = drop_bit 32 LL + (HL AND 0xFFFFFFFF) + LH"
  have C: "unat C = cross"
  proof -
    have "C = of_nat cross"
      unfolding C_def cross_def u [symmetric]
      by (simp add: unat_low_half [symmetric] unat_high_half [symmetric] M_def)
    with g(2) show ?thesis by (simp add: M_def)
  qed
  define U where "U = drop_bit 32 HL + drop_bit 32 C + HH"
  have U: "unat U = upper"
  proof -
    have "U = of_nat upper"
      unfolding U_def upper_def u [symmetric] C [symmetric]
      by (simp add: unat_high_half [symmetric] M_def)
    with g(4) show ?thesis by (simp add: M_def)
  qed
  define L where "L = (push_bit 32 C OR (LL AND 0xFFFFFFFF))"
  have L: "unat L = lower"
  proof -
    have "L = push_bit 32 C + (LL AND 0xFFFFFFFF)"
      unfolding L_def
    proof (rule disjunctive_add [symmetric])
      fix n
      have m: "(0xFFFFFFFF :: 64 word) = mask 32" by (simp add: mask_eq_exp_minus_1)
      show "\<not> bit (push_bit 32 C) n \<or> \<not> bit (LL AND 0xFFFFFFFF) n"
        unfolding m by (auto simp: bit_and_iff bit_push_bit_iff bit_mask_iff simp del: mask_numeral)
    qed
    moreover have "push_bit 32 C = of_nat ((cross mod M) * M)"
    proof -
      have "unat (push_bit 32 C) = (cross * M) mod (M * M)"
        using C by (simp add: push_bit_eq_mult unat_word_ariths M_def)
      also have "\<dots> = (cross mod M) * M" by (simp add: mult_mod_left)
      finally show ?thesis by (metis of_nat_unat_64)
    qed
    moreover have "LL AND 0xFFFFFFFF = of_nat ((a0 * b0) mod M)"
      using u(1) unat_low_half [of LL] by (metis M_def of_nat_unat_64)
    ultimately have "L = of_nat lower" unfolding lower_def by simp
    with g(3) show ?thesis by (simp add: M_def)
  qed
  have "unat ((ucast lhs :: 128 word) * ucast rhs) = unat lhs * unat rhs"
  proof -
    have "unat lhs * unat rhs < 2 ^ 128"
      using mult_strict_mono [OF lt] by (simp add: M_def)
    then have "unat (ucast lhs :: 128 word) * unat (ucast rhs :: 128 word) < 2 ^ LENGTH(128)"
      by (simp add: unat_ucast_128)
    then show ?thesis by (simp add: unat_mult_lem [THEN iffD1] unat_ucast_128)
  qed
  then have p: "unat ((ucast lhs :: 128 word) * ucast rhs) = upper * (M * M) + lower" by (simp add: prod)
  have "unat (ucast ((ucast lhs :: 128 word) * ucast rhs) :: 64 word) = lower"
    using p g(3) by (simp add: unsigned_ucast_eq take_bit_eq_mod M_def)
  then have lo: "(ucast ((ucast lhs :: 128 word) * ucast rhs) :: 64 word) = L"
    using L by (metis of_nat_unat_64)
  have "unat (drop_bit 64 ((ucast lhs :: 128 word) * ucast rhs)) = upper"
    using p g(3) by (simp only: unat_drop_bit_eq drop_bit_eq_div [where 'a = nat]) (simp add: M_def)
  then have "unat (ucast (drop_bit 64 ((ucast lhs :: 128 word) * ucast rhs)) :: 64 word) = upper"
    using g(4) by (simp add: unsigned_ucast_eq take_bit_eq_mod M_def)
  then have hi: "(ucast (drop_bit 64 ((ucast lhs :: 128 word) * ucast rhs)) :: 64 word) = U"
    using U by (metis of_nat_unat_64)
  show ?thesis
    unfolding XXH_mult64to128_portable_def XXH_mult64to128_def Let_def lo hi
    by (simp only: LL_def [symmetric] HL_def [symmetric] LH_def [symmetric] HH_def [symmetric]
        C_def [symmetric] U_def [symmetric] L_def [symmetric])
qed

end
