(* ===== verification/Xxh3_Kernels.thy ===== *)
theory Xxh3_Kernels
  imports Xxh3_Simd Xxh3_Vsx Xxh3_Mult
begin

text \<open>
  All kernels are interchangeable: they derive the same secret from a seed and give the same
  hash; and with each of them the streaming functions compute the one-shot hash.
\<close>

section \<open>Custom secrets\<close>

text \<open>Lane number \<open>j\<close> of the secret derived from a seed.\<close>

definition secret_lane :: "64 word \<Rightarrow> nat \<Rightarrow> 64 word" where
  "secret_lane seed j =
     XXH_readLE64 (drop (8 * j) XXH3_kSecret) + (if even j then seed else - seed)"

definition secret_lanes :: "64 word \<Rightarrow> nat \<Rightarrow> nat \<Rightarrow> bytes" where
  "secret_lanes seed m l = concat (map (\<lambda>j. le_bytes 8 (secret_lane seed j)) [m..<m + l])"

lemma length_secret_lanes [simp]: "length (secret_lanes seed m l) = 8 * l"
  by (induction l) (simp_all add: secret_lanes_def)

lemma secret_lanes_add: "secret_lanes seed 0 (m + l) = secret_lanes seed 0 m @ secret_lanes seed m l"
  using upt_add_eq_append [of 0 m l] by (simp add: secret_lanes_def)

text \<open>A buffer whose first \<open>m\<close> lanes are written; storing the following ones extends it.\<close>

definition secret_upto :: "64 word \<Rightarrow> nat \<Rightarrow> bytes \<Rightarrow> bool" where
  "secret_upto seed m dst \<longleftrightarrow> length dst = 192 \<and> take (8 * m) dst = secret_lanes seed 0 m"

lemma secret_upto_memcpy:
  assumes "secret_upto seed m dst" "m + l \<le> 24"
  shows "secret_upto seed (m + l) (memcpy_at (8 * m) (secret_lanes seed m l) dst)"
proof -
  have dst: "length dst = 192" "take (8 * m) dst = secret_lanes seed 0 m"
    using assms(1) by (simp_all add: secret_upto_def)
  have k: "8 * m \<le> length dst" using assms(2) dst(1) by simp
  have n: "8 * m + length (secret_lanes seed m l) = 8 * (m + l)" by simp
  have "take (8 * (m + l)) (memcpy_at (8 * m) (secret_lanes seed m l) dst) =
      secret_lanes seed 0 m @ secret_lanes seed m l"
    using take_memcpy_at [OF k, of "secret_lanes seed m l"] unfolding n dst(2) .
  moreover have "length (memcpy_at (8 * m) (secret_lanes seed m l) dst) = 192"
    using assms(2) dst(1) by simp
  ultimately show ?thesis by (simp add: secret_upto_def secret_lanes_add)
qed

lemma secret_upto_24: "secret_upto seed 24 dst \<Longrightarrow> dst = secret_lanes seed 0 24"
  using take_all [of dst 192] by (simp add: secret_upto_def)

lemma secret_upto_0: "length dst = 192 \<Longrightarrow> secret_upto seed 0 dst"
  by (simp add: secret_upto_def secret_lanes_def)

text \<open>One iteration of each of the loops writes the next lanes.\<close>

lemma secret_lanes_1: "secret_lanes seed m 1 = le_bytes 8 (secret_lane seed m)"
  by (simp add: secret_lanes_def)

lemma scalar_init_step:
  assumes "secret_upto seed (2 * i) dst" "i < 12"
  shows "secret_upto seed (2 * Suc i)
    (XXH_writeLE64 (16 * i + 8) (XXH_readLE64 (drop (16 * i + 8) XXH3_kSecret) - seed)
      (XXH_writeLE64 (16 * i) (XXH_readLE64 (drop (16 * i) XXH3_kSecret) + seed) dst))"
proof -
  have "secret_upto seed (2 * i + 1) (memcpy_at (8 * (2 * i)) (secret_lanes seed (2 * i) 1) dst)"
    using assms by (intro secret_upto_memcpy) simp_all
  from secret_upto_memcpy [OF this, of 1] assms(2)
  have "secret_upto seed (2 * i + 1 + 1) (memcpy_at (8 * (2 * i + 1)) (secret_lanes seed (2 * i + 1) 1)
      (memcpy_at (8 * (2 * i)) (secret_lanes seed (2 * i) 1) dst))"
    by simp
  moreover have "8 * (2 * i + 1) = 8 + 16 * i" "8 * (2 * i) = 16 * i" "2 * i + 1 + 1 = 2 * Suc i"
    by simp_all
  ultimately show ?thesis
    by (simp add: secret_lanes_1 [simplified] secret_lane_def XXH_writeLE64_def add.commute [of _ 8])
qed

lemma init_scalar_custom:
  assumes "length dst = 192"
  shows "XXH3_initCustomSecret_scalar dst seed = secret_lanes seed 0 24"
proof -
  let ?f = "\<lambda>dst i. XXH_writeLE64 (16 * i + 8) (XXH_readLE64 (drop (16 * i + 8) XXH3_kSecret) - seed)
      (XXH_writeLE64 (16 * i) (XXH_readLE64 (drop (16 * i) XXH3_kSecret) + seed) dst)"
  have "n \<le> 12 \<Longrightarrow> secret_upto seed (2 * n) (foldl ?f dst [0..<n])" for n
    by (induction n) (use scalar_init_step secret_upto_0 [OF assms] in simp_all)
  from this [of 12] show ?thesis
    by (simp add: XXH3_initCustomSecret_scalar_def Let_def secret_upto_24)
qed

lemma secret_lanes_map: "secret_lanes seed m n = concat (map (le_bytes 8) (map (\<lambda>j. secret_lane seed (m + j)) [0..<n]))"
proof -
  have "[m..<m + n] = map (\<lambda>j. m + j) [0..<n]" using map_add_upt [of m n] by (simp add: add.commute)
  then show ?thesis by (simp add: secret_lanes_def o_def)
qed

lemma vector_init_step:
  assumes "secret_upto seed (n * i) dst" "n * Suc i \<le> 24" "even n"
    and "sv = map (\<lambda>j. if even j then seed else - seed) [0..<n]"
  shows "secret_upto seed (n * Suc i) (init_body n sv dst i)"
proof -
  have "mm_add_epi64 (mm_loadu n (drop (8 * n * i) XXH3_kSecret)) sv =
      map (\<lambda>j. secret_lane seed (n * i + j)) [0..<n]"
    using assms(3,4)
    by (auto simp: mm_add_epi64_def mm_loadu_def secret_lane_def algebra_simps intro!: nth_equalityI)
  then have "init_body n sv dst i = memcpy_at (8 * (n * i)) (secret_lanes seed (n * i) n) dst"
    by (simp add: init_body_def store_vec_def secret_lanes_map mult.assoc)
  then show ?thesis using secret_upto_memcpy [OF assms(1), of n] assms(2) by (simp add: add.commute)
qed

lemma vector_init_loop:
  assumes "length dst = 192" "n * k \<le> 24" "even n"
    and "sv = map (\<lambda>j. if even j then seed else - seed) [0..<n]"
  shows "secret_upto seed (n * k) (foldl (init_body n sv) dst [0..<k])"
  using assms(2)
proof (induction k)
  case 0
  then show ?case by (simp add: secret_upto_0 [OF assms(1)])
next
  case (Suc k)
  then have "secret_upto seed (n * k) (foldl (init_body n sv) dst [0..<k])" by simp
  from vector_init_step [OF this _ assms(3,4)] Suc.prems show ?case by simp
qed

lemma init_sse2_custom:
  "length dst = 192 \<Longrightarrow> XXH3_initCustomSecret_sse2 dst seed = secret_lanes seed 0 24"
  using vector_init_loop [of dst 2 12 "[seed, 0 - seed]" seed]
  by (simp add: XXH3_initCustomSecret_sse2_def secret_upto_24 upt_2)

lemma init_avx2_custom:
  assumes "length dst = 192"
  shows "XXH3_initCustomSecret_avx2 dst seed = secret_lanes seed 0 24"
proof -
  have "[0..<6] = [0, 1, 2, 3, 4, 5 :: nat]" by code_simp
  with vector_init_loop [of dst 4 6 "[seed, 0 - seed, seed, 0 - seed]" seed] assms show ?thesis
    by (simp add: XXH3_initCustomSecret_avx2_def secret_upto_24 upt_4 Let_def)
qed

lemma init_avx512_custom:
  assumes "length dst = 192"
  shows "XXH3_initCustomSecret_avx512 dst seed = secret_lanes seed 0 24"
proof -
  have "mm512_mask_set1_epi64 (replicate 8 seed) 0xAA (0 - seed) =
      map (\<lambda>j. if even j then seed else - seed) [0..<8]"
    by (simp add: mm512_mask_set1_epi64_def upt_8 replicate_lanes)
  with vector_init_loop [of dst 8 3 _ seed] assms show ?thesis
    by (simp add: XXH3_initCustomSecret_avx512_def secret_upto_24)
qed

section \<open>Interchangeable kernels\<close>

text \<open>The kernels of the model.\<close>

definition kernels :: "xxh3_kernel set" where
  "kernels = {scalar_kernel, sse2_kernel, avx2_kernel, avx512_kernel, neon_kernel, vsx_kernel True, vsx_kernel False}"

lemma kernels_lanes:
  assumes "K \<in> kernels"
  shows "length acc = 8 \<Longrightarrow> k_accumulate K acc p s = acc_lanes acc p s"
    and "length acc = 8 \<Longrightarrow> k_scramble K acc s = scramble_lanes acc s"
    and "length dst = 192 \<Longrightarrow> k_init K dst seed = secret_lanes seed 0 24"
  using assms
  by (auto simp: kernels_def scalar_kernel_def sse2_kernel_def avx2_kernel_def avx512_kernel_def
      neon_kernel_def vsx_kernel_def accumulate_vsx_lanes scramble_vsx_lanes
      accumulate_scalar_lanes accumulate_sse2_lanes accumulate_avx2_lanes
      accumulate_avx512_lanes accumulate_neon_lanes scramble_scalar_lanes scramble_sse2_lanes
      scramble_avx2_lanes scramble_avx512_lanes scramble_neon_lanes init_scalar_custom
      init_sse2_custom init_avx2_custom init_avx512_custom)

text \<open>Each of them only reads the 64 bytes of its stripe.\<close>

lemma mm_loadu_take:
  assumes "64 \<le> length p" "8 * lanes * Suc i \<le> 64"
  shows "mm_loadu lanes (drop (8 * lanes * i) (take 64 p)) = mm_loadu lanes (drop (8 * lanes * i) p)"
proof -
  have "XXH_readLE64 (drop (8 * j) (drop (8 * lanes * i) (take 64 p))) =
      XXH_readLE64 (drop (8 * j) (drop (8 * lanes * i) p))" if "j < lanes" for j
  proof -
    have "8 * j + 8 \<le> 8 * lanes" using that by simp
    then have "8 * j + 8 * lanes * i + 8 \<le> 64" using assms(2) by simp
    then show ?thesis using XXH_readLE64_take [of "8 * j + 8 * lanes * i" 64 p] assms(1) by simp
  qed
  then show ?thesis by (simp add: mm_loadu_def)
qed

lemma accumulate_body_take:
  "64 \<le> length p \<Longrightarrow> 8 * lanes * Suc i \<le> 64 \<Longrightarrow>
   accumulate_body lanes acc (take 64 p) s i = accumulate_body lanes acc p s i"
  by (simp only: accumulate_body_def mm_loadu_take)

lemma accumulate_take:
  assumes "K \<in> kernels" "64 \<le> length p"
  shows "k_accumulate K acc (take 64 p) s = k_accumulate K acc p s"
proof -
  have r: "XXH_readLE64 (drop (8 * i) (take 64 p)) = XXH_readLE64 (drop (8 * i) p)" if "i < 8" for i
    using XXH_readLE64_take [of "8 * i" 64 p] assms(2) that by simp
  have n: "mm_loadu 2 (drop (i * 16) (take 64 p)) = mm_loadu 2 (drop (i * 16) p)" if "i < 4" for i
    using mm_loadu_take [of p 2 i] assms(2) that by (simp add: mult.commute)
  have "XXH3_accumulate_512_scalar acc (take 64 p) s = XXH3_accumulate_512_scalar acc p s"
    unfolding XXH3_accumulate_512_scalar_def by (rule foldl_cong) (simp_all add: r del: drop_take)
  moreover have "XXH3_accumulate_512_sse2 acc (take 64 p) s = XXH3_accumulate_512_sse2 acc p s"
    unfolding XXH3_accumulate_512_sse2_def
    by (rule foldl_cong) (use assms(2) in \<open>simp_all add: accumulate_body_take\<close>)
  moreover have "XXH3_accumulate_512_avx2 acc (take 64 p) s = XXH3_accumulate_512_avx2 acc p s"
    unfolding XXH3_accumulate_512_avx2_def
    by (rule foldl_cong) (use assms(2) in \<open>simp_all add: accumulate_body_take\<close>)
  moreover have "XXH3_accumulate_512_avx512 acc (take 64 p) s = XXH3_accumulate_512_avx512 acc p s"
    using assms(2) by (simp add: XXH3_accumulate_512_avx512_def accumulate_body_take)
  moreover have "XXH3_accumulate_512_neon acc (take 64 p) s = XXH3_accumulate_512_neon acc p s"
    unfolding XXH3_accumulate_512_neon_def neon_accumulate_body_def
    by (rule foldl_cong) (simp_all add: n del: drop_take)
  moreover have "XXH3_accumulate_512_vsx be acc (take 64 p) s = XXH3_accumulate_512_vsx be acc p s" for be
    unfolding XXH3_accumulate_512_vsx_def vsx_accumulate_body_def XXH_vec_loadu_eq
    by (rule foldl_cong) (use n in \<open>simp_all add: mult.commute [of _ 16] del: drop_take\<close>)
  ultimately show ?thesis
    using assms(1) by (auto simp: kernels_def scalar_kernel_def sse2_kernel_def avx2_kernel_def
        avx512_kernel_def neon_kernel_def vsx_kernel_def)
qed

text \<open>The interface of the streaming proofs, on the kernel of the program's build and the others.\<close>

interpretation scalar: stripe_kernel XXH3_accumulate_512_scalar XXH3_scrambleAcc_scalar
  by unfold_locales (use accumulate_take [of scalar_kernel] in \<open>simp add: kernels_def scalar_kernel_def\<close>)

interpretation sse2: stripe_kernel XXH3_accumulate_512_sse2 XXH3_scrambleAcc_sse2
  by unfold_locales (use accumulate_take [of sse2_kernel] in \<open>simp add: kernels_def sse2_kernel_def\<close>)

lemma kernel_stripe: "K \<in> kernels \<Longrightarrow> stripe_kernel (k_accumulate K)"
  by unfold_locales (rule accumulate_take)

lemma kernel_configured:
  "K \<in> kernels \<Longrightarrow> 136 \<le> secretSize \<Longrightarrow>
   configured_kernel (k_accumulate K) (k_scramble K) K secretSize"
  using kernel_stripe by (simp add: configured_kernel_def configured_kernel_axioms_def)

interpretation xxh3_default: configured_kernel XXH3_accumulate_512_sse2 XXH3_scrambleAcc_sse2
  sse2_kernel XXH3_kSecret XXH_SECRET_DEFAULT_SIZE 0 False
  by unfold_locales (simp_all add: sse2_kernel_def)

text \<open>The result does not depend on the kernel.\<close>

lemma length_acc_lanes [simp]: "length (acc_lanes acc p s) = 8" "length (scramble_lanes acc s) = 8"
  by (simp_all add: acc_lanes_def scramble_lanes_def)

lemma consume_kernel:
  assumes "K \<in> kernels" "length acc = 8"
  shows "consume (k_accumulate K) (k_scramble K) secret limit PB j n acc p =
      consume acc_lanes scramble_lanes secret limit PB j n acc p"
    and "length (consume acc_lanes scramble_lanes secret limit PB j n acc p) = 8"
proof -
  have "consume (k_accumulate K) (k_scramble K) secret limit PB j n acc p =
      consume acc_lanes scramble_lanes secret limit PB j n acc p \<and>
    length (consume acc_lanes scramble_lanes secret limit PB j n acc p) = 8"
    using assms(2)
  proof (induction n arbitrary: j acc p)
    case (Suc n)
    have s: "stripe_step (k_accumulate K) (k_scramble K) secret limit PB j acc p =
        stripe_step acc_lanes scramble_lanes secret limit PB j acc p"
      and l: "length (stripe_step acc_lanes scramble_lanes secret limit PB j acc p) = 8"
      using Suc.prems by (simp_all add: stripe_step_def Let_def kernels_lanes [OF assms(1)])
    show ?case using Suc.IH [OF l] by (simp add: s)
  qed simp
  then show "consume (k_accumulate K) (k_scramble K) secret limit PB j n acc p =
      consume acc_lanes scramble_lanes secret limit PB j n acc p"
    and "length (consume acc_lanes scramble_lanes secret limit PB j n acc p) = 8" by simp_all
qed

lemma long_accs_kernel:
  assumes "K \<in> kernels"
  shows "long_accs (k_accumulate K) (k_scramble K) secret n XXH3_INIT_ACC data =
    long_accs acc_lanes scramble_lanes secret n XXH3_INIT_ACC data"
proof -
  have "length XXH3_INIT_ACC = 8" by (simp add: XXH3_INIT_ACC_def)
  then show ?thesis
    using consume_kernel [OF assms] by (simp add: long_accs_def kernels_lanes(1) [OF assms])
qed

lemma XXH3_of_kernel:
  assumes "K \<in> kernels" "K' \<in> kernels"
  shows "XXH3_of K secret n seed u data = XXH3_of K' secret n seed u data"
proof -
  have "XXH3_64bits_internal data (length data) sd sec k f = XXH3_64bits_internal data (length data) sd sec k g"
    if "length data \<le> 240" for sd sec k f g
    using that by (simp add: XXH3_64bits_internal_def)
  then have "XXH3_64bits_withSeed K data (length data) seed = XXH3_64bits_withSeed K' data (length data) seed"
    "XXH3_64bits_withSecret K data (length data) secret n = XXH3_64bits_withSecret K' data (length data) secret n"
    if "length data \<le> 240"
    using that by (simp_all add: XXH3_64bits_withSeed_def XXH3_64bits_withSecret_def)
  then show ?thesis
    using long_accs_kernel [OF assms(1)] long_accs_kernel [OF assms(2)] by (simp add: XXH3_of_def)
qed

section \<open>The one-shot functions\<close>

lemma hashLong_kernel:
  assumes "K \<in> kernels" "136 \<le> n" "240 < length data"
  shows "XXH3_hashLong_64b_internal (data @ rest) (length data) secret n (k_accumulate K) (k_scramble K) =
    XXH3_of K secret n seed u data"
  using configured_kernel.one_shot_long [OF kernel_configured [OF assms(1,2)] assms(3)] by simp

lemma XXH3_64bits_internal_short:
  "length data \<le> 240 \<Longrightarrow>
   XXH3_64bits_internal (data @ rest) (length data) seed s n f = XXH3_64bits_internal data (length data) seed s n g"
  by (rule XXH3_64bits_internal_append)

lemma XXH3_64bits_internal_long:
  "240 < len \<Longrightarrow> XXH3_64bits_internal input len seed s n f = f input len seed s n"
  by (simp add: XXH3_64bits_internal_def)

lemma withSecret_eq:
  assumes "K \<in> kernels" "136 \<le> n"
  shows "XXH3_64bits_withSecret K (data @ rest) (length data) secret n = XXH3_of K secret n 0 False data"
proof (cases "240 < length data")
  case True
  then show ?thesis
    using hashLong_kernel [OF assms True]
    by (simp add: XXH3_64bits_withSecret_def XXH3_64bits_internal_long XXH3_hashLong_64b_withSecret_def)
next
  case False
  then show ?thesis
    using XXH3_64bits_internal_short [of data rest]
    by (simp add: XXH3_of_def XXH3_64bits_withSecret_def)
qed

lemma XXH3_64bits_eq:
  assumes "K \<in> kernels"
  shows "XXH3_64bits K (data @ rest) (length data) = XXH3_of K XXH3_kSecret 192 0 False data"
proof (cases "240 < length data")
  case True
  then show ?thesis
    using hashLong_kernel [OF assms _ True]
    by (simp add: XXH3_64bits_def XXH3_64bits_internal_long XXH3_hashLong_64b_default_def)
next
  case False
  then show ?thesis
    using XXH3_64bits_internal_short [of data rest]
    by (simp add: XXH3_of_def XXH3_64bits_withSecret_def XXH3_64bits_def)
qed

lemma withSeed_eq:
  assumes "K \<in> kernels" "seed \<noteq> 0"
  shows "XXH3_64bits_withSeed K (data @ rest) (length data) seed =
    XXH3_of K (secret_lanes seed 0 24) 192 seed True data"
proof (cases "240 < length data")
  case True
  then show ?thesis
    using hashLong_kernel [OF assms(1) _ True] assms(2)
    by (simp add: XXH3_64bits_withSeed_def XXH3_64bits_internal_long XXH3_hashLong_64b_withSeed_def
        XXH3_hashLong_64b_withSeed_internal_def kernels_lanes(3) [OF assms(1)])
next
  case False
  then show ?thesis
    using XXH3_64bits_internal_short [of data rest]
    by (simp add: XXH3_of_def XXH3_64bits_withSeed_def)
qed

lemma withSeed_0_eq:
  assumes "K \<in> kernels"
  shows "XXH3_64bits_withSeed K (data @ rest) (length data) 0 = XXH3_of K XXH3_kSecret 192 0 False data"
proof (cases "240 < length data")
  case True
  then show ?thesis
    using hashLong_kernel [OF assms(1) _ True]
    by (simp add: XXH3_64bits_withSeed_def XXH3_64bits_internal_long XXH3_hashLong_64b_withSeed_def
        XXH3_hashLong_64b_withSeed_internal_def)
next
  case False
  then show ?thesis
    using XXH3_64bits_internal_short [of data rest]
    by (simp add: XXH3_of_def XXH3_64bits_withSeed_def XXH3_64bits_withSecret_def)
qed

lemma withSecretandSeed_eq:
  assumes "K \<in> kernels" "136 \<le> n"
  shows "XXH3_64bits_withSecretandSeed K (data @ rest) (length data) secret n seed =
    XXH3_of K secret n seed True data"
proof (cases "240 < length data")
  case True
  then show ?thesis
    using hashLong_kernel [OF assms True]
    by (simp add: XXH3_64bits_withSecretandSeed_def XXH3_hashLong_64b_withSecret_def)
next
  case False
  then show ?thesis
    using XXH3_64bits_internal_short [of data rest]
    by (simp add: XXH3_of_def XXH3_64bits_withSecretandSeed_def XXH3_64bits_withSeed_def)
qed

section \<open>Streaming\<close>

text \<open>A state with the array sizes of the declaration.\<close>

definition state_shape :: "XXH3_state \<Rightarrow> bool" where
  "state_shape s \<longleftrightarrow> length (st_buffer s) = 256 \<and> length (st_customSecret s) = 192"

definition feed :: "xxh3_kernel \<Rightarrow> bytes list \<Rightarrow> XXH3_state \<Rightarrow> XXH3_state" where
  "feed K xs s = foldl (\<lambda>s x. snd (XXH3_64bits_update K s (Some x) (length x))) s xs"

context configured_kernel
begin

lemma chunks_digest:
  "XXH3_fed fa fs secret secretSize seed useSeed s [] \<Longrightarrow> length (concat xs) < 2 ^ 64 \<Longrightarrow>
   XXH3_64bits_digest K (foldl (\<lambda>s x. snd (XXH3_64bits_update K s (Some x) (length x))) s xs) =
   XXH3_of K secret secretSize seed useSeed (concat xs)"
  by (rule stream.digest_of_chunks)

end

lemma feed_digest:
  assumes K: "K \<in> kernels" and n: "136 \<le> n" and len: "length (concat xs) < 2 ^ 64"
    and fed: "XXH3_fed (k_accumulate K) (k_scramble K) secret n seed u s []"
  shows "XXH3_64bits_digest K (feed K xs s) = XXH3_of K secret n seed u (concat xs)"
  using configured_kernel.chunks_digest [OF kernel_configured [OF K n] fed len]
  by (simp add: feed_def)

lemma reset_default_fed:
  assumes "state_shape s0" "XXH3_64bits_reset (Some s0) = (c, Some s)"
  shows "c = XXH_OK \<and> XXH3_fed fa fs XXH3_kSecret 192 0 False s []"
  using assms reset_internal_fed [of 192 s0 XXH3_kSecret "Some XXH3_kSecret" fa fs 0]
  by (auto simp: XXH3_64bits_reset_def state_shape_def)

text \<open>
  \<open>XXH3_64bits_reset_withSeed\<close> does not derive the secret again when the state seems to hold the
  one for this seed already; then it must.
\<close>

definition secret_current :: "64 word \<Rightarrow> XXH3_state \<Rightarrow> bool" where
  "secret_current seed s \<longleftrightarrow>
     (st_seed s = seed \<and> st_extSecret s = None \<and> seed \<noteq> 0 \<longrightarrow>
      st_customSecret s = secret_lanes seed 0 24)"

lemma reset_withSeed_fed:
  assumes K: "K \<in> kernels" and s0: "state_shape s0" "secret_current seed s0" and seed: "seed \<noteq> 0"
    and r: "XXH3_64bits_reset_withSeed K (Some s0) seed = (c, Some s)"
  shows "c = XXH_OK \<and> XXH3_fed fa fs (secret_lanes seed 0 24) 192 seed True s []"
proof -
  define s1 where "s1 = (if seed \<noteq> st_seed s0 \<or> st_extSecret s0 \<noteq> None
    then s0\<lparr>st_customSecret := k_init K (st_customSecret s0) seed\<rparr> else s0)"
  have "st_customSecret s1 = secret_lanes seed 0 24" "length (st_buffer s1) = 256"
    using s0 seed kernels_lanes(3) [OF K, of "st_customSecret s0" seed]
    by (auto simp: s1_def state_shape_def secret_current_def)
  moreover have "c = XXH_OK" "s = XXH3_reset_internal s1 seed None 192"
    using r seed by (auto simp: XXH3_64bits_reset_withSeed_def s1_def Let_def)
  ultimately show ?thesis
    using reset_internal_fed [of 192 s1 "secret_lanes seed 0 24" None fa fs seed] seed by simp
qed

text \<open>The four ways to configure a state, and the one-shot function that goes with each.\<close>

datatype config_kind = Default | Secret bytes nat | Seed "64 word" | Secret_and_Seed bytes nat "64 word"

fun reset_by :: "xxh3_kernel \<Rightarrow> config_kind \<Rightarrow> XXH3_state option \<Rightarrow> reset_result" where
  "reset_by K Default s = XXH3_64bits_reset s"
| "reset_by K (Secret secret n) s = XXH3_64bits_reset_withSecret s (Some secret) n"
| "reset_by K (Seed seed) s = XXH3_64bits_reset_withSeed K s seed"
| "reset_by K (Secret_and_Seed secret n seed) s =
     XXH3_64bits_reset_withSecretandSeed s (Some secret) n seed"

fun one_shot_by :: "xxh3_kernel \<Rightarrow> config_kind \<Rightarrow> bytes \<Rightarrow> nat \<Rightarrow> 64 word" where
  "one_shot_by K Default p len = XXH3_64bits K p len"
| "one_shot_by K (Secret secret n) p len = XXH3_64bits_withSecret K p len secret n"
| "one_shot_by K (Seed seed) p len = XXH3_64bits_withSeed K p len seed"
| "one_shot_by K (Secret_and_Seed secret n seed) p len =
     XXH3_64bits_withSecretandSeed K p len secret n seed"

fun config_secret :: "config_kind \<Rightarrow> bytes \<times> nat \<times> 64 word \<times> bool" where
  "config_secret Default = (XXH3_kSecret, 192, 0, False)"
| "config_secret (Secret secret n) = (secret, n, 0, False)"
| "config_secret (Seed seed) =
     (if seed = 0 then (XXH3_kSecret, 192, 0, False) else (secret_lanes seed 0 24, 192, seed, True))"
| "config_secret (Secret_and_Seed secret n seed) = (secret, n, seed, True)"

lemma reset_by_fed:
  assumes K: "K \<in> kernels" and s0: "state_shape s0" "\<And>seed. secret_current seed s0"
    and r: "reset_by K c (Some s0) = (XXH_OK, Some s)"
    and c: "config_secret c = (secret, n, seed, u)"
  shows "136 \<le> n \<and> XXH3_fed fa fs secret n seed u s []"
proof (cases c)
  case Default
  with reset_default_fed [OF s0(1), of XXH_OK s fa fs] r c show ?thesis by auto
next
  case (Secret sec k)
  with r have "136 \<le> k" "s = XXH3_reset_internal s0 0 (Some sec) k"
    by (auto simp: XXH3_64bits_reset_withSecret_def Let_def split: if_splits)
  with Secret c s0(1) reset_internal_fed [of k s0 sec "Some sec" fa fs 0] show ?thesis
    by (auto simp: state_shape_def)
next
  case (Seed sd)
  show ?thesis
  proof (cases "sd = 0")
    case True
    with Seed r have "XXH3_64bits_reset (Some s0) = (XXH_OK, Some s)"
      by (simp add: XXH3_64bits_reset_withSeed_def)
    with reset_default_fed [OF s0(1), of XXH_OK s fa fs] Seed True c show ?thesis by auto
  next
    case False
    with reset_withSeed_fed [OF K s0(1,2), of sd XXH_OK s fa fs] Seed r c show ?thesis by auto
  qed
next
  case (Secret_and_Seed sec k sd)
  with r have "136 \<le> k" "s = (XXH3_reset_internal s0 sd (Some sec) k)\<lparr>st_useSeed := 1\<rparr>"
    by (auto simp: XXH3_64bits_reset_withSecretandSeed_def split: if_splits)
  with Secret_and_Seed c s0(1) reset_internal_useSeed_fed [of k s0 fa fs sec sd] show ?thesis
    by (auto simp: state_shape_def)
qed

lemma one_shot_by_eq:
  assumes "K \<in> kernels" "config_secret c = (secret, n, seed, u)" "136 \<le> n"
  shows "one_shot_by K c (data @ rest) (length data) = XXH3_of K secret n seed u data"
  using assms
  by (cases c) (auto simp: XXH3_64bits_eq withSecret_eq withSeed_eq withSeed_0_eq
      withSecretandSeed_eq split: if_splits)

text \<open>
  The states a client can have: created, then configured and fed any number of times, with
  any kernel.
\<close>

inductive usable :: "xxh3_kernel \<Rightarrow> XXH3_state \<Rightarrow> bool" for K where
  created: "state_shape raw \<Longrightarrow> XXH3_createState (Some raw) = Some s \<Longrightarrow> usable K s"
| session: "usable K s \<Longrightarrow> reset_by K c (Some s) = (XXH_OK, Some t) \<Longrightarrow> usable K (feed K xs t)"

lemma feed_keeps:
  "st_seed (feed K xs s) = st_seed s \<and> st_extSecret (feed K xs s) = st_extSecret s \<and>
   st_customSecret (feed K xs s) = st_customSecret s"
proof (induction xs arbitrary: s)
  case (Cons x xs)
  have "st_seed (snd (XXH3_64bits_update K s (Some x) (length x))) = st_seed s \<and>
    st_extSecret (snd (XXH3_64bits_update K s (Some x) (length x))) = st_extSecret s \<and>
    st_customSecret (snd (XXH3_64bits_update K s (Some x) (length x))) = st_customSecret s"
    by (auto simp: XXH3_64bits_update_def XXH3_update_def Let_def split: prod.splits)
  with Cons show ?case by (simp add: feed_def)
qed (simp add: feed_def)

lemma feed_fed:
  assumes "K \<in> kernels" "136 \<le> n" "XXH3_fed (k_accumulate K) (k_scramble K) secret n seed u s data"
  shows "XXH3_fed (k_accumulate K) (k_scramble K) secret n seed u (feed K xs s) (data @ concat xs)"
  using assms(3)
proof (induction xs arbitrary: s data)
  case (Cons x xs)
  have "XXH3_fed (k_accumulate K) (k_scramble K) secret n seed u
      (snd (XXH3_64bits_update K s (Some x) (length x))) (data @ x)"
    using configured_kernel.K_update_fed [OF kernel_configured [OF assms(1,2)] Cons.prems] .
  from Cons.IH [OF this] show ?case by (simp add: feed_def)
qed (simp add: feed_def)

lemma reset_by_custom:
  assumes "K \<in> kernels" "state_shape s" "\<And>seed. secret_current seed s"
    and "reset_by K c (Some s) = (XXH_OK, Some t)"
  shows "length (st_customSecret t) = 192 \<and> secret_current seed t"
proof -
  have k: "length (k_init K (st_customSecret s) sd) = 192"
    "k_init K (st_customSecret s) sd = secret_lanes sd 0 24" for sd
    using assms(2) kernels_lanes(3) [OF assms(1), of "st_customSecret s"]
    by (auto simp: state_shape_def)
  show ?thesis
    using assms(2-4) k
    by (cases c) (auto simp: XXH3_64bits_reset_def XXH3_64bits_reset_withSecret_def
        XXH3_64bits_reset_withSeed_def XXH3_64bits_reset_withSecretandSeed_def Let_def
        XXH3_reset_internal_def secret_current_def state_shape_def split: if_splits)
qed

lemma usable_invariant:
  assumes "usable K s" "K \<in> kernels"
  shows "state_shape s \<and> (\<forall>seed. secret_current seed s)"
  using assms(1)
proof (induction rule: usable.induct)
  case (created raw s)
  then show ?case by (auto simp: XXH3_createState_def state_shape_def secret_current_def)
next
  case (session s c t xs)
  obtain secret n seed u where c: "config_secret c = (secret, n, seed, u)" by (metis prod_cases4)
  from session.IH have s: "state_shape s" "\<And>seed. secret_current seed s" by auto
  from reset_by_fed [OF assms(2) s session.hyps(2) c, of "k_accumulate K" "k_scramble K"]
  have "XXH3_fed (k_accumulate K) (k_scramble K) secret n seed u (feed K xs t) (concat xs)"
    using feed_fed [OF assms(2), of n secret seed u t "[]" xs] by simp
  then have "length (st_buffer (feed K xs t)) = 256" by (auto simp: XXH3_fed_def buffered_def)
  with reset_by_custom [OF assms(2) s session.hyps(2)] feed_keeps [of K xs t] show ?case
    by (auto simp: state_shape_def secret_current_def)
qed

text \<open>The hash of \<^verbatim>\<open>abc\<close>, computed.\<close>

lemma XXH3_test_vector: "XXH3_64bits scalar_kernel [0x61, 0x62, 0x63] 3 = 0x78AF5F94892F3950"
  by code_simp

definition raw_state :: XXH3_state where
  "raw_state = \<lparr>st_acc = [], st_customSecret = replicate 192 7, st_buffer = replicate 256 9,
     st_bufferedSize = 3, st_useSeed = 1, st_nbStripesSoFar = 5, st_totalLen = 8,
     st_nbStripesPerBlock = 1, st_secretLimit = 0, st_seed = 0, st_extSecret = None\<rparr>"

lemma raw_state_usable: "usable K raw_state"
  by (rule usable.created [of raw_state]) (simp_all add: state_shape_def XXH3_createState_def raw_state_def)

lemma streaming_one_shot:
  assumes "usable K s" "K \<in> kernels" "K' \<in> kernels"
    and "reset_by K c (Some s) = (XXH_OK, Some t)" "length (concat xs) < 2 ^ 64"
  shows "XXH3_64bits_digest K (feed K xs t) = one_shot_by K' c (concat xs @ rest) (length (concat xs))"
proof -
  obtain secret n seed u where c: "config_secret c = (secret, n, seed, u)" by (metis prod_cases4)
  from usable_invariant [OF assms(1,2)] have s: "state_shape s" "\<And>seed. secret_current seed s"
    by auto
  note fed = reset_by_fed [OF assms(2) s assms(4) c, of "k_accumulate K" "k_scramble K"]
  have "XXH3_64bits_digest K (feed K xs t) = XXH3_of K secret n seed u (concat xs)"
    using feed_digest [OF assms(2) _ assms(5)] fed by blast
  also have "\<dots> = XXH3_of K' secret n seed u (concat xs)"
    by (rule XXH3_of_kernel [OF assms(2,3)])
  also have "\<dots> = one_shot_by K' c (concat xs @ rest) (length (concat xs))"
    using one_shot_by_eq [OF assms(3) c] fed by simp
  finally show ?thesis .
qed

section \<open>Properties\<close>

text \<open>
  (C26) The streaming XXH3 is the one-shot XXH3: after any history of a state, configuring it in any
  of the four ways (default, secret, seed, secret and seed) and feeding it an input in any pieces
  gives the digest the matching one-shot function computes of the whole input, whatever
  follows the input in memory and whichever kernels the two are compiled with.
\<close>

theorem XXH3_streaming:
  assumes "usable K s" "K \<in> kernels" "K' \<in> kernels"
    and "reset_by K c (Some s) = (XXH_OK, Some t)" "length (concat xs) < 2 ^ 64"
  shows "XXH3_64bits_digest K (feed K xs t) = one_shot_by K' c (concat xs @ rest) (length (concat xs))"
  using assms by (rule streaming_one_shot)

theorem XXH3_streaming_witness:
  "XXH3_64bits_digest sse2_kernel (feed sse2_kernel [[0x61], [], [0x62, 0x63]]
     (XXH3_reset_internal raw_state 0 (Some XXH3_kSecret) 192)) = 0x78AF5F94892F3950"
  using XXH3_streaming [OF raw_state_usable, of sse2_kernel scalar_kernel Default
      "XXH3_reset_internal raw_state 0 (Some XXH3_kSecret) 192" "[[0x61], [], [0x62, 0x63]]" "[]"]
    XXH3_test_vector
  by (simp add: kernels_def XXH3_64bits_reset_def numeral_3_eq_3)

text \<open>
  (C36) The SSE2, AVX2, AVX-512, NEON and VSX kernels compute what the scalar kernel computes: on any
  stripe, any secret and any eight accumulators, and on any secret buffer.
\<close>

theorem XXH3_kernels_agree:
  assumes "K \<in> {sse2_kernel, avx2_kernel, avx512_kernel, neon_kernel, vsx_kernel True, vsx_kernel False}"
    and "length acc = 8" "length dst = 192"
  shows "k_accumulate K acc p s = XXH3_accumulate_512_scalar acc p s \<and>
    k_scramble K acc s = XXH3_scrambleAcc_scalar acc s \<and>
    k_init K dst seed = XXH3_initCustomSecret_scalar dst seed"
proof -
  have "K \<in> kernels" using assms(1) by (auto simp: kernels_def)
  with assms(2,3) show ?thesis
    by (simp add: kernels_lanes accumulate_scalar_lanes scramble_scalar_lanes init_scalar_custom)
qed

theorem XXH3_kernels_agree_witness:
  "k_scramble sse2_kernel [1, 2, 3, 4, 5, 6, 7, 8] XXH3_kSecret =
   XXH3_scrambleAcc_scalar [1, 2, 3, 4, 5, 6, 7, 8] XXH3_kSecret"
  using XXH3_kernels_agree [of sse2_kernel "[1, 2, 3, 4, 5, 6, 7, 8]" "replicate 192 0"] by simp

text \<open>
  Without a 128-bit integer type, \<open>XXH_mult64to128\<close> multiplies 32-bit halves; no carry is lost.
\<close>

theorem mult64to128_variants: "XXH_mult64to128_portable lhs rhs = XXH_mult64to128 lhs rhs"
  by (rule mult64to128_portable)

text \<open>
  The readers that copy memory and swap bytes where needed read the same numbers as the
  byte-wise readers, on machines of either byte order.
\<close>

theorem readers_agree:
  assumes "8 \<le> length p"
  shows "XXH_readLE32_memcpy le p = XXH_readLE32 p \<and> XXH_readBE32_memcpy le p = XXH_readBE32 p \<and>
    XXH_readLE64_memcpy le p = XXH_readLE64 p \<and> XXH_readBE64_memcpy le p = XXH_readBE64 p \<and>
    XXH_readLE32_align p align = XXH_readLE32 p \<and> XXH_readLE64_align p align = XXH_readLE64 p"
  using assms by (simp add: XXH_readLE32_memcpy_eq XXH_readBE32_memcpy_eq XXH_readLE64_memcpy_eq
      XXH_readBE64_memcpy_eq XXH_readLE32_align_eq XXH_readLE64_align_eq)

theorem readers_agree_witness:
  "XXH_readBE32_memcpy True [1, 2, 3, 4, 5, 6, 7, 8] = XXH_readBE32 [1, 2, 3, 4, 5, 6, 7, 8]"
  using readers_agree [of "[1, 2, 3, 4, 5, 6, 7, 8]"] by simp

end
