(* ===== verification/Query_Builder.thy ===== *)
theory Query_Builder
  imports Buffered_Reader Cli Tasks Sql Hash_Room Floats Xxh3_Kernels
begin

text \<open>
  Class \<open>QueryBuilder\<close> of \<^verbatim>\<open>src/src/query_builder.h\<close> and \<^verbatim>\<open>src/src/query_builder.cpp\<close>: it
  turns the CSV files of a table into SQL statements, remembers the hashes of the keys it
  has seen in a shared memory segment, and records there how far the statements were
  committed, so that a new process can resume.

  The segment is what survives the process: the hash set and the committed position, each
  absent until it is constructed.  The builder's pointers into the segment are fields of
  its state, and \<open>segment_of\<close> reads the segment back.  \<open>lim\<close> bounds the allocations of the
  segment, \<open>open_file\<close> is \<open>fopen\<close>, and \<open>allocated\<close> the memory \<open>XXH3_createState\<close> gets (it is
  built with the SSE2 kernel, as x86-64 compilers select it).  A moved-from \<open>std::string\<close> is
  empty, as in libstdc++.  The members \<open>tmp_handle_idx\<close> and \<open>tmp_offset\<close> are not initialised
  by the constructor; they are read only after \<open>next_query\<close> has set them, and start as 0
  here.
\<close>

section \<open>State and construction\<close>

record shm_segment =
  seg_inserted :: "flat_hash_set option"
  seg_committed_handle_idx :: "8 word option"
  seg_committed_offset :: "int option"

record query_builder =
  hash_state :: "XXH3_state option"
  qb_field_names :: "string list"
  qb_unique_mask :: "16 word"
  qb_float_mask :: "16 word"
  qb_table :: string
  handle_idx :: "8 word"
  csv_handles :: "reader list"
  inserted :: flat_hash_set
  tmp_record :: "string list"
  tmp_handle_idx :: "8 word"
  tmp_offset :: int
  committed_handle_idx :: "8 word"
  committed_offset :: int
  insert_if_not_exists_stmt :: string

definition mem_id :: "TableTask \<Rightarrow> string" where
  "mem_id t = db t @ ''.'' @ table t"

definition segment_of :: "query_builder \<Rightarrow> shm_segment" where
  "segment_of qb =
     \<lparr>seg_inserted = Some (inserted qb), seg_committed_handle_idx = Some (committed_handle_idx qb),
      seg_committed_offset = Some (committed_offset qb)\<rparr>"

definition QueryBuilder ::
  "nat \<Rightarrow> XXH3_state option \<Rightarrow> (string \<Rightarrow> c_file option) \<Rightarrow> (string \<Rightarrow> shm_segment) \<Rightarrow> TableTask \<Rightarrow>
   query_builder res" where
  "QueryBuilder lim allocated open_file shm t =
     (let handles = map (\<lambda>c. BufferedReader (open_file c)) (csvs t);
          segment = shm (mem_id t);
          found = (case seg_inserted segment of None \<Rightarrow> empty_set_table | Some s \<Rightarrow> s)
      in rbind (reserve lim found INSERTED_TABLE_RESERVED_SIZE) (\<lambda>ins.
        let chi = (case seg_committed_handle_idx segment of None \<Rightarrow> 0 | Some i \<Rightarrow> i);
            cof = (case seg_committed_offset segment of None \<Rightarrow> 0 | Some off \<Rightarrow> off)
        in rbind (at handles (unat chi)) (\<lambda>h. rbind (seek cof h) (\<lambda>h.
          Inr \<lparr>hash_state = XXH3_createState allocated,
               qb_field_names = field_names (ddl_info t), qb_unique_mask = unique_mask (ddl_info t),
               qb_float_mask = float_mask (ddl_info t), qb_table = table t,
               handle_idx = chi, csv_handles = handles[unat chi := h], inserted = ins,
               tmp_record = [], tmp_handle_idx = 0, tmp_offset = 0,
               committed_handle_idx = chi, committed_offset = cof,
               insert_if_not_exists_stmt = []\<rparr>))))"

section \<open>Reading and hashing a record\<close>

text \<open>The loop of \<open>next_record\<close>: \<open>n\<close> fields from field \<open>i\<close> on.\<close>

fun read_fields :: "16 word \<Rightarrow> nat \<Rightarrow> nat \<Rightarrow> reader \<Rightarrow> string list \<Rightarrow> (string list \<times> reader) res" where
  "read_fields fm 0 i h values = Inr (values, h)"
| "read_fields fm (Suc n) i h values =
     rbind (get_value h) (\<lambda>(v, h).
     rbind (mask_bit fm i) (\<lambda>b.
     rbind (if b then normalize_float v else Inr v) (\<lambda>v.
       read_fields fm n (Suc i) h (values @ [v]))))"

definition read_record :: "query_builder \<Rightarrow> (string list \<times> query_builder) res" where
  "read_record qb =
     rbind (at (csv_handles qb) (unat (handle_idx qb))) (\<lambda>h.
     rbind (read_fields (qb_float_mask qb) (length (qb_field_names qb)) 0 h []) (\<lambda>(values, h).
       Inr (values, qb\<lparr>csv_handles := (csv_handles qb)[unat (handle_idx qb) := h]\<rparr>)))"

definition next_record :: "query_builder \<Rightarrow> (string list \<times> query_builder) res" where
  "next_record qb =
     rbind (at (csv_handles qb) (unat (handle_idx qb))) (\<lambda>h.
     rbind (peek h) (\<lambda>(c, h).
       let qb = qb\<lparr>csv_handles := (csv_handles qb)[unat (handle_idx qb) := h]\<rparr> in
       if char_int c = -1
       then let qb = qb\<lparr>handle_idx := handle_idx qb + 1\<rparr> in
            if unat (handle_idx qb) = length (csv_handles qb)
            then Inr ([], qb\<lparr>handle_idx := handle_idx qb - 1\<rparr>)
            else read_record qb
       else read_record qb))"

definition string_bytes :: "string \<Rightarrow> bytes" where
  "string_bytes s = map of_char s"

fun hash_fields :: "16 word \<Rightarrow> nat \<Rightarrow> string list \<Rightarrow> XXH3_state \<Rightarrow> XXH3_state res" where
  "hash_fields um i [] s = Inr s"
| "hash_fields um i (v # vs) s =
     rbind (mask_bit um i) (\<lambda>b.
       hash_fields um (Suc i) vs
         (if b then snd (XXH3_64bits_update sse2_kernel s (Some (string_bytes v)) (length (string_bytes v)))
          else s))"

definition hash_record :: "query_builder \<Rightarrow> string list \<Rightarrow> (64 word \<times> query_builder) res" where
  "hash_record qb rec =
     (case snd (XXH3_64bits_reset (hash_state qb)) of
        None \<Rightarrow> Inl Null_Deref
      | Some s \<Rightarrow>
          rbind (hash_fields (qb_unique_mask qb) 0 rec s) (\<lambda>s.
            Inr (XXH3_64bits_digest sse2_kernel s, qb\<lparr>hash_state := Some s\<rparr>)))"

section \<open>\<open>next_query\<close> and \<open>commit\<close>\<close>

text \<open>
  The loop that collects records: it ends at the end of the input, when the batch is full,
  or at a record whose key was seen before, which goes to \<open>tmp_record\<close>.
\<close>

datatype batch =
    No_More query_builder
  | Batch "string list list" query_builder

function collect :: "nat \<Rightarrow> string list list \<Rightarrow> query_builder \<Rightarrow> batch res" where
  "collect lim records qb =
     (if length records \<le> INSERT_NUM_TUPLES
      then let rec_handle_idx = handle_idx qb in
        rbind (at (csv_handles qb) (unat (handle_idx qb))) (\<lambda>h.
        let rec_offset = offset h in
        rbind (next_record qb) (\<lambda>(rec, qb).
          if rec = [] then Inr (No_More qb)
          else rbind (hash_record qb rec) (\<lambda>(hash, qb).
            rbind (contains (inserted qb) hash) (\<lambda>seen.
              if \<not> seen
              then rbind (insert_key lim (inserted qb) hash) (\<lambda>ins.
                collect lim (records @ [rec]) (qb\<lparr>inserted := ins\<rparr>))
              else Inr (Batch records
                (qb\<lparr>tmp_record := rec, tmp_handle_idx := rec_handle_idx, tmp_offset := rec_offset\<rparr>))))))
      else Inr (Batch records qb))"
  by pat_completeness auto
termination by (relation "measure (\<lambda>(lim, records, qb). Suc INSERT_NUM_TUPLES - length records)") auto

declare collect.simps [simp del]

text \<open>The statements after the label \<open>elze\<close>.\<close>

definition update_query :: "query_builder \<Rightarrow> (string \<times> query_builder) res" where
  "update_query qb =
     rbind (make_update_statement (qb_table qb) (qb_field_names qb) (qb_unique_mask qb) (tmp_record qb)) (\<lambda>ret.
     rbind (make_insert_where_not_exists_statement (qb_table qb) (qb_field_names qb) (qb_unique_mask qb)
              (tmp_record qb)) (\<lambda>stmt.
       Inr (ret, qb\<lparr>insert_if_not_exists_stmt := stmt, tmp_record := []\<rparr>)))"

definition next_query :: "nat \<Rightarrow> query_builder \<Rightarrow> (string \<times> query_builder) res" where
  "next_query lim qb =
     (if insert_if_not_exists_stmt qb \<noteq> []
      then Inr (insert_if_not_exists_stmt qb, qb\<lparr>insert_if_not_exists_stmt := []\<rparr>)
      else if tmp_record qb = []
      then rbind (collect lim [] qb) (\<lambda>b.
        case b of
          No_More qb \<Rightarrow> Inr ([], qb)
        | Batch records qb \<Rightarrow>
            if records = [] then update_query qb
            else rbind (make_insert_statement (qb_table qb) records) (\<lambda>ret. Inr (ret, qb)))
      else update_query qb)"

definition commit :: "query_builder \<Rightarrow> query_builder res" where
  "commit qb =
     (if insert_if_not_exists_stmt qb \<noteq> [] then Inr qb
      else if tmp_record qb = []
      then rbind (at (csv_handles qb) (unat (handle_idx qb))) (\<lambda>h.
        Inr (qb\<lparr>committed_handle_idx := handle_idx qb, committed_offset := offset h\<rparr>))
      else Inr (qb\<lparr>committed_handle_idx := tmp_handle_idx qb, committed_offset := tmp_offset qb\<rparr>))"


section \<open>The key of a record\<close>

text \<open>The bytes that are hashed: the key fields one after another, without a separator.\<close>

fun key_fields :: "16 word \<Rightarrow> nat \<Rightarrow> string list \<Rightarrow> string list" where
  "key_fields um i [] = []"
| "key_fields um i (v # vs) = (if bit um i then v # key_fields um (Suc i) vs else key_fields um (Suc i) vs)"

definition key_bytes :: "16 word \<Rightarrow> string list \<Rightarrow> bytes" where
  "key_bytes um rec = string_bytes (concat (key_fields um 0 rec))"

definition key_hash :: "16 word \<Rightarrow> string list \<Rightarrow> 64 word" where
  "key_hash um rec = XXH3_64bits sse2_kernel (key_bytes um rec) (length (key_bytes um rec))"

lemma concat_string_bytes: "concat (map string_bytes vs) = string_bytes (concat vs)"
  by (induction vs) (simp_all add: string_bytes_def)

lemma hash_fields_feed:
  "i + length rec \<le> 32 \<Longrightarrow>
     hash_fields um i rec s = Inr (feed sse2_kernel (map string_bytes (key_fields um i rec)) s)"
  by (induction rec arbitrary: i s) (auto simp: mask_bit_eq feed_def)

lemma sse2_in_kernels: "sse2_kernel \<in> kernels"
  by (simp add: kernels_def)

lemma hash_record_key:
  assumes "hash_state qb = Some s" and "usable sse2_kernel s" and "length rec \<le> 32"
    and "length (key_bytes (qb_unique_mask qb) rec) < 2 ^ 64"
  shows "\<exists>s'. hash_record qb rec = Inr (key_hash (qb_unique_mask qb) rec, qb\<lparr>hash_state := Some s'\<rparr>) \<and>
    usable sse2_kernel s'"
proof -
  let ?xs = "map string_bytes (key_fields (qb_unique_mask qb) 0 rec)"
  obtain t where t: "XXH3_64bits_reset (Some s) = (XXH_OK, Some t)"
    by (simp add: XXH3_64bits_reset_def)
  have c: "concat ?xs = key_bytes (qb_unique_mask qb) rec"
    by (simp add: key_bytes_def concat_string_bytes)
  have "usable sse2_kernel (feed sse2_kernel ?xs t)"
    using usable.session [OF assms(2), of Default t ?xs] t by simp
  moreover have "XXH3_64bits_digest sse2_kernel (feed sse2_kernel ?xs t) = key_hash (qb_unique_mask qb) rec"
    using streaming_one_shot [OF assms(2) sse2_in_kernels sse2_in_kernels, of Default t ?xs "[]"] t assms(4)
    by (simp add: c key_hash_def)
  ultimately show ?thesis
    using assms(1,3) t
    by (intro exI [of _ "feed sse2_kernel ?xs t"]) (simp add: hash_record_def hash_fields_feed)
qed

section \<open>Reading the records of the files\<close>

text \<open>
  A record as the file has it: values without separators, each followed by a comma, the
  last by a newline.  Its first byte is not \<open>0xFF\<close>, which \<open>peek\<close> would take for the end.
\<close>

definition raw_ok :: "nat \<Rightarrow> string list \<Rightarrow> bool" where
  "raw_ok n raw \<longleftrightarrow> length raw = n \<and> raw \<noteq> [] \<and> (\<forall>v\<in>set raw. \<forall>c\<in>set v. \<not> is_sep c) \<and>
     (hd raw \<noteq> [] \<longrightarrow> hd (hd raw) \<noteq> EOF_char)"

fun record_line :: "string list \<Rightarrow> string" where
  "record_line [] = []"
| "record_line [v] = v @ [CHR 0x0A]"
| "record_line (v # w # vs) = v @ CHR '','' # record_line (w # vs)"

fun norm_fields :: "16 word \<Rightarrow> nat \<Rightarrow> string list \<Rightarrow> string list res" where
  "norm_fields fm i [] = Inr []"
| "norm_fields fm i (v # vs) =
     rbind (if bit fm i then normalize_float v else Inr v) (\<lambda>v.
     rbind (norm_fields fm (Suc i) vs) (\<lambda>vs. Inr (v # vs)))"

lemma read_fields_line:
  assumes "reader_ok h" and "pending h = record_line raw @ rest"
    and "\<forall>v\<in>set raw. \<forall>c\<in>set v. \<not> is_sep c" and "i + length raw \<le> 32"
    and "norm_fields fm i raw = Inr vs"
  shows "\<exists>h'. read_fields fm (length raw) i h acc = Inr (acc @ vs, h') \<and> reader_ok h' \<and>
    pending h' = rest \<and> contents h' = contents h"
  using assms
proof (induction raw arbitrary: h i acc vs)
  case (Cons v raw)
  obtain sep tail where line: "record_line (v # raw) @ rest = v @ sep # tail" "is_sep sep"
    "tail = record_line raw @ rest"
    by (cases raw) (auto simp: is_sep_def)
  obtain h1 where h1: "get_value h = Inr (v, h1)" "reader_ok h1" "contents h1 = contents h" "pending h1 = tail"
    by (rule csv.gv_pending [OF Cons.prems(1) _ line(2), of v tail])
       (use Cons.prems(2,3) line(1) in auto)
  obtain w ws where w: "(if bit fm i then normalize_float v else Inr v) = Inr w"
    "norm_fields fm (Suc i) raw = Inr ws" "vs = w # ws"
    using Cons.prems(5) by (auto simp: rbind_Inr_iff split: if_splits)
  have "\<exists>h'. read_fields fm (length raw) (Suc i) h1 (acc @ [w]) = Inr ((acc @ [w]) @ ws, h') \<and>
      reader_ok h' \<and> pending h' = rest \<and> contents h' = contents h1"
    using Cons.prems h1 line(3) w(2) by (intro Cons.IH) auto
  then show ?case
    using h1 w Cons.prems(4) by (auto simp: mask_bit_eq split: if_splits)
qed simp


definition csv_text :: "string list list \<Rightarrow> string" where
  "csv_text raws = concat (map record_line raws)"

text \<open>
  The texts from a position on: the rest of the current file and the later files.  A later
  file must hold a record: \<open>next_record\<close> does not test it for its end.
\<close>

definition texts_at :: "string list \<Rightarrow> nat \<Rightarrow> int \<Rightarrow> string list" where
  "texts_at files k off = drop (nat off) (files ! k) # drop (Suc k) files"

fun later :: "string list \<Rightarrow> string list list \<Rightarrow> bool" where
  "later [] raws \<longleftrightarrow> raws = []"
| "later (t # ts) raws \<longleftrightarrow> (\<exists>a b. a \<noteq> [] \<and> raws = a @ b \<and> t = csv_text a \<and> later ts b)"

fun yields :: "string list \<Rightarrow> string list list \<Rightarrow> bool" where
  "yields [] raws \<longleftrightarrow> False"
| "yields (t # ts) raws \<longleftrightarrow> (\<exists>a b. raws = a @ b \<and> t = csv_text a \<and> later ts b)"

text \<open>The normalised records that remain from a position on.\<close>

definition feeds_at :: "16 word \<Rightarrow> nat \<Rightarrow> string list \<Rightarrow> nat \<Rightarrow> int \<Rightarrow> string list list \<Rightarrow> bool" where
  "feeds_at fm n files k off rs \<longleftrightarrow>
     k < length files \<and> 0 \<le> off \<and> (\<exists>raws. yields (texts_at files k off) raws \<and> (\<forall>raw\<in>set raws. raw_ok n raw) \<and>
       map (norm_fields fm 0) raws = map Inr rs)"

definition files :: "query_builder \<Rightarrow> string list" where
  "files qb = map contents (csv_handles qb)"

definition feeds :: "query_builder \<Rightarrow> string list list \<Rightarrow> bool" where
  "feeds qb rs = feeds_at (qb_float_mask qb) (length (qb_field_names qb)) (files qb)
     (unat (handle_idx qb)) (offset (csv_handles qb ! unat (handle_idx qb))) rs"

definition readers_ok :: "query_builder \<Rightarrow> bool" where
  "readers_ok qb \<longleftrightarrow>
     length (csv_handles qb) \<le> 255 \<and> unat (handle_idx qb) < length (csv_handles qb) \<and>
     (\<forall>h\<in>set (csv_handles qb). reader_ok h) \<and>
     (\<forall>j<length (csv_handles qb). unat (handle_idx qb) < j \<longrightarrow> offset (csv_handles qb ! j) = 0) \<and>
     0 < length (qb_field_names qb) \<and> length (qb_field_names qb) \<le> 32"

lemma texts_at_pending:
  "k < length hs \<Longrightarrow> texts_at (map contents hs) k (offset (hs ! k)) =
     pending (hs ! k) # map contents (drop (Suc k) hs)"
  by (simp add: texts_at_def pending_def drop_map)

lemma EOF_char_int: "char_int c = -1 \<longleftrightarrow> c = EOF_char"
proof
  assume "char_int c = -1"
  then have "(of_char c :: nat) = 255" by (auto simp: char_int_def Let_def split: if_splits)
  then have "char_of (of_char c :: nat) = (char_of (255 :: nat) :: char)" by (simp only:)
  then show "c = EOF_char" by (simp add: EOF_char_def)
qed (simp add: char_int_def EOF_char_def)

lemma record_line_start:
  assumes "raw_ok n raw"
  shows "record_line raw \<noteq> []" "hd (record_line raw) \<noteq> EOF_char"
proof -
  obtain v vs where raw: "raw = v # vs" using assms by (cases raw) (auto simp: raw_ok_def)
  have "\<exists>sep tail. record_line raw = v @ sep # tail \<and> is_sep sep"
    unfolding raw by (cases vs) (auto simp: is_sep_def)
  moreover have "\<not> is_sep EOF_char" by (simp add: is_sep_def EOF_char_def) code_simp
  ultimately show "record_line raw \<noteq> []" "hd (record_line raw) \<noteq> EOF_char"
    using assms raw by (auto simp: raw_ok_def hd_append split: if_splits)
qed

lemma read_record_line:
  assumes "readers_ok qb" and k: "k = unat (handle_idx qb)"
    and "pending (csv_handles qb ! k) = record_line raw @ rest"
    and "raw_ok (length (qb_field_names qb)) raw" and "norm_fields (qb_float_mask qb) 0 raw = Inr vs"
  shows "\<exists>h. read_record qb = Inr (vs, qb\<lparr>csv_handles := (csv_handles qb)[k := h]\<rparr>) \<and>
    reader_ok h \<and> pending h = rest \<and> contents h = contents (csv_handles qb ! k)"
proof -
  have len: "k < length (csv_handles qb)" "reader_ok (csv_handles qb ! k)"
    using assms(1) k by (auto simp: readers_ok_def)
  have "length raw = length (qb_field_names qb)" using assms(4) by (simp add: raw_ok_def)
  moreover obtain h where "read_fields (qb_float_mask qb) (length raw) 0 (csv_handles qb ! k) [] = Inr ([] @ vs, h)"
    "reader_ok h" "pending h = rest" "contents h = contents (csv_handles qb ! k)"
    using read_fields_line [OF len(2) assms(3), of 0 "qb_float_mask qb" vs "[]"] assms(1,4,5)
    by (auto simp: raw_ok_def readers_ok_def)
  ultimately show ?thesis using len k by (auto simp: read_record_def)
qed

lemma norm_fields_nonempty: "norm_fields fm i raw = Inr vs \<Longrightarrow> raw \<noteq> [] \<Longrightarrow> vs \<noteq> []"
  by (cases raw) (auto simp: rbind_Inr_iff)

lemma norm_fields_length: "norm_fields fm i raw = Inr vs \<Longrightarrow> length vs = length raw"
  by (induction raw arbitrary: i vs) (auto simp: rbind_Inr_iff)


lemma csv_text_simps [simp]: "csv_text [] = []" "csv_text (r # rs) = record_line r @ csv_text rs"
  by (simp_all add: csv_text_def)

lemma map_contents_update:
  "k < length hs \<Longrightarrow> contents h = contents (hs ! k) \<Longrightarrow> map contents (hs[k := h]) = map contents hs"
  by (simp add: list_eq_iff_nth_eq nth_list_update)

text \<open>
  Replacing the current reader by one that is further in the same file.
\<close>

lemma readers_ok_step:
  assumes "readers_ok qb" and "k = unat (handle_idx qb)" and "reader_ok h"
  shows "readers_ok (qb\<lparr>csv_handles := (csv_handles qb)[k := h]\<rparr>)"
  using assms by (auto simp: readers_ok_def nth_list_update set_update_memI dest!: set_update_subset_insert [THEN subsetD])

lemma feeds_pending:
  assumes "readers_ok qb" and "k = unat (handle_idx qb)"
  shows "feeds qb rs \<longleftrightarrow> (\<exists>raws.
    yields (pending (csv_handles qb ! k) # map contents (drop (Suc k) (csv_handles qb))) raws \<and>
    (\<forall>raw\<in>set raws. raw_ok (length (qb_field_names qb)) raw) \<and>
    map (norm_fields (qb_float_mask qb) 0) raws = map Inr rs)"
  using assms texts_at_pending [of k "csv_handles qb"] csv.off_law [of "csv_handles qb ! k"]
  by (auto simp: feeds_def feeds_at_def files_def readers_ok_def)

lemma feedsI:
  assumes "readers_ok qb" and "k = unat (handle_idx qb)"
    and "pending (csv_handles qb ! k) = csv_text a"
    and "later (map contents (drop (Suc k) (csv_handles qb))) b"
    and "\<forall>raw\<in>set (a @ b). raw_ok (length (qb_field_names qb)) raw"
    and "map (norm_fields (qb_float_mask qb) 0) (a @ b) = map Inr rs"
  shows "feeds qb rs"
  unfolding feeds_pending [OF assms(1,2)] yields.simps using assms(3-6) by blast

lemma peek_current:
  assumes "readers_ok qb" and k: "k = unat (handle_idx qb)"
  obtains h where "at (csv_handles qb) k = Inr (csv_handles qb ! k)"
    "peek (csv_handles qb ! k) = Inr (next_byte (pending (csv_handles qb ! k)), h)"
    "reader_ok h" "pending h = pending (csv_handles qb ! k)" "contents h = contents (csv_handles qb ! k)"
    "offset h = offset (csv_handles qb ! k)"
proof -
  have "k < length (csv_handles qb)" "reader_ok (csv_handles qb ! k)"
    using assms by (auto simp: readers_ok_def)
  then show ?thesis using csv.pk_pending [of "csv_handles qb ! k"] that by (metis at_in)
qed

text \<open>What a step of reading changes: the current handle and the readers, not the files.\<close>

definition moved_on :: "query_builder \<Rightarrow> query_builder \<Rightarrow> bool" where
  "moved_on qb qb' \<longleftrightarrow>
     (\<exists>i hs. qb' = qb\<lparr>handle_idx := i, csv_handles := hs\<rparr>) \<and> files qb' = files qb \<and> readers_ok qb'"

lemma next_record_more:
  assumes ok: "readers_ok qb" and f: "feeds qb (r # rs)"
  shows "\<exists>qb'. next_record qb = Inr (r, qb') \<and> moved_on qb qb' \<and> feeds qb' rs"
proof -
  define k where "k = unat (handle_idx qb)"
  have len: "k < length (csv_handles qb)" "length (csv_handles qb) \<le> 255"
    using ok by (auto simp: readers_ok_def k_def)
  obtain h where h: "at (csv_handles qb) k = Inr (csv_handles qb ! k)"
    "peek (csv_handles qb ! k) = Inr (next_byte (pending (csv_handles qb ! k)), h)"
    "reader_ok h" "pending h = pending (csv_handles qb ! k)" "contents h = contents (csv_handles qb ! k)"
    by (rule peek_current [OF ok k_def])
  let ?qb = "qb\<lparr>csv_handles := (csv_handles qb)[k := h]\<rparr>"
  have ok1: "readers_ok ?qb" by (rule readers_ok_step [OF ok k_def h(3)])
  from f [unfolded feeds_pending [OF ok k_def]] obtain raws where raws:
    "yields (pending (csv_handles qb ! k) # map contents (drop (Suc k) (csv_handles qb))) raws"
    "\<forall>raw\<in>set raws. raw_ok (length (qb_field_names qb)) raw"
    "map (norm_fields (qb_float_mask qb) 0) raws = Inr r # map Inr rs"
    by (auto simp del: yields.simps)
  then obtain raw raws' where rr: "raws = raw # raws'" "norm_fields (qb_float_mask qb) 0 raw = Inr r"
    "map (norm_fields (qb_float_mask qb) 0) raws' = map Inr rs" "raw_ok (length (qb_field_names qb)) raw"
    by (cases raws) auto
  from raws(1) rr(1) obtain a b where ab: "raw # raws' = a @ b" "pending (csv_handles qb ! k) = csv_text a"
    "later (map contents (drop (Suc k) (csv_handles qb))) b" by auto
  note start = record_line_start [OF rr(4)]
  show ?thesis
  proof (cases a)
    case (Cons raw' a')
    then have a: "a = raw # a'" "raws' = a' @ b" using ab(1) by auto
    then have p: "pending (csv_handles qb ! k) = record_line raw @ csv_text a'" using ab(2) by simp
    then have nb: "char_int (next_byte (pending (csv_handles qb ! k))) \<noteq> -1"
      using start by (cases "record_line raw") (auto simp: next_byte_def EOF_char_int)
    obtain h2 where h2: "read_record ?qb = Inr (r, ?qb\<lparr>csv_handles := (csv_handles ?qb)[k := h2]\<rparr>)"
      "reader_ok h2" "pending h2 = csv_text a'" "contents h2 = contents (csv_handles ?qb ! k)"
      using read_record_line [OF ok1, of k raw "csv_text a'" r] rr p h(4) len by (auto simp: k_def)
    let ?qb2 = "qb\<lparr>csv_handles := (csv_handles qb)[k := h2]\<rparr>"
    have n: "next_record qb = Inr (r, ?qb2)"
      using h nb h2(1) by (simp add: next_record_def flip: k_def)
    have ok2: "readers_ok ?qb2" by (rule readers_ok_step [OF ok k_def h2(2)])
    moreover have "files ?qb2 = files qb"
      using len h(5) h2(4) by (simp add: files_def map_contents_update)
    moreover have "feeds ?qb2 rs"
      by (rule feedsI [OF ok2, of k a' b]) (use k_def len h2(3) ab(3) a raws(2) rr in auto)
    ultimately show ?thesis using n
      by (auto simp: moved_on_def intro!: exI [of _ "handle_idx qb"] exI [of _ "(csv_handles qb)[k := h2]"])
  next
    case Nil
    then have empty: "pending (csv_handles qb ! k) = []" and b: "b = raw # raws'" using ab(1,2) by auto
    then obtain t ts where tts: "map contents (drop (Suc k) (csv_handles qb)) = t # ts"
      using ab(3) by (cases "map contents (drop (Suc k) (csv_handles qb))") auto
    then have lenk: "Suc k < length (csv_handles qb)"
      by (metis drop_all list.distinct(1) list.map(1) not_le)
    from tts ab(3) b obtain a2 b2 where a2: "raws' = a2 @ b2" "t = record_line raw @ csv_text a2" "later ts b2"
      by (auto simp: Cons_eq_append_conv)
    have t: "t = contents (csv_handles qb ! Suc k)" "ts = map contents (drop (Suc (Suc k)) (csv_handles qb))"
      using tts lenk by (auto simp flip: Cons_nth_drop_Suc)
    have nb: "char_int (next_byte (pending (csv_handles qb ! k))) = -1"
      by (simp add: empty next_byte_def EOF_char_int)
    have idx: "unat (handle_idx qb + 1) = Suc k"
      using len lenk by (simp add: k_def unat_word_ariths)
    let ?qb1 = "?qb\<lparr>handle_idx := handle_idx qb + 1\<rparr>"
    have ok1': "readers_ok ?qb1"
      using ok1 lenk idx by (auto simp: readers_ok_def simp flip: k_def)
    have "offset (csv_handles qb ! Suc k) = 0" using ok lenk by (auto simp: readers_ok_def k_def)
    then have p: "pending (csv_handles ?qb1 ! Suc k) = record_line raw @ csv_text a2"
      using a2(2) t(1) by (simp add: pending_def)
    obtain h2 where h2: "read_record ?qb1 = Inr (r, ?qb1\<lparr>csv_handles := (csv_handles ?qb1)[Suc k := h2]\<rparr>)"
      "reader_ok h2" "pending h2 = csv_text a2" "contents h2 = contents (csv_handles ?qb1 ! Suc k)"
      using read_record_line [OF ok1' _ p] rr idx by auto
    let ?qb2 = "?qb1\<lparr>csv_handles := (csv_handles ?qb1)[Suc k := h2]\<rparr>"
    have n: "next_record qb = Inr (r, ?qb2)"
      using h nb h2(1) idx lenk by (simp add: next_record_def flip: k_def)
    have ok2: "readers_ok ?qb2" using readers_ok_step [OF ok1', of "Suc k" h2] idx h2(2) by simp
    moreover have "files ?qb2 = files qb"
      using len lenk h(5) h2(4) by (simp add: files_def map_contents_update)
    moreover have "feeds ?qb2 rs"
      by (rule feedsI [OF ok2, of "Suc k" a2 b2]) (use idx lenk h2(3) a2 t(2) raws(2) rr in auto)
    ultimately show ?thesis using n
      by (auto simp: moved_on_def intro!: exI [of _ "handle_idx qb + 1"] exI [of _ "csv_handles ?qb2"])
  qed
qed


lemma next_record_end:
  assumes ok: "readers_ok qb" and f: "feeds qb []"
  shows "\<exists>qb'. next_record qb = Inr ([], qb') \<and> moved_on qb qb' \<and> feeds qb' []"
proof -
  define k where "k = unat (handle_idx qb)"
  have len: "k < length (csv_handles qb)" "length (csv_handles qb) \<le> 255"
    using ok by (auto simp: readers_ok_def k_def)
  obtain h where h: "at (csv_handles qb) k = Inr (csv_handles qb ! k)"
    "peek (csv_handles qb ! k) = Inr (next_byte (pending (csv_handles qb ! k)), h)"
    "reader_ok h" "pending h = pending (csv_handles qb ! k)" "contents h = contents (csv_handles qb ! k)"
    by (rule peek_current [OF ok k_def])
  from f [unfolded feeds_pending [OF ok k_def]]
  have empty: "pending (csv_handles qb ! k) = []" and "later (map contents (drop (Suc k) (csv_handles qb))) []"
    by auto
  then have last: "length (csv_handles qb) = Suc k"
    using len by (cases "map contents (drop (Suc k) (csv_handles qb))") auto
  have nb: "char_int (next_byte (pending (csv_handles qb ! k))) = -1"
    by (simp add: empty next_byte_def EOF_char_int)
  have idx: "unat (handle_idx qb + 1) = Suc k"
    using len last by (simp add: k_def unat_word_ariths)
  let ?qb = "qb\<lparr>csv_handles := (csv_handles qb)[k := h]\<rparr>"
  have n: "next_record qb = Inr ([], ?qb)"
    using h nb idx last by (simp add: next_record_def flip: k_def)
  have ok1: "readers_ok ?qb" by (rule readers_ok_step [OF ok k_def h(3)])
  moreover have "files ?qb = files qb"
    using len h(5) by (simp add: files_def map_contents_update)
  moreover have "feeds ?qb []"
    using f len h(4) k_def feeds_pending [OF ok k_def, of "[]"] feeds_pending [OF ok1, of k "[]"]
    by simp
  ultimately show ?thesis using n
    by (auto simp: moved_on_def intro!: exI [of _ "handle_idx qb"] exI [of _ "(csv_handles qb)[k := h]"])
qed


section \<open>What a batch is\<close>

text \<open>
  The specification of the loop over records, on lists: up to \<open>n\<close> records with new keys,
  why it stops, the keys known then, and the records that remain.
\<close>

datatype stop = Full | Repeated "string list" | Ended

fun gather :: "16 word \<Rightarrow> nat \<Rightarrow> 64 word set \<Rightarrow> string list list \<Rightarrow>
    string list list \<times> stop \<times> 64 word set \<times> string list list" where
  "gather um 0 S rs = ([], Full, S, rs)"
| "gather um (Suc n) S [] = ([], Ended, S, [])"
| "gather um (Suc n) S (r # rs) =
     (if key_hash um r \<in> S then ([], Repeated r, S, rs)
      else let (b, st, S', rest) = gather um n (insert (key_hash um r) S) rs in (r # b, st, S', rest))"

definition short_keys :: "16 word \<Rightarrow> string list list \<Rightarrow> bool" where
  "short_keys um rs \<longleftrightarrow> (\<forall>r\<in>set rs. length (key_bytes um r) < 2 ^ 64)"

definition builder_ok :: "nat \<Rightarrow> query_builder \<Rightarrow> bool" where
  "builder_ok lim qb \<longleftrightarrow>
     readers_ok qb \<and> set_ok lim (inserted qb) \<and>
     (\<exists>s. hash_state qb = Some s \<and> usable sse2_kernel s)"

text \<open>What no step of \<open>next_query\<close> changes.\<close>

definition same_table :: "query_builder \<Rightarrow> query_builder \<Rightarrow> bool" where
  "same_table qb qb' \<longleftrightarrow>
     qb_field_names qb' = qb_field_names qb \<and> qb_unique_mask qb' = qb_unique_mask qb \<and>
     qb_float_mask qb' = qb_float_mask qb \<and> qb_table qb' = qb_table qb \<and> files qb' = files qb \<and>
     committed_handle_idx qb' = committed_handle_idx qb \<and> committed_offset qb' = committed_offset qb"

lemma same_table_refl [simp]: "same_table qb qb"
  by (simp add: same_table_def)

lemma same_table_trans: "same_table a b \<Longrightarrow> same_table b c \<Longrightarrow> same_table a c"
  by (simp add: same_table_def)

text \<open>The saved record and where it can be read again.\<close>

definition holds_back :: "query_builder \<Rightarrow> string list \<Rightarrow> string list list \<Rightarrow> bool" where
  "holds_back qb r rest \<longleftrightarrow>
     tmp_record qb = r \<and> r \<noteq> [] \<and>
     feeds_at (qb_float_mask qb) (length (qb_field_names qb)) (files qb) (unat (tmp_handle_idx qb))
       (tmp_offset qb) (r # rest)"

lemma feeds_record:
  assumes "readers_ok qb" and "feeds qb (r # rs)"
  shows "r \<noteq> []" and "length r = length (qb_field_names qb)"
proof -
  from assms(2) obtain raw where "norm_fields (qb_float_mask qb) 0 raw = Inr r"
    "raw_ok (length (qb_field_names qb)) raw"
    unfolding feeds_def feeds_at_def by (metis (no_types, lifting) list.set_intros(1) map_eq_Cons_conv)
  then show "r \<noteq> []" "length r = length (qb_field_names qb)"
    using norm_fields_nonempty norm_fields_length by (auto simp: raw_ok_def)
qed

lemma moved_on_simps:
  assumes "moved_on qb qb'"
  shows "readers_ok qb'" "same_table qb qb'" "inserted qb' = inserted qb" "hash_state qb' = hash_state qb"
    "tmp_record qb' = tmp_record qb" "insert_if_not_exists_stmt qb' = insert_if_not_exists_stmt qb"
  using assms by (auto simp: moved_on_def same_table_def)

lemma readers_ok_hash: "readers_ok (qb\<lparr>hash_state := s, inserted := i\<rparr>) = readers_ok qb"
  by (simp add: readers_ok_def)

lemma feeds_hash:
  "feeds (qb\<lparr>hash_state := s, inserted := i\<rparr>) rs = feeds qb rs"
  by (simp add: feeds_def files_def)

text \<open>The keys \<open>K\<close> are those of the table and of the records to come, and there is room for them.\<close>

definition roomy :: "nat \<Rightarrow> 64 word set \<Rightarrow> query_builder \<Rightarrow> string list list \<Rightarrow> bool" where
  "roomy lim K qb rs \<longleftrightarrow> reserved lim K (inserted qb) \<and> key_hash (qb_unique_mask qb) ` set rs \<subseteq> K"

lemma insert_key_fails:
  assumes "set_ok lim t" and "insert_key lim t x = Inl e"
  shows "e = Throws_Bad_Alloc" and "x \<in> K \<Longrightarrow> \<not> reserved lim K t"
proof -
  show "e = Throws_Bad_Alloc"
    using emplace_spec [of lim t x] assms
    by (auto simp: insert_key_def set_ok_def rbind_Inl_iff split: prod.splits)
  show "\<not> reserved lim K t" if "x \<in> K"
    using flat_room.no_failure [OF assms(1) _ that] assms(2) by blast
qed

lemma collect_spec:
  assumes "builder_ok lim qb" and "feeds qb rs" and "short_keys (qb_unique_mask qb) rs"
    and "tmp_record qb = []" and "n + length records = 501"
    and "gather (qb_unique_mask qb) n (members (inserted qb)) rs = (b, st, S, rest)"
  shows "collect lim records qb = Inl Throws_Bad_Alloc \<and> (\<forall>K. \<not> roomy lim K qb rs) \<or>
    (\<exists>qb'. builder_ok lim qb' \<and> feeds qb' rest \<and> members (inserted qb') = S \<and> same_table qb qb' \<and>
      (\<forall>K. roomy lim K qb rs \<longrightarrow> reserved lim K (inserted qb')) \<and>
      insert_if_not_exists_stmt qb' = insert_if_not_exists_stmt qb \<and>
      (case st of
         Full \<Rightarrow> collect lim records qb = Inr (Batch (records @ b) qb') \<and> tmp_record qb' = []
       | Repeated r \<Rightarrow> collect lim records qb = Inr (Batch (records @ b) qb') \<and> holds_back qb' r rest
       | Ended \<Rightarrow> collect lim records qb = Inr (No_More qb') \<and> tmp_record qb' = []))"
  using assms
proof (induction n arbitrary: records qb rs b)
  case 0
  then show ?case
    by (auto simp: collect.simps [of lim records qb] INSERT_NUM_TUPLES_def roomy_def)
next
  case (Suc n)
  define k where "k = unat (handle_idx qb)"
  have ok: "readers_ok qb" and set: "set_ok lim (inserted qb)"
    using Suc.prems(1) by (auto simp: builder_ok_def)
  have len: "length records \<le> INSERT_NUM_TUPLES" using Suc.prems(5) by (simp add: INSERT_NUM_TUPLES_def)
  have at: "at (csv_handles qb) k = Inr (csv_handles qb ! k)"
    using ok by (simp add: readers_ok_def k_def)
  show ?case
  proof (cases rs)
    case Nil
    with Suc.prems(2) obtain qb' where r: "next_record qb = Inr ([], qb')" "moved_on qb qb'" "feeds qb' []"
      using next_record_end [OF ok] by auto
    then have "collect lim records qb = Inr (No_More qb')"
      using len at by (simp add: collect.simps [of lim records qb] k_def)
    moreover have "builder_ok lim qb'"
      using Suc.prems(1) moved_on_simps [OF r(2)] by (simp add: builder_ok_def)
    ultimately show ?thesis
      using Suc.prems(4,6) r(3) Nil moved_on_simps [OF r(2)] by (auto simp: roomy_def)
  next
    case (Cons r rs')
    with Suc.prems(2) obtain qb1 where r: "next_record qb = Inr (r, qb1)" "moved_on qb qb1" "feeds qb1 rs'"
      using next_record_more [OF ok] by blast
    note m = moved_on_simps [OF r(2)]
    have rec: "r \<noteq> []" "length r \<le> 32"
      using feeds_record [OF ok, of r rs'] Suc.prems(2) Cons ok by (auto simp: readers_ok_def)
    have um: "qb_unique_mask qb1 = qb_unique_mask qb" using m(2) by (simp add: same_table_def)
    obtain s where s: "hash_record qb1 r = Inr (key_hash (qb_unique_mask qb) r, qb1\<lparr>hash_state := Some s\<rparr>)"
      "usable sse2_kernel s"
      using hash_record_key [of qb1 _ r] Suc.prems(1,3) Cons rec(2) um m(4)
      by (auto simp: builder_ok_def short_keys_def)
    let ?h = "key_hash (qb_unique_mask qb) r"
    have look: "contains (inserted qb1) ?h = Inr (?h \<in> members (inserted qb))"
      using flat.look [OF set] m(3) by simp
    have step: "collect lim records qb =
      (if ?h \<notin> members (inserted qb)
       then rbind (insert_key lim (inserted qb) ?h) (\<lambda>ins.
          collect lim (records @ [r]) (qb1\<lparr>hash_state := Some s, inserted := ins\<rparr>))
       else Inr (Batch records (qb1\<lparr>hash_state := Some s, tmp_record := r, tmp_handle_idx := handle_idx qb,
          tmp_offset := offset (csv_handles qb ! k)\<rparr>)))"
      using len at r(1) rec(1) s(1) look m(3)
      by (simp add: collect.simps [of lim records qb] k_def)
    show ?thesis
    proof (cases "?h \<in> members (inserted qb)")
      case True
      let ?qb = "qb1\<lparr>hash_state := Some s, tmp_record := r, tmp_handle_idx := handle_idx qb,
          tmp_offset := offset (csv_handles qb ! k)\<rparr>"
      have "feeds ?qb rs'" using r(3) by (simp add: feeds_def files_def)
      moreover have "builder_ok lim ?qb"
        using Suc.prems(1) m(1,3) s(2) by (simp add: builder_ok_def readers_ok_def)
      moreover have "holds_back ?qb r rs'"
        using Suc.prems(2) Cons rec(1) m(2) by (simp add: holds_back_def feeds_def k_def same_table_def files_def)
      moreover have "same_table qb ?qb" using m(2) by (simp add: same_table_def files_def)
      ultimately show ?thesis
        using step True Suc.prems(6) Cons m by (auto simp: roomy_def)
    next
      case False
      show ?thesis
      proof (cases "insert_key lim (inserted qb) ?h")
        case (Inl e)
        have "\<not> roomy lim K qb rs" for K
          using insert_key_fails(2) [OF set Inl, of K] Cons by (auto simp: roomy_def)
        then show ?thesis using step False insert_key_fails(1) [OF set Inl] Inl by simp
      next
        case (Inr ins)
        let ?qb = "qb1\<lparr>hash_state := Some s, inserted := ins\<rparr>"
        have ins: "set_ok lim ins" "members ins = insert ?h (members (inserted qb))"
          using flat.ins [OF set Inr] by auto
        obtain b' where b: "gather (qb_unique_mask qb) n (members ins) rs' = (b', st, S, rest)" "b = r # b'"
          using Suc.prems(6) Cons False ins(2) by (auto split: prod.splits)
        have same: "same_table qb ?qb" using m(2) by (simp add: same_table_def files_def)
        have ok': "builder_ok lim ?qb"
          using ins(1) m(1) s(2) by (simp add: builder_ok_def readers_ok_hash)
        have feeds': "feeds ?qb rs'" using r(3) by (simp add: feeds_hash)
        have "short_keys (qb_unique_mask ?qb) rs'" "tmp_record ?qb = []" "n + length (records @ [r]) = 501"
          "gather (qb_unique_mask ?qb) n (members (inserted ?qb)) rs' = (b', st, S, rest)"
          using Suc.prems(3,4,5) Cons um m(5) b(1) by (auto simp: short_keys_def)
        from Suc.IH [OF ok' feeds' this] have IH:
          "collect lim (records @ [r]) ?qb = Inl Throws_Bad_Alloc \<and> (\<forall>K. \<not> roomy lim K ?qb rs') \<or>
           (\<exists>qb'. builder_ok lim qb' \<and> feeds qb' rest \<and> members (inserted qb') = S \<and> same_table ?qb qb' \<and>
             (\<forall>K. roomy lim K ?qb rs' \<longrightarrow> reserved lim K (inserted qb')) \<and>
             insert_if_not_exists_stmt qb' = insert_if_not_exists_stmt ?qb \<and>
             (case st of
                Full \<Rightarrow> collect lim (records @ [r]) ?qb = Inr (Batch ((records @ [r]) @ b') qb') \<and> tmp_record qb' = []
              | Repeated r' \<Rightarrow> collect lim (records @ [r]) ?qb = Inr (Batch ((records @ [r]) @ b') qb') \<and> holds_back qb' r' rest
              | Ended \<Rightarrow> collect lim (records @ [r]) ?qb = Inr (No_More qb') \<and> tmp_record qb' = []))" .
        have "roomy lim K ?qb rs'" if "roomy lim K qb rs" for K
          using that flat_room.keeps_room [OF set _ _ Inr, of K] Cons um by (auto simp: roomy_def)
        moreover have "collect lim records qb = collect lim (records @ [r]) ?qb"
          using step False Inr by simp
        ultimately show ?thesis
          using IH unfolding b(2) using same_table_trans [OF same] m(6)
          by (auto simp del: same_table_def split: stop.splits)
      qed
    qed
  qed
qed

end
