(* ===== verification/Query_Refinement.thy ===== *)
theory Query_Refinement
  imports Query_Builder
begin

text \<open>
  What the class \<open>QueryBuilder\<close> computes, as a state machine on the records of the table: an
  abstract state without files, buffers and hash table, an abstract step for
  \<open>next_query\<close>, and the lemma that the code refines it.  From there, the whole run of a
  table, what it loses, and how a new process resumes after \<open>commit\<close>.
\<close>

section \<open>The queries of a table, abstractly\<close>

datatype query = Insert "string list list" | Update "string list" | Insert_If_Absent "string list"

fun query_text :: "string \<Rightarrow> string list \<Rightarrow> 16 word \<Rightarrow> query \<Rightarrow> string res" where
  "query_text tbl names um (Insert recs) = make_insert_statement tbl recs"
| "query_text tbl names um (Update r) = make_update_statement tbl names um r"
| "query_text tbl names um (Insert_If_Absent r) = make_insert_where_not_exists_statement tbl names um r"

text \<open>
  The abstract state: the keys seen, the record held back, the record whose conditional
  insert is due, and the records that remain.
\<close>

record table_state =
  seen_keys :: "64 word set"
  held :: "string list option"
  due :: "string list option"
  remaining :: "string list list"

definition abs_next :: "16 word \<Rightarrow> table_state \<Rightarrow> query option \<times> table_state" where
  "abs_next um a =
     (case due a of
        Some r \<Rightarrow> (Some (Insert_If_Absent r), a\<lparr>due := None\<rparr>)
      | None \<Rightarrow>
          (case held a of
             Some r \<Rightarrow> (Some (Update r), a\<lparr>held := None, due := Some r\<rparr>)
           | None \<Rightarrow>
               (case gather um 501 (seen_keys a) (remaining a) of
                  (b, Full, S, rest) \<Rightarrow> (Some (Insert b), a\<lparr>seen_keys := S, remaining := rest\<rparr>)
                | (b, Ended, S, rest) \<Rightarrow> (None, a\<lparr>seen_keys := S, remaining := rest\<rparr>)
                | (b, Repeated r, S, rest) \<Rightarrow>
                    if b = [] then (Some (Update r), a\<lparr>seen_keys := S, due := Some r, remaining := rest\<rparr>)
                    else (Some (Insert b), a\<lparr>seen_keys := S, held := Some r, remaining := rest\<rparr>))))"

text \<open>At least one column is a key and at least one is not.\<close>

definition keyed :: "string list \<Rightarrow> 16 word \<Rightarrow> bool" where
  "keyed names um \<longleftrightarrow> length names \<le> 16 \<and> (\<exists>i<length names. bit um i) \<and> (\<exists>i<length names. \<not> bit um i)"

definition represents_table :: "nat \<Rightarrow> query_builder \<Rightarrow> table_state \<Rightarrow> bool" where
  "represents_table lim qb a \<longleftrightarrow>
     builder_ok lim qb \<and> keyed (qb_field_names qb) (qb_unique_mask qb) \<and>
     feeds qb (remaining a) \<and> short_keys (qb_unique_mask qb) (remaining a) \<and>
     members (inserted qb) = seen_keys a \<and>
     (case held a of None \<Rightarrow> tmp_record qb = []
      | Some r \<Rightarrow> length r = length (qb_field_names qb) \<and> holds_back qb r (remaining a)) \<and>
     (case due a of None \<Rightarrow> insert_if_not_exists_stmt qb = []
      | Some r \<Rightarrow> length r = length (qb_field_names qb) \<and> insert_if_not_exists_stmt qb \<noteq> [] \<and> held a = None \<and>
          make_insert_where_not_exists_statement (qb_table qb) (qb_field_names qb) (qb_unique_mask qb) r =
            Inr (insert_if_not_exists_stmt qb))"

lemma keyed_columns:
  assumes "keyed names um" and "length r = length names"
  shows "record_ok names r" "r \<noteq> []" "key_columns_of um names r \<noteq> []" "other_columns_of um names r \<noteq> []"
  using assms by (auto simp: keyed_def record_ok_def columns_where_nonempty)

lemma update_query_spec:
  assumes "keyed (qb_field_names qb) (qb_unique_mask qb)" and "length r = length (qb_field_names qb)"
    and "tmp_record qb = r"
  shows "\<exists>u i. query_text (qb_table qb) (qb_field_names qb) (qb_unique_mask qb) (Update r) = Inr u \<and> u \<noteq> [] \<and>
    query_text (qb_table qb) (qb_field_names qb) (qb_unique_mask qb) (Insert_If_Absent r) = Inr i \<and> i \<noteq> [] \<and>
    update_query qb = Inr (u, qb\<lparr>insert_if_not_exists_stmt := i, tmp_record := []\<rparr>)"
  using keyed_columns [OF assms(1,2)] assms(3)
  by (simp add: update_query_def update_statement_text make_insert_where_not_exists_statement_def
      where_clause_text values_loop_text)

lemma insert_query_spec:
  "b \<noteq> [] \<Longrightarrow> \<exists>u. query_text tbl names um (Insert b) = Inr u \<and> u \<noteq> []"
  by (simp add: insert_statement_text)

lemma gather_records:
  "gather um n S rs = (b, st, S', rest) \<Longrightarrow> (case st of Repeated r \<Rightarrow> rs = b @ r # rest | _ \<Rightarrow> rs = b @ rest)"
proof (induction n arbitrary: S rs b)
  case (Suc n)
  then show ?case by (cases rs) (fastforce split: if_splits prod.splits stop.splits)+
qed auto

lemma gather_length: "gather um n S rs = (b, Full, S', rest) \<Longrightarrow> length b = n"
proof (induction n arbitrary: S rs b)
  case (Suc n)
  then show ?case by (cases rs) (auto split: if_splits prod.splits)
qed auto

lemma feeds_lengths: "readers_ok qb \<Longrightarrow> feeds qb rs \<Longrightarrow> \<forall>r\<in>set rs. length r = length (qb_field_names qb)"
proof -
  assume "feeds qb rs"
  then obtain raws where "\<forall>raw\<in>set raws. raw_ok (length (qb_field_names qb)) raw"
    "map (norm_fields (qb_float_mask qb) 0) raws = map Inr rs"
    unfolding feeds_def feeds_at_def by blast
  then show ?thesis
    by (metis (no_types, lifting) imageE image_eqI list.set_map norm_fields_length raw_ok_def sum.inject(2))
qed

text \<open>
  \<open>next_query\<close> refines the abstract step: it returns the text of the abstract query (the
  empty text when there is none) and ends in a state that represents the abstract one.
\<close>

lemma next_query_step:
  assumes "represents_table lim qb a" and "abs_next (qb_unique_mask qb) a = (q, a')"
  shows "next_query lim qb = Inl Throws_Bad_Alloc \<and> (\<forall>K. \<not> roomy lim K qb (remaining a)) \<or>
    (\<exists>u qb'. next_query lim qb = Inr (u, qb') \<and> represents_table lim qb' a' \<and> same_table qb qb' \<and>
      (\<forall>K. roomy lim K qb (remaining a) \<longrightarrow> roomy lim K qb' (remaining a')) \<and>
      (case q of None \<Rightarrow> u = []
       | Some q \<Rightarrow> u \<noteq> [] \<and> query_text (qb_table qb) (qb_field_names qb) (qb_unique_mask qb) q = Inr u))"
proof (cases "due a")
  case (Some r)
  let ?qb = "qb\<lparr>insert_if_not_exists_stmt := []\<rparr>"
  have "q = Some (Insert_If_Absent r)" "a' = a\<lparr>due := None\<rparr>"
    using assms(2) Some by (auto simp: abs_next_def)
  moreover have "next_query lim qb = Inr (insert_if_not_exists_stmt qb, ?qb)"
    using assms(1) Some by (simp add: next_query_def represents_table_def)
  moreover have "represents_table lim ?qb (a\<lparr>due := None\<rparr>)" "same_table qb ?qb"
    using assms(1) Some
    by (auto simp: represents_table_def builder_ok_def readers_ok_def feeds_def files_def same_table_def)
  ultimately show ?thesis using assms(1) Some by (auto simp: represents_table_def roomy_def)
next
  case None
  note due = this
  then have stmt: "insert_if_not_exists_stmt qb = []" using assms(1) by (simp add: represents_table_def)
  have key: "keyed (qb_field_names qb) (qb_unique_mask qb)" and ok: "builder_ok lim qb"
    and rok: "readers_ok qb" and fd: "feeds qb (remaining a)"
    and sk: "short_keys (qb_unique_mask qb) (remaining a)" and mem: "members (inserted qb) = seen_keys a"
    using assms(1) by (auto simp: represents_table_def builder_ok_def)
  have upd: "\<exists>u qb2. update_query qb1 = Inr (u, qb2) \<and> represents_table lim qb2 a1 \<and> same_table qb1 qb2 \<and>
      inserted qb2 = inserted qb1 \<and> u \<noteq> [] \<and> query_text (qb_table qb1) (qb_field_names qb1) (qb_unique_mask qb1) (Update r) = Inr u"
    if asm: "builder_ok lim qb1" "keyed (qb_field_names qb1) (qb_unique_mask qb1)" "tmp_record qb1 = r"
      "length r = length (qb_field_names qb1)" "feeds qb1 (remaining a1)"
      "short_keys (qb_unique_mask qb1) (remaining a1)" "members (inserted qb1) = seen_keys a1"
      "held a1 = None" "due a1 = Some r" for qb1 r and a1 :: table_state
  proof -
    obtain u i where "query_text (qb_table qb1) (qb_field_names qb1) (qb_unique_mask qb1) (Update r) = Inr u"
      "u \<noteq> []" "i \<noteq> []"
      "query_text (qb_table qb1) (qb_field_names qb1) (qb_unique_mask qb1) (Insert_If_Absent r) = Inr i"
      "update_query qb1 = Inr (u, qb1\<lparr>insert_if_not_exists_stmt := i, tmp_record := []\<rparr>)"
      using update_query_spec [OF asm(2,4,3)] by blast
    then show ?thesis using asm
      by (intro exI [of _ u] exI [of _ "qb1\<lparr>insert_if_not_exists_stmt := i, tmp_record := []\<rparr>"])
         (simp add: represents_table_def builder_ok_def readers_ok_def feeds_def files_def same_table_def)
  qed
  show ?thesis
  proof (cases "held a")
    case (Some r)
    then have tr: "tmp_record qb = r" "r \<noteq> []" "length r = length (qb_field_names qb)"
      using assms(1) by (auto simp: represents_table_def holds_back_def)
    moreover have "q = Some (Update r)" "a' = a\<lparr>held := None, due := Some r\<rparr>"
      using assms(2) due Some by (auto simp: abs_next_def)
    moreover from this obtain u qb2 where "update_query qb = Inr (u, qb2)" "represents_table lim qb2 a'" "same_table qb qb2"
      "inserted qb2 = inserted qb" "u \<noteq> []"
      "query_text (qb_table qb) (qb_field_names qb) (qb_unique_mask qb) (Update r) = Inr u"
      using upd [of qb r a'] ok key fd sk mem tr by auto
    ultimately show ?thesis
      using stmt by (simp add: next_query_def roomy_def same_table_def)
  next
    case None
    then have tmp: "tmp_record qb = []" using assms(1) by (simp add: represents_table_def)
    obtain b st S rest where g: "gather (qb_unique_mask qb) 501 (members (inserted qb)) (remaining a) = (b, st, S, rest)"
      by (metis prod_cases4)
    note rs = gather_records [OF g]
    have lens: "\<forall>r\<in>set (remaining a). length r = length (qb_field_names qb)" by (rule feeds_lengths [OF rok fd])
    from collect_spec [OF ok fd sk tmp _ g, of "[]"]
    consider (oom) "collect lim [] qb = Inl Throws_Bad_Alloc" "\<forall>K. \<not> roomy lim K qb (remaining a)"
      | (ok) qb' where "builder_ok lim qb'" "feeds qb' rest" "members (inserted qb') = S" "same_table qb qb'"
        "insert_if_not_exists_stmt qb' = []" "\<forall>K. roomy lim K qb (remaining a) \<longrightarrow> reserved lim K (inserted qb')"
        "case st of
           Full \<Rightarrow> collect lim [] qb = Inr (Batch b qb') \<and> tmp_record qb' = []
         | Repeated r \<Rightarrow> collect lim [] qb = Inr (Batch b qb') \<and> holds_back qb' r rest
         | Ended \<Rightarrow> collect lim [] qb = Inr (No_More qb') \<and> tmp_record qb' = []"
      unfolding append_Nil stmt by fastforce
    then show ?thesis
    proof cases
      case oom
      then show ?thesis using stmt tmp by (simp add: next_query_def)
    next
      case (ok qb')
      have names: "qb_field_names qb' = qb_field_names qb" "qb_unique_mask qb' = qb_unique_mask qb"
        "qb_table qb' = qb_table qb" using ok(4) by (simp_all add: same_table_def)
      have sk': "short_keys (qb_unique_mask qb') rest"
        using sk rs names by (auto simp: short_keys_def split: stop.splits)
      have "set rest \<subseteq> set (remaining a)" using rs by (auto split: stop.splits)
      then have room: "roomy lim K qb (remaining a) \<Longrightarrow> roomy lim K qb' rest" for K
        using ok(6) names unfolding roomy_def by auto
      show ?thesis
      proof (cases st)
        case Full
        then have b: "b \<noteq> []" using gather_length [of _ 501] g by fastforce
        obtain u where "query_text (qb_table qb) (qb_field_names qb) (qb_unique_mask qb) (Insert b) = Inr u" "u \<noteq> []"
          using insert_query_spec [OF b] by blast
        moreover have "q = Some (Insert b)" "a' = a\<lparr>seen_keys := S, remaining := rest\<rparr>"
          using assms(2) due None g Full by (auto simp: abs_next_def mem)
        ultimately show ?thesis
          using ok Full stmt tmp b names key sk' due None room
          by (auto simp: next_query_def represents_table_def)
      next
        case Ended
        moreover have "q = None" "a' = a\<lparr>seen_keys := S, remaining := rest\<rparr>"
          using assms(2) due None g Ended by (auto simp: abs_next_def mem)
        ultimately show ?thesis
          using ok stmt tmp names key sk' due None room
          by (auto simp: next_query_def represents_table_def)
      next
        case (Repeated r)
        then have r: "length r = length (qb_field_names qb)" using rs lens by auto
        show ?thesis
        proof (cases "b = []")
          case True
          then have a': "q = Some (Update r)" "a' = a\<lparr>seen_keys := S, due := Some r, remaining := rest\<rparr>"
            using assms(2) due None g Repeated by (auto simp: abs_next_def mem)
          have "tmp_record qb' = r" using ok(7) Repeated by (simp add: holds_back_def)
          then obtain u qb2 where u: "update_query qb' = Inr (u, qb2)" "represents_table lim qb2 a'" "same_table qb' qb2"
            "inserted qb2 = inserted qb'" "u \<noteq> []" "query_text (qb_table qb') (qb_field_names qb') (qb_unique_mask qb') (Update r) = Inr u"
            using upd [of qb' r a'] ok(1,2,3) names key sk' r a'(2) None by auto
          have "roomy lim K qb (remaining a) \<Longrightarrow> roomy lim K qb2 rest" for K
            using room [of K] u(3,4) by (simp add: roomy_def same_table_def)
          then show ?thesis
            using u ok Repeated stmt tmp True names a' same_table_trans [OF ok(4)]
            by (auto simp: next_query_def)
        next
          case False
          obtain u where "query_text (qb_table qb) (qb_field_names qb) (qb_unique_mask qb) (Insert b) = Inr u" "u \<noteq> []"
            using insert_query_spec [OF False] by blast
          moreover have "q = Some (Insert b)" "a' = a\<lparr>seen_keys := S, held := Some r, remaining := rest\<rparr>"
            using assms(2) due None g Repeated False by (auto simp: abs_next_def mem)
          ultimately show ?thesis
            using ok Repeated stmt tmp False names key sk' due None r room
            by (auto simp: next_query_def represents_table_def)
        qed
      qed
    qed
  qed
qed

section \<open>A run of the table\<close>

text \<open>What the client does: ask for statements until the empty text comes back.\<close>

fun run_queries :: "nat \<Rightarrow> nat \<Rightarrow> query_builder \<Rightarrow> (string list \<times> query_builder) res" where
  "run_queries lim 0 qb = Inr ([], qb)"
| "run_queries lim (Suc n) qb =
     rbind (next_query lim qb) (\<lambda>(u, qb).
       if u = [] then Inr ([], qb)
       else rbind (run_queries lim n qb) (\<lambda>(us, qb). Inr (u # us, qb)))"

fun emitted :: "query \<Rightarrow> string list list" where
  "emitted (Insert b) = b"
| "emitted (Update r) = [r]"
| "emitted (Insert_If_Absent r) = []"

definition backlog :: "table_state \<Rightarrow> string list list" where
  "backlog a = (case held a of None \<Rightarrow> [] | Some r \<Rightarrow> [r]) @ remaining a"

text \<open>Statements still to come, at most.\<close>

definition todo :: "table_state \<Rightarrow> nat" where
  "todo a = 2 * length (backlog a) + (if due a = None then 0 else 1)"

text \<open>
  A sequence of queries against a database that knows the keys \<open>S\<close>: plain inserts only bring
  new keys, updates only name keys that were inserted before, and each update is followed by
  the conditional insert of the same record.
\<close>

fun consistent :: "16 word \<Rightarrow> 64 word set \<Rightarrow> query list \<Rightarrow> bool" where
  "consistent um S [] \<longleftrightarrow> True"
| "consistent um S (Insert b # qs) \<longleftrightarrow>
     b \<noteq> [] \<and> length b \<le> 501 \<and> distinct (map (key_hash um) b) \<and> S \<inter> key_hash um ` set b = {} \<and>
     consistent um (S \<union> key_hash um ` set b) qs"
| "consistent um S (Update r # qs) \<longleftrightarrow>
     key_hash um r \<in> S \<and> (case qs of [] \<Rightarrow> True | q # _ \<Rightarrow> q = Insert_If_Absent r) \<and> consistent um S qs"
| "consistent um S (Insert_If_Absent r # qs) \<longleftrightarrow> consistent um S qs"

definition held_seen :: "16 word \<Rightarrow> table_state \<Rightarrow> bool" where
  "held_seen um a \<longleftrightarrow> (\<forall>r. held a = Some r \<longrightarrow> key_hash um r \<in> seen_keys a)"

lemma gather_keys:
  assumes "gather um n S rs = (b, st, S', rest)"
  shows "S' = S \<union> key_hash um ` set b" "distinct (map (key_hash um) b)" "S \<inter> key_hash um ` set b = {}"
    "length b \<le> n" "st = Ended \<Longrightarrow> length b < n \<and> rest = []" "st = Repeated r \<Longrightarrow> key_hash um r \<in> S'"
proof -
  have "S' = S \<union> key_hash um ` set b \<and> distinct (map (key_hash um) b) \<and> S \<inter> key_hash um ` set b = {} \<and>
    length b \<le> n \<and> (st = Ended \<longrightarrow> length b < n \<and> rest = []) \<and> (\<forall>r. st = Repeated r \<longrightarrow> key_hash um r \<in> S')"
    using assms
  proof (induction n arbitrary: S rs b)
    case (Suc n)
    show ?case
    proof (cases rs)
      case Nil
      with Suc.prems show ?thesis by auto
    next
      case (Cons r rs')
      show ?thesis
      proof (cases "key_hash um r \<in> S")
        case True
        with Suc.prems Cons show ?thesis by auto
      next
        case False
        with Suc.prems Cons obtain b' where b: "gather um n (insert (key_hash um r) S) rs' = (b', st, S', rest)"
          "b = r # b'" by (auto split: prod.splits)
        from Suc.IH [OF b(1)] b(2) False show ?thesis by auto
      qed
    qed
  qed auto
  then show "S' = S \<union> key_hash um ` set b" "distinct (map (key_hash um) b)" "S \<inter> key_hash um ` set b = {}"
    "length b \<le> n" "st = Ended \<Longrightarrow> length b < n \<and> rest = []" "st = Repeated r \<Longrightarrow> key_hash um r \<in> S'"
    by auto
qed

lemma abs_next_some:
  assumes "abs_next um a = (Some q, a')"
  shows "backlog a = emitted q @ backlog a'" and "todo a' < todo a"
    and "held_seen um a \<Longrightarrow> held_seen um a'"
    and "due a' = (case q of Update r \<Rightarrow> Some r | _ \<Rightarrow> None)"
proof -
  note defs = abs_next_def backlog_def todo_def held_seen_def
  have "backlog a = emitted q @ backlog a' \<and> todo a' < todo a \<and>
    (held_seen um a \<longrightarrow> held_seen um a') \<and> due a' = (case q of Update r \<Rightarrow> Some r | _ \<Rightarrow> None)"
  proof (cases "due a")
    case None
    note due = this
    show ?thesis
    proof (cases "held a")
      case None
      obtain b st S rest where g: "gather um 501 (seen_keys a) (remaining a) = (b, st, S, rest)"
        by (metis prod_cases4)
      show ?thesis
        using assms due None gather_records [OF g] gather_keys [OF g] gather_length [of um 501 _ _ b S rest] g
        by (cases st) (auto simp: defs neq_Nil_conv split: if_splits)
    qed (use assms due in \<open>auto simp: defs\<close>)
  qed (use assms in \<open>auto simp: defs\<close>)
  then show "backlog a = emitted q @ backlog a'" "todo a' < todo a" "held_seen um a \<Longrightarrow> held_seen um a'"
    "due a' = (case q of Update r \<Rightarrow> Some r | _ \<Rightarrow> None)"
    by auto
qed

lemma abs_next_none:
  assumes "abs_next um a = (None, a')"
  shows "due a = None" "held a = None" "due a' = None" "held a' = None" "remaining a' = []" "length (remaining a) \<le> 500"
    "distinct (map (key_hash um) (remaining a))" "seen_keys a \<inter> key_hash um ` set (remaining a) = {}"
    "seen_keys a' = seen_keys a \<union> key_hash um ` set (remaining a)"
proof -
  have n: "due a = None" "held a = None" using assms by (auto simp: abs_next_def split: option.splits)
  obtain b st S rest where g: "gather um 501 (seen_keys a) (remaining a) = (b, st, S, rest)"
    by (metis prod_cases4)
  moreover have "st = Ended"
    using assms n g by (cases st) (auto simp: abs_next_def split: if_splits)
  ultimately have "remaining a = b" "a' = a\<lparr>seen_keys := S, remaining := []\<rparr>" "st = Ended"
    using assms n gather_records [OF g] gather_keys [OF g] by (auto simp: abs_next_def)
  with n gather_keys [OF g]
  show "due a = None" "held a = None" "due a' = None" "held a' = None" "remaining a' = []" "length (remaining a) \<le> 500"
    "distinct (map (key_hash um) (remaining a))" "seen_keys a \<inter> key_hash um ` set (remaining a) = {}"
    "seen_keys a' = seen_keys a \<union> key_hash um ` set (remaining a)"
    by auto
qed

text \<open>The end of the input in the middle of a batch: records with new keys only, fewer than 501.\<close>

lemma gather_all_new:
  assumes "length rs < n" and "distinct (map (key_hash um) rs)" and "S \<inter> key_hash um ` set rs = {}"
  shows "gather um n S rs = (rs, Ended, S \<union> key_hash um ` set rs, [])"
  using assms
proof (induction n arbitrary: S rs)
  case (Suc n)
  then show ?case by (cases rs) auto
qed simp

lemma abs_next_ends:
  assumes "due a = None" and "held a = None" and "length (remaining a) \<le> 500"
    and "distinct (map (key_hash um) (remaining a))" and "seen_keys a \<inter> key_hash um ` set (remaining a) = {}"
  shows "abs_next um a =
    (None, a\<lparr>seen_keys := seen_keys a \<union> key_hash um ` set (remaining a), remaining := []\<rparr>)"
  using assms gather_all_new [of "remaining a" 501 um "seen_keys a"] by (simp add: abs_next_def)

lemma abs_next_consistent:
  assumes "abs_next um a = (Some q, a')" and "held_seen um a"
    and "consistent um (seen_keys a') qs"
    and "\<And>r. due a' = Some r \<Longrightarrow> qs = [] \<or> hd qs = Insert_If_Absent r"
  shows "consistent um (seen_keys a) (q # qs)"
proof (cases "due a")
  case None
  note due = this
  show ?thesis
  proof (cases "held a")
    case None
    obtain b st S rest where g: "gather um 501 (seen_keys a) (remaining a) = (b, st, S, rest)"
      by (metis prod_cases4)
    show ?thesis
      using assms due None gather_keys [OF g] gather_length [of um 501 _ _ b S rest] g
      by (cases st) (auto simp: abs_next_def split: if_splits list.splits)
  qed (use assms due in \<open>auto simp: abs_next_def held_seen_def split: list.splits\<close>)
qed (use assms in \<open>auto simp: abs_next_def\<close>)

text \<open>The run as a whole, as the refinement of a run of the abstract machine.\<close>

definition texts_of :: "query_builder \<Rightarrow> query list \<Rightarrow> string list \<Rightarrow> bool" where
  "texts_of qb qs us \<longleftrightarrow>
     list_all2 (\<lambda>q u. query_text (qb_table qb) (qb_field_names qb) (qb_unique_mask qb) q = Inr u) qs us"

lemma same_table_texts: "same_table qb qb' \<Longrightarrow> texts_of qb' = texts_of qb"
  by (simp add: same_table_def texts_of_def fun_eq_iff)

lemma run_queries_spec:
  assumes "represents_table lim qb a" and "held_seen (qb_unique_mask qb) a"
  shows "run_queries lim n qb = Inl Throws_Bad_Alloc \<and> (\<forall>K. \<not> roomy lim K qb (remaining a)) \<or>
    (\<exists>us qb' qs a' lost. run_queries lim n qb = Inr (us, qb') \<and> texts_of qb qs us \<and>
      represents_table lim qb' a' \<and> same_table qb qb' \<and>
      backlog a = concat (map emitted qs) @ lost @ backlog a' \<and> length lost \<le> 500 \<and>
      consistent (qb_unique_mask qb) (seen_keys a) qs \<and>
      (\<forall>r. due a = Some r \<longrightarrow> qs = [] \<or> hd qs = Insert_If_Absent r) \<and>
      length us \<le> todo a \<and> (todo a < n \<longrightarrow> todo a' = 0))"
  using assms
proof (induction n arbitrary: qb a)
  case 0
  show ?case
    by (intro disjI2 exI [of _ "[]"] exI [of _ qb] exI [of _ a]) (simp add: 0 texts_of_def)
next
  case (Suc n)
  obtain q a1 where q: "abs_next (qb_unique_mask qb) a = (q, a1)" by (metis surj_pair)
  from next_query_step [OF Suc.prems(1) q]
  consider (oom) "next_query lim qb = Inl Throws_Bad_Alloc" "\<forall>K. \<not> roomy lim K qb (remaining a)"
    | (ok) u qb1 where "next_query lim qb = Inr (u, qb1)" "represents_table lim qb1 a1" "same_table qb qb1"
      "\<forall>K. roomy lim K qb (remaining a) \<longrightarrow> roomy lim K qb1 (remaining a1)"
      "case q of None \<Rightarrow> u = []
       | Some q \<Rightarrow> u \<noteq> [] \<and> query_text (qb_table qb) (qb_field_names qb) (qb_unique_mask qb) q = Inr u"
    by blast
  then show ?case
  proof cases
    case oom
    then show ?thesis by simp
  next
    case (ok u qb1)
    show ?thesis
    proof (cases q)
      case None
      note n = abs_next_none [OF q [unfolded None]]
      have "run_queries lim (Suc n) qb = Inr ([], qb1)" using ok None by simp
      moreover have "backlog a = remaining a @ backlog a1" using n by (simp add: backlog_def)
      ultimately show ?thesis
        using ok(2,3) n
        by (intro disjI2 exI [of _ "[]"] exI [of _ qb1] exI [of _ a1] exI [of _ "remaining a"])
           (simp add: texts_of_def todo_def backlog_def)
    next
      case (Some q')
      note s = abs_next_some [OF q [unfolded Some]]
      have um: "qb_unique_mask qb1 = qb_unique_mask qb" using ok(3) by (simp add: same_table_def)
      have "held_seen (qb_unique_mask qb1) a1" using s(3) Suc.prems(2) um by simp
      from Suc.IH [OF ok(2) this]
      consider (oom) "run_queries lim n qb1 = Inl Throws_Bad_Alloc" "\<forall>K. \<not> roomy lim K qb1 (remaining a1)"
        | (run) us qb' qs a' lost where "run_queries lim n qb1 = Inr (us, qb')" "texts_of qb1 qs us"
          "represents_table lim qb' a'" "same_table qb1 qb'"
          "backlog a1 = concat (map emitted qs) @ lost @ backlog a'" "length lost \<le> 500"
          "consistent (qb_unique_mask qb1) (seen_keys a1) qs"
          "\<forall>r. due a1 = Some r \<longrightarrow> qs = [] \<or> hd qs = Insert_If_Absent r"
          "length us \<le> todo a1" "todo a1 < n \<longrightarrow> todo a' = 0"
        by blast
      then show ?thesis
      proof cases
        case oom
        then show ?thesis using ok Some by simp
      next
        case run
        have "run_queries lim (Suc n) qb = Inr (u # us, qb')" using ok Some run(1) by simp
        moreover have "texts_of qb (q' # qs) (u # us)"
          using run(2) ok Some same_table_texts [OF ok(3)] by (simp add: texts_of_def)
        moreover have "consistent (qb_unique_mask qb) (seen_keys a) (q' # qs)"
          using abs_next_consistent [OF q [unfolded Some] Suc.prems(2)] run(7,8) um by simp
        moreover have "\<forall>r. due a = Some r \<longrightarrow> q' = Insert_If_Absent r"
          using q Some by (auto simp: abs_next_def)
        moreover have "backlog a = concat (map emitted (q' # qs)) @ lost @ backlog a'"
          using s(1) run(5) by simp
        moreover have "length (u # us) \<le> todo a" "todo a < Suc n \<longrightarrow> todo a' = 0"
          using s(2) run(9,10) by auto
        moreover have "same_table qb qb'" by (rule same_table_trans [OF ok(3) run(4)])
        ultimately show ?thesis using run(3,6) by (metis list.sel(1))
      qed
    qed
  qed
qed

section \<open>The segment and a new process\<close>

text \<open>What a segment stores, with what the constructor puts in its place when it is absent.\<close>

definition stored_keys :: "shm_segment \<Rightarrow> flat_hash_set" where
  "stored_keys seg = (case seg_inserted seg of None \<Rightarrow> empty_set_table | Some s \<Rightarrow> s)"

definition stored_handle :: "shm_segment \<Rightarrow> 8 word" where
  "stored_handle seg = (case seg_committed_handle_idx seg of None \<Rightarrow> 0 | Some i \<Rightarrow> i)"

definition stored_offset :: "shm_segment \<Rightarrow> int" where
  "stored_offset seg = (case seg_committed_offset seg of None \<Rightarrow> 0 | Some off \<Rightarrow> off)"

text \<open>The files of the task can be opened and have the contents \<open>fs\<close>.\<close>

definition opened :: "(string \<Rightarrow> c_file option) \<Rightarrow> TableTask \<Rightarrow> string list \<Rightarrow> bool" where
  "opened open_file t fs \<longleftrightarrow> map open_file (csvs t) = map (\<lambda>f. Some \<lparr>f_contents = f, f_pos = 0\<rparr>) fs"

definition task_of :: "query_builder \<Rightarrow> TableTask \<Rightarrow> bool" where
  "task_of qb t \<longleftrightarrow>
     qb_field_names qb = field_names (ddl_info t) \<and> qb_unique_mask qb = unique_mask (ddl_info t) \<and>
     qb_float_mask qb = float_mask (ddl_info t) \<and> qb_table qb = table t"

text \<open>A segment from which the records \<open>rs\<close> of the files \<open>fs\<close> remain.\<close>

definition resumable :: "nat \<Rightarrow> shm_segment \<Rightarrow> TableTask \<Rightarrow> string list \<Rightarrow> string list list \<Rightarrow> bool" where
  "resumable lim seg t fs rs \<longleftrightarrow>
     set_ok lim (stored_keys seg) \<and> length fs \<le> 255 \<and>
     keyed (field_names (ddl_info t)) (unique_mask (ddl_info t)) \<and>
     short_keys (unique_mask (ddl_info t)) rs \<and>
     feeds_at (float_mask (ddl_info t)) (length (field_names (ddl_info t))) fs
       (unat (stored_handle seg)) (stored_offset seg) rs"

definition start_of :: "shm_segment \<Rightarrow> string list list \<Rightarrow> table_state" where
  "start_of seg rs = \<lparr>seen_keys = members (stored_keys seg), held = None, due = None, remaining = rs\<rparr>"

lemma opened_readers:
  assumes "opened open_file t fs"
  shows "map (\<lambda>c. BufferedReader (open_file c)) (csvs t) =
    map (\<lambda>f. BufferedReader (Some \<lparr>f_contents = f, f_pos = 0\<rparr>)) fs"
proof -
  have "map BufferedReader (map open_file (csvs t)) = map BufferedReader (map (\<lambda>f. Some \<lparr>f_contents = f, f_pos = 0\<rparr>) fs)"
    using assms by (simp add: opened_def)
  then show ?thesis by (simp add: comp_def)
qed

lemma QueryBuilder_spec:
  assumes "opened open_file t fs" and "state_shape raw" and "resumable lim (shm (mem_id t)) t fs rs"
  shows "case reserve lim (stored_keys (shm (mem_id t))) INSERTED_TABLE_RESERVED_SIZE of
      Inl e \<Rightarrow> QueryBuilder lim (Some raw) open_file shm t = Inl e \<and> e = Throws_Bad_Alloc
    | Inr ins \<Rightarrow> \<exists>qb. QueryBuilder lim (Some raw) open_file shm t = Inr qb \<and> inserted qb = ins \<and>
        represents_table lim qb (start_of (shm (mem_id t)) rs) \<and> task_of qb t \<and> files qb = fs \<and>
        committed_handle_idx qb = stored_handle (shm (mem_id t)) \<and>
        committed_offset qb = stored_offset (shm (mem_id t))"
proof -
  let ?seg = "shm (mem_id t)"
  define k where "k = unat (stored_handle ?seg)"
  let ?hs = "map (\<lambda>f. BufferedReader (Some \<lparr>f_contents = f, f_pos = 0\<rparr>)) fs"
  have r: "set_ok lim (stored_keys ?seg)" "length fs \<le> 255" "keyed (field_names (ddl_info t)) (unique_mask (ddl_info t))"
    "short_keys (unique_mask (ddl_info t)) rs"
    "feeds_at (float_mask (ddl_info t)) (length (field_names (ddl_info t))) fs k (stored_offset ?seg) rs"
    using assms(3) by (simp_all add: resumable_def k_def)
  then have k: "k < length fs" "0 \<le> stored_offset ?seg" by (auto simp: feeds_at_def)
  then have hk: "reader_ok (?hs ! k)" by (simp add: reader_ok_new)
  obtain h where h: "seek (stored_offset ?seg) (?hs ! k) = Inr h" "reader_ok h" "offset h = stored_offset ?seg"
    "contents h = contents (?hs ! k)"
    by (rule seek_ok [OF hk k(2)]) auto
  obtain hs where hst: "XXH3_createState (Some raw) = Some hs" "usable sse2_kernel hs"
    using usable.created [OF assms(2), of _ sse2_kernel] by (auto simp: XXH3_createState_def)
  have built: "QueryBuilder lim (Some raw) open_file shm t =
    rbind (reserve lim (stored_keys ?seg) INSERTED_TABLE_RESERVED_SIZE) (\<lambda>ins.
      Inr \<lparr>hash_state = Some hs, qb_field_names = field_names (ddl_info t),
           qb_unique_mask = unique_mask (ddl_info t), qb_float_mask = float_mask (ddl_info t),
           qb_table = table t, handle_idx = stored_handle ?seg, csv_handles = ?hs[k := h], inserted = ins,
           tmp_record = [], tmp_handle_idx = 0, tmp_offset = 0,
           committed_handle_idx = stored_handle ?seg, committed_offset = stored_offset ?seg,
           insert_if_not_exists_stmt = []\<rparr>)"
    using k(1) h(1) hst(1)
    by (simp add: QueryBuilder_def opened_readers [OF assms(1)] Let_def
        k_def stored_keys_def stored_handle_def stored_offset_def)
  have fs: "map contents (?hs[k := h]) = fs"
    using k(1) h(4) by (simp add: map_contents_update comp_def contents_def BufferedReader_def)
  have rd: "\<forall>x\<in>set (?hs[k := h]). reader_ok x"
    using h(2) by (auto simp: reader_ok_new dest!: set_update_subset_insert [THEN subsetD])
  have names: "0 < length (field_names (ddl_info t))" "length (field_names (ddl_info t)) \<le> 32"
    using r(3) by (auto simp: keyed_def)
  have "case reserve lim (stored_keys ?seg) INSERTED_TABLE_RESERVED_SIZE of
      Inl e \<Rightarrow> e = Throws_Bad_Alloc
    | Inr ins \<Rightarrow> table_ok lim ins \<and> members ins = members (stored_keys ?seg) \<and>
        2 * INSERTED_TABLE_RESERVED_SIZE \<le> slots ins"
    by (rule reserve_spec) (use r(1) in \<open>simp_all add: set_ok_def INSERTED_TABLE_RESERVED_SIZE_def\<close>)
  then show ?thesis
    using r k h(3) hst(2) fs rd names
    by (auto simp: built represents_table_def builder_ok_def readers_ok_def set_ok_def feeds_def files_def
        start_of_def task_of_def k_def nth_list_update BufferedReader_def offset_def split: sum.splits)
qed

text \<open>With room for the keys, the constructor does not fail, and no call of \<open>next_query\<close> will.\<close>

lemma QueryBuilder_room:
  assumes "opened open_file t fs" and "state_shape raw" and "resumable lim (shm (mem_id t)) t fs rs"
    and "room_for lim K (stored_keys (shm (mem_id t)))" and "key_hash (unique_mask (ddl_info t)) ` set rs \<subseteq> K"
  shows "\<exists>qb. QueryBuilder lim (Some raw) open_file shm t = Inr qb \<and> roomy lim K qb rs"
  using QueryBuilder_spec [OF assms(1,2), of lim shm rs] assms(3) reserve_room [OF assms(4)] assms(5)
  by (auto simp: INSERTED_TABLE_RESERVED_SIZE_def roomy_def task_of_def)

lemma commit_due: "insert_if_not_exists_stmt qb \<noteq> [] \<Longrightarrow> commit qb = Inr qb"
  by (simp add: commit_def)

text \<open>
  \<open>commit\<close> with no conditional insert due: what it records is the position of the record
  held back, or else of the next record.
\<close>

lemma commit_resumable:
  assumes "represents_table lim qb a" and "due a = None" and "short_keys (qb_unique_mask qb) (backlog a)"
    and "task_of qb t"
  shows "\<exists>qb'. commit qb = Inr qb' \<and> represents_table lim qb' a \<and>
    resumable lim (segment_of qb') t (files qb) (backlog a) \<and> stored_keys (segment_of qb') = inserted qb"
proof -
  let ?qb = "if tmp_record qb = []
     then qb\<lparr>committed_handle_idx := handle_idx qb, committed_offset := offset (csv_handles qb ! unat (handle_idx qb))\<rparr>
     else qb\<lparr>committed_handle_idx := tmp_handle_idx qb, committed_offset := tmp_offset qb\<rparr>"
  have r: "builder_ok lim qb" "readers_ok qb" "keyed (qb_field_names qb) (qb_unique_mask qb)" "feeds qb (remaining a)"
    "case held a of None \<Rightarrow> tmp_record qb = []
      | Some r \<Rightarrow> length r = length (qb_field_names qb) \<and> holds_back qb r (remaining a)"
    "insert_if_not_exists_stmt qb = []"
    using assms(1,2) by (auto simp: represents_table_def builder_ok_def)
  have "commit qb = Inr ?qb"
    using r(2,6) by (auto simp: commit_def readers_ok_def)
  moreover have "represents_table lim ?qb a"
    using assms(1)
    by (simp add: represents_table_def builder_ok_def readers_ok_def feeds_def files_def holds_back_def
        split: option.splits)
  moreover have "resumable lim (segment_of ?qb) t (files qb) (backlog a)"
  proof (cases "held a")
    case None
    then show ?thesis
      using r assms(3,4)
      by (simp add: resumable_def segment_of_def stored_keys_def stored_handle_def stored_offset_def
          builder_ok_def task_of_def backlog_def feeds_def files_def readers_ok_def)
  next
    case (Some r)
    then show ?thesis
      using r assms(3,4)
      by (simp add: resumable_def segment_of_def stored_keys_def stored_handle_def stored_offset_def
          builder_ok_def task_of_def backlog_def holds_back_def files_def readers_ok_def)
  qed
  moreover have "stored_keys (segment_of ?qb) = inserted qb"
    by (simp add: segment_of_def stored_keys_def)
  ultimately show ?thesis by blast
qed

text \<open>Nothing is committed between the two statements of a record.\<close>

lemma commit_keeps_due:
  assumes "represents_table lim qb a" and "due a = Some r"
  shows "commit qb = Inr qb"
  using assms by (simp add: represents_table_def commit_def)

section \<open>A sample table\<close>

definition sample_task :: TableTask where
  "sample_task =
     \<lparr>db = ''d'', table = ''t'', table_ddl = [],
      ddl_info = \<lparr>field_names = [''id'', ''v'', ''u''], unique_mask = 1, float_mask = 0, double_mask = 0\<rparr>,
      csvs = [''a'', ''b'']\<rparr>"

definition sample_files :: "string list" where
  "sample_files = [''1,x,7'' @ [CHR 0x0A] @ ''2,y,7'' @ [CHR 0x0A], ''3,z,8'' @ [CHR 0x0A]]"

definition sample_open :: "string \<Rightarrow> c_file option" where
  "sample_open p = (if p = ''a'' then Some \<lparr>f_contents = sample_files ! 0, f_pos = 0\<rparr>
     else if p = ''b'' then Some \<lparr>f_contents = sample_files ! 1, f_pos = 0\<rparr> else None)"

definition sample_records :: "string list list" where
  "sample_records = [[''1'', ''x'', ''7''], [''2'', ''y'', ''7''], [''3'', ''z'', ''8'']]"

text \<open>A segment without keys, with the position given.\<close>

definition segment_at :: "8 word \<Rightarrow> int \<Rightarrow> shm_segment" where
  "segment_at k off = \<lparr>seg_inserted = None, seg_committed_handle_idx = Some k, seg_committed_offset = Some off\<rparr>"

lemma segment_at_simps [simp]:
  "stored_keys (segment_at k off) = empty_set_table" "stored_handle (segment_at k off) = k"
  "stored_offset (segment_at k off) = off"
  by (simp_all add: segment_at_def stored_keys_def stored_handle_def stored_offset_def)

lemma sample_feeds:
  "feeds_at 0 3 sample_files 0 0 sample_records"
  "feeds_at 0 3 sample_files 1 0 (drop 2 sample_records)"
  "feeds_at 0 3 sample_files 1 6 []"
proof -
  have y: "yields (texts_at sample_files 0 0) sample_records"
    by (simp add: texts_at_def sample_files_def)
       (rule exI [of _ "take 2 sample_records"], rule exI [of _ "drop 2 sample_records"],
        simp add: sample_records_def)
  have raw: "\<forall>raw\<in>set sample_records. raw_ok 3 raw"
    by (simp add: sample_records_def raw_ok_def is_sep_def EOF_char_def) code_simp
  have n: "map (norm_fields 0 0) sample_records = map Inr sample_records"
    by (simp add: sample_records_def)
  show "feeds_at 0 3 sample_files 0 0 sample_records"
    using y raw n by (auto simp: feeds_at_def sample_files_def)
  have "yields (texts_at sample_files 1 0) (drop 2 sample_records)"
    by (simp add: texts_at_def sample_files_def sample_records_def)
  moreover have "\<forall>raw\<in>set (drop 2 sample_records). raw_ok 3 raw" using raw by (meson in_set_dropD)
  moreover have "map (norm_fields 0 0) (drop 2 sample_records) = map Inr (drop 2 sample_records)"
    using n by (metis drop_map)
  moreover have "1 < length sample_files" "(0 :: int) \<le> 0" by (simp_all add: sample_files_def)
  ultimately show "feeds_at 0 3 sample_files 1 0 (drop 2 sample_records)"
    unfolding feeds_at_def by blast
  show "feeds_at 0 3 sample_files 1 6 []"
    by (simp add: feeds_at_def texts_at_def sample_files_def)
qed

lemma sample_opened: "opened sample_open sample_task sample_files"
  by (simp add: opened_def sample_open_def sample_task_def sample_files_def)

lemma sample_resumable:
  assumes "feeds_at 0 3 sample_files (unat k) off rs" and "set rs \<subseteq> set sample_records"
  shows "resumable 18874368 (segment_at k off) sample_task sample_files rs"
proof -
  have "bit (1 :: 16 word) 0" "\<not> bit (1 :: 16 word) 1" by simp_all
  then have "keyed [''id'', ''v'', ''u''] (1 :: 16 word)"
    unfolding keyed_def by (intro conjI exI [of _ 0] exI [of _ 1]) simp_all
  moreover have "short_keys 1 sample_records"
    by (simp add: short_keys_def sample_records_def key_bytes_def string_bytes_def)
  then have "short_keys 1 rs" using assms(2) by (auto simp: short_keys_def)
  moreover have "length sample_files \<le> 255" by (simp add: sample_files_def)
  ultimately show ?thesis
    using assms(1)
    by (simp add: resumable_def set_ok_def table_ok_def sample_task_def numeral_3_eq_3)
qed

definition sample_keys :: "64 word set" where
  "sample_keys = key_hash 1 ` set sample_records"

lemma sample_room: "room_for 18874368 sample_keys empty_set_table"
proof -
  have "card sample_keys \<le> length sample_records"
    unfolding sample_keys_def by (metis card_image_le card_length le_trans List.finite_set)
  then show ?thesis by (simp add: room_for_def sample_keys_def sample_records_def)
qed

lemma sample_builder:
  assumes "feeds_at 0 3 sample_files (unat k) off rs" and "set rs \<subseteq> set sample_records"
  obtains qb where "represents_table 18874368 qb (start_of (segment_at k off) rs)" "task_of qb sample_task"
    "files qb = sample_files" "roomy 18874368 sample_keys qb rs"
proof -
  have "state_shape raw_state" by (simp add: state_shape_def raw_state_def)
  note at = sample_opened this and res = sample_resumable [OF assms]
  have "key_hash (unique_mask (ddl_info sample_task)) ` set rs \<subseteq> sample_keys"
    using assms(2) by (auto simp: sample_keys_def sample_task_def)
  then show ?thesis
    using QueryBuilder_room [OF at(1,2), of 18874368 "\<lambda>_. segment_at k off" rs sample_keys]
      QueryBuilder_spec [OF at(1,2), of 18874368 "\<lambda>_. segment_at k off" rs] res sample_room that
    by (auto split: sum.splits)
qed

lemma sample_due_builder:
  obtains qb u where "represents_table 18874368 (qb\<lparr>insert_if_not_exists_stmt := u\<rparr>)
      \<lparr>seen_keys = {}, held = None, due = Some (last sample_records), remaining = []\<rparr>" "u \<noteq> []"
proof -
  obtain qb where qb: "represents_table 18874368 qb (start_of (segment_at 1 6) [])" "task_of qb sample_task"
    using sample_feeds by (auto intro: sample_builder [of 1 6 "[]"])
  have "keyed (qb_field_names qb) (qb_unique_mask qb)" "length (last sample_records) = length (qb_field_names qb)"
    using qb by (simp_all add: represents_table_def task_of_def sample_task_def sample_records_def)
  then obtain u where u: "query_text (qb_table qb) (qb_field_names qb) (qb_unique_mask qb)
      (Insert_If_Absent (last sample_records)) = Inr u" "u \<noteq> []"
    using update_query_spec [of "qb\<lparr>tmp_record := last sample_records\<rparr>" "last sample_records"] by auto
  have "represents_table 18874368 (qb\<lparr>insert_if_not_exists_stmt := u\<rparr>)
      \<lparr>seen_keys = {}, held = None, due = Some (last sample_records), remaining = []\<rparr>"
    using qb u \<open>length (last sample_records) = _\<close>
    by (simp add: represents_table_def start_of_def builder_ok_def readers_ok_def feeds_def files_def)
  with u(2) that show ?thesis by blast
qed

lemma start_simps [simp]:
  "held (start_of seg rs) = None" "due (start_of seg rs) = None" "remaining (start_of seg rs) = rs"
  "backlog (start_of seg rs) = rs" "todo (start_of seg rs) = 2 * length rs" "held_seen um (start_of seg rs)"
  by (simp_all add: start_of_def backlog_def todo_def held_seen_def)

lemma start_seen [simp]: "seen_keys (start_of (segment_at k off) rs) = {}"
  by (simp add: start_of_def)

section \<open>Properties\<close>

text \<open>
  (C3) \<open>next_query\<close> refines the abstract machine on records.  It never reads outside an
  array or memory that was not written, whatever the contents of the fields, and fails only
  when the shared segment is full, which it is not while the table has room for the keys; else it returns the text of the abstract query, the empty
  text when there is none, and keeps the invariant of the builder: readers, hash table, hash
  state, the record held back and its position.
\<close>

theorem next_query_refines:
  assumes "represents_table lim qb a" and "abs_next (qb_unique_mask qb) a = (q, a')"
  shows "next_query lim qb = Inl Throws_Bad_Alloc \<and> (\<forall>K. \<not> roomy lim K qb (remaining a)) \<or>
    (\<exists>u qb'. next_query lim qb = Inr (u, qb') \<and> represents_table lim qb' a' \<and> same_table qb qb' \<and>
      (\<forall>K. roomy lim K qb (remaining a) \<longrightarrow> roomy lim K qb' (remaining a')) \<and>
      (case q of None \<Rightarrow> u = []
       | Some q \<Rightarrow> u \<noteq> [] \<and> query_text (qb_table qb) (qb_field_names qb) (qb_unique_mask qb) q = Inr u))"
  using assms by (rule next_query_step)

theorem next_query_refines_witness:
  "\<exists>qb a. represents_table 18874368 qb a \<and> held a = None \<and> due a = None \<and> remaining a = sample_records \<and>
    next_query 18874368 qb \<in> range Inr"
proof -
  obtain qb where qb: "represents_table 18874368 qb (start_of (segment_at 0 0) sample_records)"
    "roomy 18874368 sample_keys qb sample_records"
    using sample_feeds by (auto intro: sample_builder [of 0 0 sample_records])
  obtain q a' where q: "abs_next (qb_unique_mask qb) (start_of (segment_at 0 0) sample_records) = (q, a')"
    by (metis surj_pair)
  from next_query_refines [OF qb(1) q] qb show ?thesis
    by (intro exI [of _ qb] exI [of _ "start_of (segment_at 0 0) sample_records"]) auto
qed

text \<open>
  (C4) A run of a table: the statements, in order, carry the records of the table, in order,
  except for at most 500 records that are lost.  Plain inserts bring new keys only, updates
  follow the insert of their key, and each update is followed by the conditional insert of
  the same record, so the statements can be executed in order.
\<close>

theorem run_queries_accounts:
  assumes "represents_table lim qb a" and "held_seen (qb_unique_mask qb) a"
    and "run_queries lim n qb = Inr (us, qb')"
  shows "\<exists>qs a' lost. texts_of qb qs us \<and> represents_table lim qb' a' \<and>
    backlog a = concat (map emitted qs) @ lost @ backlog a' \<and> length lost \<le> 500 \<and>
    consistent (qb_unique_mask qb) (seen_keys a) qs"
  using run_queries_spec [OF assms(1,2), of n] assms(3) by fastforce

theorem run_queries_accounts_witness:
  "\<exists>qb us qb' qs a' lost. run_queries 18874368 1 qb = Inr (us, qb') \<and> us \<noteq> [] \<and> texts_of qb qs us \<and>
    represents_table 18874368 qb' a' \<and> concat (map emitted qs) @ lost @ backlog a' = [] \<and>
    consistent (qb_unique_mask qb) {} qs"
proof -
  let ?a = "\<lparr>seen_keys = {}, held = None, due = Some (last sample_records), remaining = []\<rparr>"
  obtain qb0 u where qb: "represents_table 18874368 (qb0\<lparr>insert_if_not_exists_stmt := u\<rparr>) ?a" "u \<noteq> []"
    by (rule sample_due_builder)
  let ?qb = "qb0\<lparr>insert_if_not_exists_stmt := u\<rparr>"
  have r: "run_queries 18874368 1 ?qb = Inr ([u], qb0\<lparr>insert_if_not_exists_stmt := []\<rparr>)"
    using qb(2) by (simp add: next_query_def)
  have "held_seen (qb_unique_mask ?qb) ?a" by (simp add: held_seen_def)
  from run_queries_accounts [OF qb(1) this r] obtain qs a' lost where "texts_of ?qb qs [u]"
    "represents_table 18874368 (qb0\<lparr>insert_if_not_exists_stmt := []\<rparr>) a'"
    "concat (map emitted qs) @ lost @ backlog a' = []" "consistent (qb_unique_mask ?qb) {} qs"
    by (auto simp: backlog_def)
  with r show ?thesis by blast
qed

text \<open>
  (C11) A run ends: a table of \<open>n\<close> records takes at most \<open>2 n + 1\<close> statements, and asking
  that often exhausts it, nothing held back and no statement due.
\<close>

theorem run_queries_ends:
  assumes "represents_table lim qb a" and "held_seen (qb_unique_mask qb) a" and "2 * length (backlog a) + 1 < n"
  shows "run_queries lim n qb = Inl Throws_Bad_Alloc \<and> (\<forall>K. \<not> roomy lim K qb (remaining a)) \<or>
    (\<exists>us qb' a'. run_queries lim n qb = Inr (us, qb') \<and> length us \<le> 2 * length (backlog a) + 1 \<and>
      represents_table lim qb' a' \<and> backlog a' = [] \<and> due a' = None)"
proof -
  have "todo a \<le> 2 * length (backlog a) + 1" by (simp add: todo_def)
  moreover from this have "todo a < n" using assms(3) by simp
  moreover have "todo a' = 0 \<longleftrightarrow> backlog a' = [] \<and> due a' = None" for a' by (simp add: todo_def)
  ultimately show ?thesis
    using run_queries_spec [OF assms(1,2), of n] by fastforce
qed

theorem run_queries_ends_witness:
  "\<exists>qb us qb' a'. files qb = sample_files \<and> run_queries 18874368 8 qb = Inr (us, qb') \<and> length us \<le> 7 \<and>
      represents_table 18874368 qb' a' \<and> backlog a' = [] \<and> due a' = None"
proof -
  obtain qb where qb: "represents_table 18874368 qb (start_of (segment_at 0 0) sample_records)" "files qb = sample_files"
    "roomy 18874368 sample_keys qb sample_records"
    using sample_feeds by (auto intro: sample_builder [of 0 0 sample_records])
  have "length sample_records = 3" by (simp add: sample_records_def)
  then obtain us qb' a' where "run_queries 18874368 8 qb = Inr (us, qb')" "length us \<le> 7"
    "represents_table 18874368 qb' a'" "backlog a' = []" "due a' = None"
    using run_queries_ends [OF qb(1), of 8] qb(3) by auto
  with qb(2) show ?thesis by blast
qed

text \<open>
  (C9) The last records are lost: when the input ends before a batch of 501 is full, and no
  known key interrupts it, \<open>next_query\<close> returns the empty text, which means that there are
  no more queries, and drops the records it has collected.  Their keys stay in the segment.
  A table of at most 500 distinct new keys produces no statement.
\<close>

theorem next_query_loses_last_batch:
  assumes "represents_table lim qb a" and "due a = None" and "held a = None"
    and "length (remaining a) \<le> 500" and "distinct (map (key_hash (qb_unique_mask qb)) (remaining a))"
    and "seen_keys a \<inter> key_hash (qb_unique_mask qb) ` set (remaining a) = {}"
  shows "next_query lim qb = Inl Throws_Bad_Alloc \<and> (\<forall>K. \<not> roomy lim K qb (remaining a)) \<or>
    (\<exists>qb' a'. next_query lim qb = Inr ([], qb') \<and> represents_table lim qb' a' \<and> backlog a' = [] \<and> due a' = None \<and>
      seen_keys a' = seen_keys a \<union> key_hash (qb_unique_mask qb) ` set (remaining a))"
proof -
  note abs_next_ends [OF assms(2-6)]
  from next_query_step [OF assms(1) this] assms(2,3) show ?thesis
    by (fastforce simp: backlog_def)
qed

theorem next_query_loses_last_batch_witness:
  "\<exists>qb a. represents_table 18874368 qb a \<and> remaining a = [[''3'', ''z'', ''8'']] \<and>
    (\<exists>qb' a'. next_query 18874368 qb = Inr ([], qb') \<and> represents_table 18874368 qb' a' \<and> backlog a' = [])"
proof -
  have "set (drop 2 sample_records) \<subseteq> set sample_records" by (rule set_drop_subset)
  then obtain qb where qb: "represents_table 18874368 qb (start_of (segment_at 1 0) (drop 2 sample_records))"
    "roomy 18874368 sample_keys qb (drop 2 sample_records)"
    using sample_feeds by (auto intro: sample_builder [of 1 0 "drop 2 sample_records"])
  from next_query_loses_last_batch [OF qb(1)] qb show ?thesis
    by (intro exI [of _ qb] exI [of _ "start_of (segment_at 1 0) (drop 2 sample_records)"])
       (auto simp: sample_records_def)
qed

text \<open>
  (C7) \<open>commit\<close> and a restart: unless a conditional insert is due (then \<open>commit\<close> does
  nothing), a new builder on the same files and the segment that \<open>commit\<close> left starts
  exactly at the first record that was not in a statement, with the same keys, so no record
  is skipped and none that was committed is repeated.
\<close>

theorem commit_resumes:
  assumes "represents_table lim qb a" and "due a = None" and "short_keys (qb_unique_mask qb) (backlog a)"
    and "commit qb = Inr qb1" and "task_of qb t" and "shm (mem_id t) = segment_of qb1"
    and "opened open_file t (files qb)" and "state_shape raw"
  shows "case QueryBuilder lim (Some raw) open_file shm t of
      Inl e \<Rightarrow> e = Throws_Bad_Alloc \<and> (\<forall>K. \<not> room_for lim K (inserted qb))
    | Inr qb2 \<Rightarrow> represents_table lim qb2
        \<lparr>seen_keys = seen_keys a, held = None, due = None, remaining = backlog a\<rparr> \<and> task_of qb2 t"
proof -
  have c: "resumable lim (segment_of qb1) t (files qb) (backlog a)" "stored_keys (segment_of qb1) = inserted qb"
    using commit_resumable [OF assms(1,2,3,5)] assms(4) by auto
  have "members (inserted qb) = seen_keys a" using assms(1) by (simp add: represents_table_def)
  then show ?thesis
    using QueryBuilder_spec [OF assms(7,8), of lim shm "backlog a"] c assms(6) reserve_room [of lim _ "inserted qb"]
    by (auto simp: start_of_def INSERTED_TABLE_RESERVED_SIZE_def split: sum.splits)
qed

theorem commit_resumes_witness:
  "\<exists>qb qb1. represents_table 18874368 qb (start_of (segment_at 0 0) sample_records) \<and> commit qb = Inr qb1 \<and>
    (case QueryBuilder 18874368 (Some raw_state) sample_open (\<lambda>_. segment_of qb1) sample_task of
       Inl e \<Rightarrow> False
     | Inr qb2 \<Rightarrow> represents_table 18874368 qb2 (start_of (segment_at 0 0) sample_records))"
proof -
  obtain qb where qb: "represents_table 18874368 qb (start_of (segment_at 0 0) sample_records)"
    "task_of qb sample_task" "files qb = sample_files" "roomy 18874368 sample_keys qb sample_records"
    using sample_feeds by (auto intro: sample_builder [of 0 0 sample_records])
  have room: "room_for 18874368 sample_keys (inserted qb)"
    using qb(4) sample_room by (simp add: room_for_def roomy_def)
  have due: "due (start_of (segment_at 0 0) sample_records) = None"
    and short: "short_keys (qb_unique_mask qb) (backlog (start_of (segment_at 0 0) sample_records))"
    using qb(1) by (simp_all add: represents_table_def)
  obtain qb1 where c: "commit qb = Inr qb1"
    using commit_resumable [OF qb(1) due short qb(2)] by auto
  have "opened sample_open sample_task (files qb)" "state_shape raw_state"
    using sample_opened qb(3) by (simp_all add: state_shape_def raw_state_def)
  from commit_resumes [OF qb(1) due short c qb(2) _ this, of "\<lambda>_. segment_of qb1"]
  have "case QueryBuilder 18874368 (Some raw_state) sample_open (\<lambda>_. segment_of qb1) sample_task of
       Inl e \<Rightarrow> False
     | Inr qb2 \<Rightarrow> represents_table 18874368 qb2 (start_of (segment_at 0 0) sample_records)"
    using room by (auto simp: start_of_def backlog_def split: sum.splits)
  with qb(1) c show ?thesis by blast
qed

text \<open>
  (C25) The constructor on a segment that is new, or that another process left: the builder
  it makes satisfies the invariant and stands at the committed position.
\<close>

theorem QueryBuilder_correct:
  assumes "opened open_file t fs" and "state_shape raw" and "resumable lim (shm (mem_id t)) t fs rs"
  shows "case QueryBuilder lim (Some raw) open_file shm t of
      Inl e \<Rightarrow> e = Throws_Bad_Alloc \<and> (\<forall>K. \<not> room_for lim K (stored_keys (shm (mem_id t))))
    | Inr qb \<Rightarrow> represents_table lim qb (start_of (shm (mem_id t)) rs) \<and> task_of qb t \<and> files qb = fs"
  using QueryBuilder_spec [OF assms(1,2), of lim shm rs] assms(3) reserve_room [of lim _ "stored_keys (shm (mem_id t))"]
  by (auto simp: INSERTED_TABLE_RESERVED_SIZE_def split: sum.splits)

theorem QueryBuilder_correct_witness:
  "case QueryBuilder 18874368 (Some raw_state) sample_open (\<lambda>_. segment_at 1 0) sample_task of
      Inl e \<Rightarrow> False
    | Inr qb \<Rightarrow> represents_table 18874368 qb (start_of (segment_at 1 0) [[''3'', ''z'', ''8'']])"
  using QueryBuilder_correct [OF sample_opened, of raw_state 18874368 "\<lambda>_. segment_at 1 0" "drop 2 sample_records"]
    sample_room sample_resumable [of 1 0 "drop 2 sample_records"] sample_feeds(2) set_drop_subset [of 2 sample_records]
  by (auto simp: sample_records_def state_shape_def raw_state_def split: sum.splits)

end
