(* ===== verification/Interrupted_Calls.thy ===== *)
theory Interrupted_Calls
  imports Query_Refinement
begin

text \<open>
  What the shared segment holds when a process is killed inside a call: in the constructor, in
  \<open>next_query\<close> between two records, and in \<open>commit\<close> between its two stores.  The loop is cut by a
  relation for one of its rounds, which is tied to it by a lemma saying that the loop goes on from
  where the round ends; in the same way the constructor gives the same builder from where it was cut.
\<close>

section \<open>In the constructor\<close>

text \<open>
  The constructor reserves the table, then makes the two numbers unless the segment has them.  What
  comes before the end of \<open>reserve\<close> is not cut: a table new in the segment points to memory of the
  process until then.
\<close>

inductive constructing :: "nat \<Rightarrow> shm_segment \<Rightarrow> shm_segment \<Rightarrow> bool" for lim where
  table: "reserve lim (stored_keys seg) INSERTED_TABLE_RESERVED_SIZE = Inr ins \<Longrightarrow>
    constructing lim seg (seg\<lparr>seg_inserted := Some ins\<rparr>)"
| handle: "constructing lim seg seg' \<Longrightarrow> seg_committed_handle_idx seg' = None \<Longrightarrow>
    constructing lim seg (seg'\<lparr>seg_committed_handle_idx := Some 0\<rparr>)"
| offset: "constructing lim seg seg' \<Longrightarrow> seg_committed_handle_idx seg' \<noteq> None \<Longrightarrow> seg_committed_offset seg' = None \<Longrightarrow>
    constructing lim seg (seg'\<lparr>seg_committed_offset := Some 0\<rparr>)"

lemma constructing_keeps:
  assumes "constructing lim seg seg'"
  shows "stored_handle seg' = stored_handle seg \<and> stored_offset seg' = stored_offset seg \<and>
    reserve lim (stored_keys seg) INSERTED_TABLE_RESERVED_SIZE = Inr (stored_keys seg')"
  using assms
  by induction (auto simp: stored_handle_def stored_offset_def stored_keys_def)

lemma reserve_idem:
  assumes "set_ok lim t" and "reserve lim t n = Inr t'" and "n \<le> 2 ^ 62" and "1 < n"
  shows "set_ok lim t'" and "members t' = members t" and "reserve lim t' n = Inr t'"
proof -
  have r: "table_ok lim t'" "members t' = members t" "2 * n \<le> slots t'"
    using reserve_spec [of lim t n] assms(1-3) by (simp_all add: set_ok_def)
  then show "set_ok lim t'" "members t' = members t" using assms(1) by (simp_all add: set_ok_def)
  have "2 * n \<le> bucket_count t'" using r(3) assms(4) by (simp add: bucket_count_def split: if_splits)
  then show "reserve lim t' n = Inr t'" by (simp add: reserve_def num_buckets_for_reserve_def)
qed

lemma constructing_resumable:
  assumes "constructing lim seg seg'" and "resumable lim seg t fs rs"
  shows "resumable lim seg' t fs rs" and "members (stored_keys seg') = members (stored_keys seg)"
  using constructing_keeps [OF assms(1)] assms(2)
    reserve_idem [of lim "stored_keys seg" INSERTED_TABLE_RESERVED_SIZE "stored_keys seg'"]
  by (simp_all add: resumable_def INSERTED_TABLE_RESERVED_SIZE_def)

text \<open>From where it was cut, the constructor makes the builder it would have made.\<close>

lemma constructing_continues:
  assumes "constructing lim seg seg'" and "set_ok lim (stored_keys seg)"
  shows "QueryBuilder lim allocated open_file (\<lambda>_. seg') t = QueryBuilder lim allocated open_file (\<lambda>_. seg) t"
proof -
  note k = constructing_keeps [OF assms(1)]
  have "reserve lim (stored_keys seg') INSERTED_TABLE_RESERVED_SIZE = Inr (stored_keys seg')"
    using reserve_idem(3) [OF assms(2)] k by (simp add: INSERTED_TABLE_RESERVED_SIZE_def)
  then show ?thesis
    using k unfolding QueryBuilder_def Let_def
    by (simp flip: stored_keys_def stored_handle_def stored_offset_def)
qed

section \<open>Between two records of \<open>next_query\<close>\<close>

text \<open>A round of the loop that records a new key.\<close>

inductive collect_round :: "nat \<Rightarrow> string list list \<times> query_builder \<Rightarrow> string list list \<times> query_builder \<Rightarrow> bool"
  for lim where
  new_key: "length records \<le> INSERT_NUM_TUPLES \<Longrightarrow> next_record qb = Inr (rec, qb1) \<Longrightarrow> rec \<noteq> [] \<Longrightarrow>
    hash_record qb1 rec = Inr (hash, qb2) \<Longrightarrow> contains (inserted qb2) hash = Inr False \<Longrightarrow>
    insert_key lim (inserted qb2) hash = Inr ins \<Longrightarrow>
    collect_round lim (records, qb) (records @ [rec], qb2\<lparr>inserted := ins\<rparr>)"

inductive_cases collect_round_elim: "collect_round lim (records, qb) s"

lemma collect_round_continues:
  assumes "collect_round lim (records, qb) (records', qb')"
  shows "collect lim records qb = collect lim records' qb'"
  using assms
proof (cases rule: collect_round.cases)
  case (new_key rec qb1 hash qb2 ins)
  then obtain h where "at (csv_handles qb) (unat (handle_idx qb)) = Inr h"
    by (auto simp: next_record_def rbind_Inr_iff)
  with new_key show ?thesis by (simp add: collect.simps [of lim records qb])
qed

lemma next_record_keeps:
  assumes "next_record qb = Inr (rec, qb')"
  shows "inserted qb' = inserted qb" and "committed_handle_idx qb' = committed_handle_idx qb"
    and "committed_offset qb' = committed_offset qb"
  using assms by (auto simp: next_record_def read_record_def Let_def rbind_Inr_iff split: if_splits prod.splits)

lemma hash_record_keeps:
  assumes "hash_record qb rec = Inr (h, qb')"
  shows "inserted qb' = inserted qb" and "committed_handle_idx qb' = committed_handle_idx qb"
    and "committed_offset qb' = committed_offset qb"
  using assms by (auto simp: hash_record_def rbind_Inr_iff split: option.splits)

lemma collect_rounds_keep:
  assumes "(collect_round lim)\<^sup>*\<^sup>* (records, qb) (records', qb')" and "set_ok lim (inserted qb)"
  shows "set_ok lim (inserted qb') \<and> members (inserted qb) \<subseteq> members (inserted qb') \<and>
    committed_handle_idx qb' = committed_handle_idx qb \<and> committed_offset qb' = committed_offset qb"
  using assms
proof (induction rule: rtranclp_induct2)
  case (step records1 qb1 records2 qb2)
  from step.hyps(2) show ?case
  proof (cases rule: collect_round.cases)
    case (new_key rec qb3 hash qb4 ins)
    note k = next_record_keeps [OF new_key(4)] hash_record_keeps [OF new_key(6)]
    then have "set_ok lim (inserted qb4)" using step by simp
    from flat.ins [OF this new_key(8)] show ?thesis
      using k step new_key(2) by auto
  qed
qed simp

text \<open>Killed there, the process leaves a segment from which a new one starts at the same position.\<close>

lemma collect_rounds_resumable:
  assumes "(collect_round lim)\<^sup>*\<^sup>* (records, qb) (records', qb')"
    and "resumable lim (segment_of qb) t fs rs"
  shows "resumable lim (segment_of qb') t fs rs"
    and "members (stored_keys (segment_of qb)) \<subseteq> members (stored_keys (segment_of qb'))"
  using collect_rounds_keep [OF assms(1)] assms(2)
  by (auto simp: resumable_def segment_of_def stored_keys_def stored_handle_def stored_offset_def)

section \<open>Between the two stores of \<open>commit\<close>\<close>

text \<open>\<open>*committed_handle_idx\<close> is written, \<open>*committed_offset\<close> is not.\<close>

definition half_commit :: "query_builder \<Rightarrow> query_builder" where
  "half_commit qb =
     (if insert_if_not_exists_stmt qb \<noteq> [] then qb
      else if tmp_record qb = [] then qb\<lparr>committed_handle_idx := handle_idx qb\<rparr>
      else qb\<lparr>committed_handle_idx := tmp_handle_idx qb\<rparr>)"

lemma half_commit_continues:
  assumes "commit qb = Inr qb'" shows "commit (half_commit qb) = Inr qb'"
  using assms by (auto simp: commit_def half_commit_def rbind_Inr_iff)

lemma half_commit_first_store:
  assumes "commit qb = Inr qb'"
  shows "half_commit qb = qb\<lparr>committed_handle_idx := committed_handle_idx qb'\<rparr>"
  using assms by (auto simp: commit_def half_commit_def rbind_Inr_iff)

text \<open>While the position stays in a file, the first store changes nothing.\<close>

lemma half_commit_same_file:
  assumes "commit qb = Inr qb'" and "committed_handle_idx qb' = committed_handle_idx qb"
  shows "segment_of (half_commit qb) = segment_of qb"
  using half_commit_first_store [OF assms(1)] assms(2) by (simp add: segment_of_def)

text \<open>
  A text is the lines of one list of records only, so a position inside it tells what has been read.
\<close>

lemma record_line_inject:
  assumes "length raw = length raw'" and "raw \<noteq> []"
    and "\<forall>v\<in>set raw. \<forall>c\<in>set v. \<not> is_sep c" and "\<forall>v\<in>set raw'. \<forall>c\<in>set v. \<not> is_sep c"
    and "record_line raw @ s = record_line raw' @ s'"
  shows "raw = raw' \<and> s = s'"
  using assms
proof (induction raw raw' arbitrary: s s' rule: list_induct2)
  case (Cons v raw v' raw')
  obtain c t where c: "record_line (v # raw) @ s = v @ c # t" "is_sep c" "raw = [] \<longrightarrow> t = s" "raw \<noteq> [] \<longrightarrow> t = record_line raw @ s"
    by (cases raw) (auto simp: is_sep_def)
  obtain c' t' where c': "record_line (v' # raw') @ s' = v' @ c' # t'" "is_sep c'" "raw' = [] \<longrightarrow> t' = s'"
    "raw' \<noteq> [] \<longrightarrow> t' = record_line raw' @ s'"
    by (cases raw') (auto simp: is_sep_def)
  have "v @ c # t = v' @ c' # t'" using Cons.prems(4) c(1) c'(1) by simp
  moreover have "takeWhile (\<lambda>c. \<not> is_sep c) (v @ c # t) = v" "takeWhile (\<lambda>c. \<not> is_sep c) (v' @ c' # t') = v'"
    using Cons.prems(2,3) c(2) c'(2) by simp_all
  ultimately have "v = v'" "t = t'" by (metis, metis same_append_eq list.inject)
  then show ?case
    using Cons.IH [of s s'] Cons.prems(2,3) Cons.hyps c(3,4) c'(3,4) by (cases "raw = []") auto
qed simp

lemma csv_text_inject:
  assumes "\<forall>raw\<in>set raws. raw_ok n raw" and "\<forall>raw\<in>set raws'. raw_ok n raw" and "csv_text raws = csv_text raws'"
  shows "raws = raws'"
  using assms
proof (induction raws arbitrary: raws')
  case Nil
  have "record_line raw \<noteq> []" if "raw \<noteq> []" for raw :: "string list"
    using that by (cases raw rule: record_line.cases) auto
  then show ?case using Nil by (cases raws') (auto simp: csv_text_def raw_ok_def)
next
  case (Cons raw raws)
  have ne: "raw \<noteq> []" using Cons.prems(1) by (simp add: raw_ok_def)
  then have "record_line raw \<noteq> []" by (cases raw rule: record_line.cases) auto
  then obtain r rs where r: "raws' = r # rs" using Cons.prems(3) by (cases raws') (auto simp: csv_text_def)
  have "record_line raw @ csv_text raws = record_line r @ csv_text rs"
    using Cons.prems(3) r by (simp add: csv_text_def)
  moreover have "length raw = length r" "\<forall>v\<in>set raw. \<forall>c\<in>set v. \<not> is_sep c" "\<forall>v\<in>set r. \<forall>c\<in>set v. \<not> is_sep c"
    using Cons.prems(1,2) r by (simp_all add: raw_ok_def)
  ultimately have "raw = r" "csv_text raws = csv_text rs" using record_line_inject ne by blast+
  then show ?case using Cons.IH [of rs] Cons.prems(1,2) r by simp
qed

lemma feeds_at_skip:
  assumes "feeds_at fm n fs k off rs" and "drop (nat off) (fs ! k) = csv_text (missed @ others)"
    and "\<forall>raw\<in>set (missed @ others). raw_ok n raw"
  obtains skipped rest where "rs = skipped @ rest" "map (norm_fields fm 0) missed = map Inr skipped"
    "feeds_at fm n fs k (off + int (length (csv_text missed))) rest"
proof -
  from assms(1) obtain raws where f: "k < length fs" "0 \<le> off" "yields (texts_at fs k off) raws"
    "\<forall>raw\<in>set raws. raw_ok n raw" "map (norm_fields fm 0) raws = map Inr rs"
    by (auto simp: feeds_at_def)
  then obtain a b where a: "raws = a @ b" "csv_text (missed @ others) = csv_text a" "later (drop (Suc k) fs) b"
    using assms(2) by (auto simp: texts_at_def)
  then have "a = missed @ others" using csv_text_inject [OF assms(3)] f(4) by fastforce
  then have raws: "raws = missed @ others @ b" using a(1) by simp
  then obtain skipped rest where rs: "rs = skipped @ rest" "map (norm_fields fm 0) missed = map Inr skipped"
    "map (norm_fields fm 0) (others @ b) = map Inr rest"
    using f(5) by (auto simp: append_eq_map_conv map_eq_append_conv)
  have "nat (off + int (length (csv_text missed))) = length (csv_text missed) + nat off" using f(2) by simp
  then have "drop (nat (off + int (length (csv_text missed)))) (fs ! k) = csv_text others"
    using assms(2) by (simp add: csv_text_def flip: drop_drop)
  then have "yields (texts_at fs k (off + int (length (csv_text missed)))) (others @ b)"
    using a(3) by (auto simp: texts_at_def)
  then have "feeds_at fm n fs k (off + int (length (csv_text missed))) rest"
    using f(1,2,4) raws rs(3) unfolding feeds_at_def by (intro conjI exI [of _ "others @ b"]) auto
  with rs that show ?thesis by blast
qed

text \<open>A new builder commits the position it was started at.\<close>

lemma new_builder_commits:
  assumes "QueryBuilder lim allocated open_file shm t = Inr qb"
  shows "commit qb = Inr qb" and "insert_if_not_exists_stmt qb = []" and "tmp_record qb = []"
    and "handle_idx qb = stored_handle (shm (mem_id t))" and "unat (handle_idx qb) < length (csv_handles qb)"
    and "offset (csv_handles qb ! unat (handle_idx qb)) = stored_offset (shm (mem_id t))"
proof -
  have seek: "offset h' = off" if "seek off h = Inr h'" for off h h'
    using that by (auto simp: seek_def offset_def split: option.splits if_splits)
  show "commit qb = Inr qb" and "insert_if_not_exists_stmt qb = []" and "tmp_record qb = []"
    "handle_idx qb = stored_handle (shm (mem_id t))" and "unat (handle_idx qb) < length (csv_handles qb)"
    "offset (csv_handles qb ! unat (handle_idx qb)) = stored_offset (shm (mem_id t))"
    using assms
    by (auto simp: QueryBuilder_def Let_def rbind_Inr_iff commit_def at_Inr_iff stored_handle_def stored_offset_def
        dest!: seek)
qed

text \<open>
  (C10) A process killed between the two stores of \<open>commit\<close> leaves the new file with the old offset:
  when that is the end of a later record there, the next process starts behind records that no
  statement has carried.
\<close>

theorem torn_commit_skips:
  assumes "represents_table lim qb a" and "due a = None" and "task_of qb t" and "short_keys (qb_unique_mask qb) (backlog a)"
    and "commit qb = Inr qb'"
    and "drop (nat (committed_offset qb')) (files qb ! unat (committed_handle_idx qb')) = csv_text (missed @ others)"
    and "\<forall>raw\<in>set (missed @ others). raw_ok (length (qb_field_names qb)) raw"
    and "committed_offset qb = committed_offset qb' + int (length (csv_text missed))"
  shows "\<exists>skipped rest. backlog a = skipped @ rest \<and> map (norm_fields (qb_float_mask qb) 0) missed = map Inr skipped \<and>
    resumable lim (segment_of (half_commit qb)) t (files qb) rest"
proof -
  have r: "resumable lim (segment_of qb') t (files qb) (backlog a)" "stored_keys (segment_of qb') = inserted qb"
    using commit_resumable [OF assms(1,2,4,3)] assms(5) by auto
  have t: "float_mask (ddl_info t) = qb_float_mask qb" "field_names (ddl_info t) = qb_field_names qb"
    using assms(3) by (simp_all add: task_of_def)
  have "feeds_at (qb_float_mask qb) (length (qb_field_names qb)) (files qb)
      (unat (committed_handle_idx qb')) (committed_offset qb') (backlog a)"
    using r(1) t by (simp add: resumable_def segment_of_def stored_handle_def stored_offset_def)
  from feeds_at_skip [OF this assms(6,7)] obtain skipped rest where s: "backlog a = skipped @ rest"
    "map (norm_fields (qb_float_mask qb) 0) missed = map Inr skipped"
    "feeds_at (qb_float_mask qb) (length (qb_field_names qb)) (files qb)
      (unat (committed_handle_idx qb')) (committed_offset qb) rest"
    using assms(8) by metis
  have "inserted qb' = inserted qb" using r(2) by (simp add: segment_of_def stored_keys_def)
  then have "resumable lim (segment_of (half_commit qb)) t (files qb) rest"
    using r(1) s(1,3) t half_commit_first_store [OF assms(5)]
    by (auto simp: resumable_def segment_of_def stored_handle_def stored_offset_def stored_keys_def short_keys_def)
  with s show ?thesis by blast
qed

theorem torn_commit_skips_witness:
  "\<exists>qb. represents_table 18874368 qb (start_of (segment_at 1 0) (drop 2 sample_records)) \<and>
     committed_handle_idx qb = 0 \<and> committed_offset qb = 6 \<and>
     resumable 18874368 (segment_of (half_commit qb)) sample_task sample_files []"
proof -
  let ?a = "start_of (segment_at 1 0) (drop 2 sample_records)" and ?m = "[[''3'', ''z'', ''8'']]"
  have rs: "drop 2 sample_records = ?m" by (simp add: sample_records_def)
  have shape: "state_shape raw_state" by (simp add: state_shape_def raw_state_def)
  have res: "resumable 18874368 (segment_at 1 0) sample_task sample_files (drop 2 sample_records)"
    using sample_feeds(2) set_drop_subset [of 2 sample_records] by (intro sample_resumable) simp_all
  have "key_hash (unique_mask (ddl_info sample_task)) ` set (drop 2 sample_records) \<subseteq> sample_keys"
    using set_drop_subset [of 2 sample_records] by (auto simp: sample_keys_def sample_task_def)
  then obtain q where q: "QueryBuilder 18874368 (Some raw_state) sample_open (\<lambda>_. segment_at 1 0) sample_task = Inr q"
    using QueryBuilder_room [OF sample_opened shape, of 18874368 "\<lambda>_. segment_at 1 0" "drop 2 sample_records" sample_keys]
      res sample_room by auto
  then have r: "represents_table 18874368 q ?a" "task_of q sample_task" "files q = sample_files"
    using QueryBuilder_spec [OF sample_opened shape, of 18874368 "\<lambda>_. segment_at 1 0" "drop 2 sample_records"] res
    by (auto split: sum.splits)
  note p = new_builder_commits [OF q]
  define qb where "qb = q\<lparr>committed_handle_idx := 0, committed_offset := 6\<rparr>"
  have qb: "represents_table 18874368 qb ?a" "task_of qb sample_task" "files qb = sample_files"
    using r by (simp_all add: qb_def represents_table_def builder_ok_def readers_ok_def feeds_def files_def task_of_def)
  have c: "commit qb = Inr (qb\<lparr>committed_handle_idx := 1, committed_offset := 0\<rparr>)"
    using p by (simp add: qb_def commit_def)
  have short: "short_keys (qb_unique_mask qb) (backlog ?a)"
    using qb(1) by (simp add: represents_table_def)
  have raw: "\<forall>raw\<in>set (?m @ []). raw_ok (length (qb_field_names qb)) raw"
    using qb(2) by (simp add: task_of_def sample_task_def raw_ok_def is_sep_def EOF_char_def) code_simp
  have txt0: "drop 0 (sample_files ! 1) = csv_text (?m @ [])" and n: "length (csv_text ?m) = 6"
    by (simp_all add: sample_files_def csv_text_def)
  have "\<exists>skipped rest. backlog ?a = skipped @ rest \<and> map (norm_fields (qb_float_mask qb) 0) ?m = map Inr skipped \<and>
    resumable 18874368 (segment_of (half_commit qb)) sample_task (files qb) rest"
    by (rule torn_commit_skips [OF qb(1) _ qb(2) short c _ raw]) (use qb(3) txt0 n in \<open>simp_all add: qb_def\<close>)
  then obtain skipped rest where s: "backlog ?a = skipped @ rest"
    "map (norm_fields (qb_float_mask qb) 0) ?m = map Inr skipped"
    "resumable 18874368 (segment_of (half_commit qb)) sample_task (files qb) rest" by blast
  have "length skipped = 1" using arg_cong [OF s(2), of length] by simp
  then have "rest = []" using s(1) by (cases skipped) (auto simp: rs)
  with s(3) qb show ?thesis by (intro exI [of _ qb]) (simp add: qb_def)
qed

end
