(* ===== verification/Statement_Meaning.thy ===== *)
theory Statement_Meaning
  imports Query_Refinement
begin

text \<open>
  What the statements of the query builder mean to a database: the rows of the destination table
  by key, the effect of each kind of statement on them, and the result a table of records should
  have.  A reader takes the three kinds of texts apart again, so that the meaning can be given to
  the texts that \<open>next_query\<close> returns.

  The order of the column \<open>updated_at\<close> is that of the database; \<open>stamp\<close> stands for it.
\<close>

section \<open>Rows by key\<close>

type_synonym database = "string list \<Rightarrow> string list option"

text \<open>The values of the key columns, which the primary key of the table makes unique.\<close>

definition row_key :: "16 word \<Rightarrow> string list \<Rightarrow> string list" where
  "row_key um r = key_fields um 0 r"

text \<open>An insert statement fails as a whole when one of its rows has a key that is taken.\<close>

fun insert_rows :: "16 word \<Rightarrow> string list list \<Rightarrow> database \<Rightarrow> database option" where
  "insert_rows um [] d = Some d"
| "insert_rows um (r # rs) d =
     (if d (row_key um r) = None then insert_rows um rs (d(row_key um r \<mapsto> r)) else None)"

fun run_query :: "(string \<Rightarrow> 'o::linorder) \<Rightarrow> 16 word \<Rightarrow> query \<Rightarrow> database \<Rightarrow> database option" where
  "run_query stamp um (Insert b) d = insert_rows um b d"
| "run_query stamp um (Update r) d =
     Some (case d (row_key um r) of
         None \<Rightarrow> d
       | Some old \<Rightarrow> if stamp (last old) < stamp (last r) then d(row_key um r \<mapsto> r) else d)"
| "run_query stamp um (Insert_If_Absent r) d =
     Some (if d (row_key um r) = None then d(row_key um r \<mapsto> r) else d)"

text \<open>The goal: for every key of the records one of the newest records with it, and no other row.\<close>

definition newest_rows :: "(string \<Rightarrow> 'o::linorder) \<Rightarrow> 16 word \<Rightarrow> string list list \<Rightarrow> database \<Rightarrow> bool" where
  "newest_rows stamp um rs d \<longleftrightarrow>
     (\<forall>k. case d k of
         None \<Rightarrow> \<forall>r\<in>set rs. row_key um r \<noteq> k
       | Some old \<Rightarrow> old \<in> set rs \<and> row_key um old = k \<and>
           (\<forall>r\<in>set rs. row_key um r = k \<longrightarrow> stamp (last r) \<le> stamp (last old)))"

text \<open>A record has reached the database when the row of its key is at least as new.\<close>

definition reflected :: "(string \<Rightarrow> 'o::linorder) \<Rightarrow> 16 word \<Rightarrow> database \<Rightarrow> string list \<Rightarrow> bool" where
  "reflected stamp um d r \<longleftrightarrow> (\<exists>old. d (row_key um r) = Some old \<and> stamp (last r) \<le> stamp (last old))"

text \<open>The rows of the database are records, under their own keys.\<close>

definition rows_from :: "16 word \<Rightarrow> string list list \<Rightarrow> database \<Rightarrow> bool" where
  "rows_from um rs d \<longleftrightarrow> (\<forall>k r. d k = Some r \<longrightarrow> r \<in> set rs \<and> row_key um r = k)"

lemma newest_rowsI:
  assumes "rows_from um rs d" and "\<forall>r\<in>set rs. reflected stamp um d r"
  shows "newest_rows stamp um rs d"
  unfolding newest_rows_def
proof
  fix k
  show "case d k of
         None \<Rightarrow> \<forall>r\<in>set rs. row_key um r \<noteq> k
       | Some old \<Rightarrow> old \<in> set rs \<and> row_key um old = k \<and>
           (\<forall>r\<in>set rs. row_key um r = k \<longrightarrow> stamp (last r) \<le> stamp (last old))"
    using assms by (fastforce simp: rows_from_def reflected_def split: option.splits)
qed

text \<open>The hash of a record only depends on its key.\<close>

lemma key_hash_row_key: "row_key um r = row_key um r' \<Longrightarrow> key_hash um r = key_hash um r'"
  by (simp add: row_key_def key_hash_def key_bytes_def)

section \<open>The effect of a statement\<close>

lemma insert_rows_keeps: "insert_rows um rs d = Some d' \<Longrightarrow> d k = Some r \<Longrightarrow> d' k = Some r"
proof (induction rs arbitrary: d)
  case (Cons s rs)
  then have "(d(row_key um s \<mapsto> s)) k = Some r" by (auto split: if_splits)
  with Cons show ?case by (auto split: if_splits)
qed simp

lemma insert_rows_new: "insert_rows um rs d = Some d' \<Longrightarrow> s \<in> set rs \<Longrightarrow> d' (row_key um s) = Some s"
proof (induction rs arbitrary: d)
  case (Cons r rs)
  then have "insert_rows um rs (d(row_key um r \<mapsto> r)) = Some d'" by (auto split: if_splits)
  with Cons insert_rows_keeps [OF this, of "row_key um r" r] show ?case by auto
qed simp

lemma insert_rows_origin:
  "insert_rows um rs d = Some d' \<Longrightarrow> d' k = Some r \<Longrightarrow> d k = Some r \<or> r \<in> set rs \<and> row_key um r = k"
proof (induction rs arbitrary: d)
  case (Cons s rs)
  then have "insert_rows um rs (d(row_key um s \<mapsto> s)) = Some d'" by (auto split: if_splits)
  from Cons.IH [OF this Cons.prems(2)] show ?case by (auto split: if_splits)
qed simp

lemma insert_rows_fresh:
  assumes "distinct (map (row_key um) rs)" and "\<forall>r\<in>set rs. d (row_key um r) = None"
  shows "insert_rows um rs d \<noteq> None"
  using assms
proof (induction rs arbitrary: d)
  case (Cons r rs)
  have "row_key um s \<noteq> row_key um r" if "s \<in> set rs" for s
    using Cons.prems(1) that by (metis distinct.simps(2) image_eqI list.set_map list.simps(9))
  then have "\<forall>s\<in>set rs. (d(row_key um r \<mapsto> r)) (row_key um s) = None"
    using Cons.prems(2) by simp
  then have "insert_rows um rs (d(row_key um r \<mapsto> r)) \<noteq> None"
    using Cons.prems(1) by (intro Cons.IH) simp_all
  then show ?case using Cons.prems(2) by simp
qed simp

lemma run_query_reflected:
  assumes "run_query stamp um q d = Some d'" and "reflected stamp um d r"
  shows "reflected stamp um d' r"
proof -
  obtain old where old: "d (row_key um r) = Some old" "stamp (last r) \<le> stamp (last old)"
    using assms(2) by (auto simp: reflected_def)
  show ?thesis
  proof (cases q)
    case (Insert b)
    with assms(1) have "d' (row_key um r) = Some old"
      using insert_rows_keeps [where d = d and d' = d' and k = "row_key um r"] old(1) Insert by simp
    with old(2) show ?thesis by (auto simp: reflected_def)
  next
    case (Update s)
    show ?thesis
    proof (cases "row_key um s = row_key um r \<and> stamp (last old) < stamp (last s)")
      case True
      then have "d' (row_key um r) = Some s" "stamp (last r) \<le> stamp (last s)"
        using assms(1) Update old by auto
      then show ?thesis by (auto simp: reflected_def)
    next
      case False
      then have "d' (row_key um r) = Some old"
        using assms(1) Update old by (auto split: option.splits if_splits)
      with old(2) show ?thesis by (auto simp: reflected_def)
    qed
  next
    case (Insert_If_Absent s)
    then have "d' (row_key um r) = Some old" using assms(1) old(1) by (auto split: if_splits)
    with old(2) show ?thesis by (auto simp: reflected_def)
  qed
qed

text \<open>What a statement leaves to do: an update of an absent row has no effect.\<close>

lemma run_query_emitted:
  assumes "run_query stamp um q d = Some d'" and "r \<in> set (emitted q)"
  shows "reflected stamp um d' r \<or> q = Update r \<and> d' (row_key um r) = None"
proof (cases q)
  case (Insert b)
  then have "d' (row_key um r) = Some r" using assms insert_rows_new by simp
  then show ?thesis by (simp add: reflected_def)
next
  case (Update s)
  then show ?thesis using assms by (auto simp: reflected_def split: option.splits if_splits)
qed (use assms in simp)

lemma run_query_absent:
  "run_query stamp um (Insert_If_Absent r) d = Some d' \<Longrightarrow>
     d (row_key um r) = None \<or> reflected stamp um d r \<Longrightarrow> reflected stamp um d' r"
  by (auto simp: reflected_def split: if_splits)

lemma run_query_rows:
  assumes "run_query stamp um q d = Some d'" and "d' k = Some r"
  shows "d k = Some r \<or> row_key um r = k \<and> (r \<in> set (emitted q) \<or> q = Insert_If_Absent r)"
proof (cases q)
  case (Insert b)
  then show ?thesis using assms insert_rows_origin [where d = d and d' = d' and k = k] by auto
qed (use assms in \<open>auto split: option.splits if_splits\<close>)

lemma run_query_keeps_absent:
  "run_query stamp um (Update s) d = Some d' \<Longrightarrow> d k = None \<Longrightarrow> d' k = None"
  by (auto split: option.splits if_splits)

text \<open>When a statement can be executed.\<close>

lemma run_query_defined:
  assumes "consistent um S [q]" and "\<forall>k r. d k = Some r \<longrightarrow> row_key um r = k \<and> key_hash um r \<in> S"
  shows "run_query stamp um q d \<noteq> None"
proof (cases q)
  case (Insert b)
  then have b: "distinct (map (key_hash um) b)" "S \<inter> key_hash um ` set b = {}" using assms(1) by auto
  have "inj_on (row_key um) (set b)"
    using b(1) key_hash_row_key [of um] by (metis distinct_map inj_on_def)
  then have "distinct (map (row_key um) b)" using b(1) by (simp add: distinct_map)
  moreover have "d (row_key um r) = None" if "r \<in> set b" for r
  proof (rule ccontr)
    assume "d (row_key um r) \<noteq> None"
    then obtain s where "d (row_key um r) = Some s" by blast
    with assms(2) have "row_key um s = row_key um r" "key_hash um s \<in> S" by auto
    then have "key_hash um r \<in> S" using key_hash_row_key [of um s r] by simp
    with b(2) that show False by blast
  qed
  ultimately show ?thesis using Insert insert_rows_fresh by simp
qed simp_all

section \<open>Reading the statements back\<close>

text \<open>The texts between quotes, and the record whose key values and other values are given.\<close>

fun quoted_values :: "string option \<Rightarrow> string \<Rightarrow> string list" where
  "quoted_values v [] = []"
| "quoted_values None (c # s) = (if c = quote then quoted_values (Some []) s else quoted_values None s)"
| "quoted_values (Some v) (c # s) =
     (if c = quote then v # quoted_values None s else quoted_values (Some (v @ [c])) s)"

fun weave :: "16 word \<Rightarrow> nat \<Rightarrow> nat \<Rightarrow> string list \<Rightarrow> string list \<Rightarrow> string list" where
  "weave um i 0 os ks = []"
| "weave um i (Suc n) os ks =
     (if bit um i then hd ks # weave um (Suc i) n os (tl ks) else hd os # weave um (Suc i) n (tl os) ks)"

definition read_query :: "string \<Rightarrow> string list \<Rightarrow> 16 word \<Rightarrow> string \<Rightarrow> query" where
  "read_query tbl names um u =
     (case read_insert tbl u of
        Some b \<Rightarrow> Insert b
      | None \<Rightarrow>
          let vs = quoted_values None u; n = length names; m = length (filter (\<lambda>i. \<not> bit um i) [0..<n])
          in if take 6 u = ''update'' then Update (weave um 0 n (take m vs) (drop m vs))
             else Insert_If_Absent (take n vs))"

definition plain_names :: "string \<Rightarrow> string list \<Rightarrow> bool" where
  "plain_names tbl names \<longleftrightarrow> quote \<notin> set tbl \<and> (\<forall>n\<in>set names. quote \<notin> set n)"

fun plain_query :: "string list \<Rightarrow> query \<Rightarrow> bool" where
  "plain_query names (Insert b) \<longleftrightarrow> b \<noteq> [] \<and> (\<forall>r\<in>set b. plain_record r)"
| "plain_query names (Update r) \<longleftrightarrow> plain_record r \<and> length r = length names"
| "plain_query names (Insert_If_Absent r) \<longleftrightarrow> plain_record r \<and> length r = length names"

lemma quoted_values_skip: "quote \<notin> set a \<Longrightarrow> quoted_values None (a @ s) = quoted_values None s"
  by (induction a) auto

lemma quoted_values_value:
  "quote \<notin> set v \<Longrightarrow> quoted_values (Some u) (v @ quote # s) = (u @ v) # quoted_values None s"
  by (induction v arbitrary: u) auto

lemma quoted_values_quoted: "quote \<notin> set v \<Longrightarrow> quoted_values None (quoted v @ s) = v # quoted_values None s"
  by (simp add: quoted_def quoted_values_value)

lemma quoted_values_assignment:
  "quote \<notin> set (fst p) \<Longrightarrow> quote \<notin> set (snd p) \<Longrightarrow>
     quoted_values None (assignment p @ s) = snd p # quoted_values None s"
  by (cases p) (simp add: quoted_values_skip quoted_values_value)

lemma quoted_values_join:
  assumes "quote \<notin> set sep" and "\<And>x s. x \<in> set xs \<Longrightarrow> quoted_values None (f x @ s) = g x # quoted_values None s"
  shows "quoted_values None (join sep (map f xs) @ s) = map g xs @ quoted_values None s"
  using assms(2)
proof (induction xs rule: induct_list012)
  case (3 x y zs)
  then show ?case by (simp add: quoted_values_skip [OF assms(1)])
qed simp_all

lemma columns_where_set: "p \<in> set (columns_where P i names vs) \<Longrightarrow> fst p \<in> set names \<and> snd p \<in> set vs"
proof -
  assume "p \<in> set (columns_where P i names vs)"
  then have "p \<in> snd ` set (enumerate i (zip names vs))"
    by (auto simp: columns_where_def)
  also have "\<dots> = set (zip names vs)" by (metis list.set_map map_snd_enumerate)
  finally show ?thesis by (metis prod.collapse set_zip_leftD set_zip_rightD)
qed

lemma quoted_values_columns:
  assumes "plain_names tbl names" and "\<forall>v\<in>set r. plain_value v" and "quote \<notin> set sep"
  shows "quoted_values None (join sep (map assignment (columns_where P i names r)) @ s) =
    map snd (columns_where P i names r) @ quoted_values None s"
proof (rule quoted_values_join [OF assms(3)])
  fix p s
  assume "p \<in> set (columns_where P i names r)"
  then show "quoted_values None (assignment p @ s) = snd p # quoted_values None s"
    using columns_where_set [of p P i names r] assms(1,2)
    by (auto simp: plain_names_def plain_value_def quoted_values_assignment simp del: assignment.simps)
qed

lemma weave_columns:
  assumes "length vs = length ns"
  shows "weave um i (length vs) (map snd (columns_where (\<lambda>i. \<not> bit um i) i ns vs) @ xs)
    (map snd (columns_where (bit um) i ns vs) @ ys) = vs"
  using assms by (induction vs ns arbitrary: i rule: list_induct2) simp_all

lemma length_columns_where:
  assumes "length vs = length ns"
  shows "length (columns_where P i ns vs) = length (filter P [i..<i + length vs])"
  using assms
proof (induction vs ns arbitrary: i rule: list_induct2)
  case (Cons v vs n ns)
  then show ?case by (simp add: upt_conv_Cons del: upt_Suc)
qed simp

lemma read_insert_other:
  assumes "P = ''insert into `'' @ tbl @ ''` ''" and "take 6 (drop (length P) u) \<noteq> ''values''"
  shows "read_insert tbl u = None"
proof -
  have "take (length (P @ ''values'')) u \<noteq> P @ ''values''"
  proof
    assume "take (length (P @ ''values'')) u = P @ ''values''"
    moreover have "length (P @ ''values'') = length P + 6" by simp
    ultimately have "drop (length P) (take (length P + 6) u) = ''values''" by (metis append_eq_conv_conj)
    with assms(2) show False by (simp add: take_drop add.commute)
  qed
  then show ?thesis by (simp add: read_insert_def assms(1) Let_def)
qed

lemma read_insert_update: "read_insert tbl (CHR ''u'' # s) = None"
  by (simp add: read_insert_def Let_def)

text \<open>
  Statement texts are unambiguous: from a text of plain names and values the reader gets back the
  query it was made of.
\<close>

lemma read_query_text:
  assumes "keyed names um" and "plain_names tbl names" and "plain_query names q"
  shows "\<exists>u. query_text tbl names um q = Inr u \<and> read_query tbl names um u = q"
proof (cases q)
  case (Insert b)
  then have "b \<noteq> []" "\<forall>r\<in>set b. plain_record r" using assms(3) by auto
  then obtain s where "make_insert_statement tbl b = Inr s" "read_insert tbl s = Some b"
    using insert_statement_text [of b tbl] read_rows_text [of b] by (simp add: read_insert_def)
  then show ?thesis using Insert by (simp add: read_query_def)
next
  case (Update r)
  then have r: "length r = length names" "\<forall>v\<in>set r. plain_value v" "r \<noteq> []"
    using assms(3) by (auto simp: plain_record_def)
  note cols = keyed_columns [OF assms(1) r(1)]
  let ?os = "other_columns_of um names r" and ?ks = "key_columns_of um names r"
  let ?u = "''update `'' @ tbl @ ''` set '' @ join '','' (map assignment ?os) @
      '' where '' @ join '' and'' (map assignment ?ks) @ '' and `updated_at`<'' @ quoted (last r)"
  have "query_text tbl names um q = Inr ?u"
    using update_statement_text [OF cols(1,2,3,4), of tbl] Update by simp
  moreover have "quoted_values None ?u = map snd ?os @ map snd ?ks @ [last r]"
  proof -
    have "quote \<notin> set (last r)" using r(2,3) by (simp add: plain_value_def)
    then have "quoted_values None (quoted (last r)) = [last r]"
      using quoted_values_quoted [of "last r" "[]"] by simp
    moreover have "quote \<notin> set tbl" using assms(2) by (simp add: plain_names_def)
    ultimately show ?thesis
      using quoted_values_columns [OF assms(2) r(2)] by (simp add: quoted_values_skip)
  qed
  moreover have "read_insert tbl ?u = None" by (simp add: read_insert_update)
  moreover have "length ?os = length (filter (\<lambda>i. \<not> bit um i) [0..<length names])"
    using length_columns_where [OF r(1), of "\<lambda>i. \<not> bit um i" 0] r(1) by simp
  moreover have "weave um 0 (length r) (map snd ?os) (map snd ?ks @ [last r]) = r"
    using weave_columns [OF r(1), of um 0 "[]" "[last r]"] by simp
  ultimately show ?thesis using Update r(1) by (simp add: read_query_def)
next
  case (Insert_If_Absent r)
  then have r: "length r = length names" "\<forall>v\<in>set r. plain_value v" "r \<noteq> []"
    using assms(3) by (auto simp: plain_record_def)
  note cols = keyed_columns [OF assms(1) r(1)]
  let ?u = "''insert into `'' @ tbl @ ''` select '' @ join '','' (map quoted r) @
      '' where not exists(select 1 from `'' @ tbl @ ''` '' @ (''where '' @
      join '' and'' (map assignment (key_columns_of um names r))) @ '')''"
  have "query_text tbl names um q = Inr ?u"
    using Insert_If_Absent where_clause_text [OF cols(1,3)]
    by (simp add: make_insert_where_not_exists_statement_def values_loop_text)
  moreover have "take (length r) (quoted_values None ?u) = r"
  proof -
    have "quote \<notin> set tbl" using assms(2) by (simp add: plain_names_def)
    moreover have "quoted_values None (join '','' (map quoted r) @ s) = r @ quoted_values None s" for s
      using quoted_values_join [of "'',''" r quoted id s] r(2)
      by (simp add: quoted_values_quoted plain_value_def)
    ultimately show ?thesis by (simp add: quoted_values_skip)
  qed
  moreover have "read_insert tbl ?u = None" by (rule read_insert_other [OF refl]) simp
  ultimately show ?thesis using Insert_If_Absent r(1) by (simp add: read_query_def)
qed

end
