(* ===== verification/Crash_Recovery.thy ===== *)
theory Crash_Recovery
  imports Statement_Meaning Interrupted_Calls
begin

text \<open>
  The query builder in use: a process takes statements from \<open>next_query\<close>, has the database execute
  them and calls \<open>commit\<close> in between; it can die at any moment between these calls, inside the
  constructor, and inside \<open>next_query\<close> between two records, and a new process starts from the shared
  segment.  A step relation describes all such histories, for any database that gives the
  statements their meaning.  The client that drives the builder is not part
  of the repository (it is commented out in \<open>main2\<close>): what it may do is what the steps allow.
\<close>

section \<open>The system\<close>

text \<open>A database server executes texts: an error, or new rows.\<close>

definition speaks_sql ::
  "(string \<Rightarrow> 'o::linorder) \<Rightarrow> string \<Rightarrow> string list \<Rightarrow> 16 word \<Rightarrow>
   (string \<Rightarrow> database \<Rightarrow> database option) \<Rightarrow> bool" where
  "speaks_sql stamp tbl names um exec \<longleftrightarrow>
     (\<forall>q u d. plain_query names q \<longrightarrow> query_text tbl names um q = Inr u \<longrightarrow> exec u d = run_query stamp um q d)"

lemma reading_speaks_sql:
  assumes "keyed names um" and "plain_names tbl names"
  shows "speaks_sql stamp tbl names um (\<lambda>u. run_query stamp um (read_query tbl names um u))"
  unfolding speaks_sql_def using read_query_text [OF assms] by fastforce

record environment =
  env_lim :: nat
  env_open :: "string \<Rightarrow> c_file option"
  env_task :: TableTask
  env_exec :: "string \<Rightarrow> database \<Rightarrow> database option"

abbreviation env_names :: "environment \<Rightarrow> string list" where
  "env_names E \<equiv> field_names (ddl_info (env_task E))"

abbreviation env_mask :: "environment \<Rightarrow> 16 word" where
  "env_mask E \<equiv> unique_mask (ddl_info (env_task E))"

abbreviation env_table :: "environment \<Rightarrow> string" where
  "env_table E \<equiv> table (env_task E)"

text \<open>
  A state: the process, if one runs; the segment, which is what a running builder's members in
  shared memory are; the statement the client has received and not executed; the rows; and how many
  processes have come to the end of the table.
\<close>

record system =
  sys_process :: "query_builder option"
  sys_segment :: shm_segment
  sys_asked :: "string option"
  sys_rows :: database
  sys_finished :: nat

inductive step :: "environment \<Rightarrow> system \<Rightarrow> system \<Rightarrow> bool" for E where
  start: "sys_process s = None \<Longrightarrow> state_shape raw \<Longrightarrow>
    QueryBuilder (env_lim E) (Some raw) (env_open E) (\<lambda>_. sys_segment s) (env_task E) = Inr qb \<Longrightarrow>
    step E s (s\<lparr>sys_process := Some qb, sys_segment := segment_of qb\<rparr>)"
| ask: "sys_process s = Some qb \<Longrightarrow> sys_asked s = None \<Longrightarrow> next_query (env_lim E) qb = Inr (u, qb') \<Longrightarrow> u \<noteq> [] \<Longrightarrow>
    step E s (s\<lparr>sys_process := Some qb', sys_segment := segment_of qb', sys_asked := Some u\<rparr>)"
| execute: "sys_asked s = Some u \<Longrightarrow> env_exec E u (sys_rows s) = Some d \<Longrightarrow>
    step E s (s\<lparr>sys_asked := None, sys_rows := d\<rparr>)"
| commit: "sys_process s = Some qb \<Longrightarrow> sys_asked s = None \<Longrightarrow> commit qb = Inr qb' \<Longrightarrow>
    step E s (s\<lparr>sys_process := Some qb', sys_segment := segment_of qb'\<rparr>)"
| finish: "sys_process s = Some qb \<Longrightarrow> sys_asked s = None \<Longrightarrow> next_query (env_lim E) qb = Inr ([], qb') \<Longrightarrow>
    step E s (s\<lparr>sys_process := None, sys_segment := segment_of qb', sys_finished := Suc (sys_finished s)\<rparr>)"
| crash: "step E s (s\<lparr>sys_process := None, sys_asked := None\<rparr>)"
| not_opened: "sys_process s = None \<Longrightarrow> constructing (env_lim E) (sys_segment s) seg \<Longrightarrow>
    step E s (s\<lparr>sys_segment := seg\<rparr>)"
| interrupted: "sys_process s = Some qb \<Longrightarrow> sys_asked s = None \<Longrightarrow>
    insert_if_not_exists_stmt qb = [] \<Longrightarrow> tmp_record qb = [] \<Longrightarrow>
    (collect_round (env_lim E))\<^sup>*\<^sup>* ([], qb) (records, qb') \<Longrightarrow>
    step E s (s\<lparr>sys_process := None, sys_segment := segment_of qb'\<rparr>)"

inductive_cases step_elim: "step E s s'"

definition initial :: "environment \<Rightarrow> string list \<Rightarrow> string list list \<Rightarrow> system \<Rightarrow> bool" where
  "initial E fs rs s \<longleftrightarrow>
     sys_process s = None \<and> sys_asked s = None \<and> sys_rows s = Map.empty \<and> sys_finished s = 0 \<and>
     resumable (env_lim E) (sys_segment s) (env_task E) fs rs"

inductive reachable :: "environment \<Rightarrow> string list \<Rightarrow> string list list \<Rightarrow> system \<Rightarrow> bool" for E fs rs where
  init: "initial E fs rs s \<Longrightarrow> reachable E fs rs s"
| next_step: "reachable E fs rs s \<Longrightarrow> step E s s' \<Longrightarrow> reachable E fs rs s'"

text \<open>The surroundings the claims are about: readable files, a database, and records it can take.\<close>

definition env_ok :: "(string \<Rightarrow> 'o::linorder) \<Rightarrow> environment \<Rightarrow> string list \<Rightarrow> string list list \<Rightarrow> bool" where
  "env_ok stamp E fs rs \<longleftrightarrow>
     opened (env_open E) (env_task E) fs \<and>
     speaks_sql stamp (env_table E) (env_names E) (env_mask E) (env_exec E) \<and>
     (\<forall>r\<in>set rs. plain_record r \<and> length r = length (env_names E)) \<and> short_keys (env_mask E) rs"

section \<open>The invariant\<close>

definition seen :: "system \<Rightarrow> 64 word set" where
  "seen s = members (stored_keys (sys_segment s))"

text \<open>
  The records a statement was made of: their keys are recorded, and they have reached the database,
  but for one whose update had no effect because there is no row yet.
\<close>

definition sent_ok ::
  "(string \<Rightarrow> 'o::linorder) \<Rightarrow> 16 word \<Rightarrow> database \<Rightarrow> 64 word set \<Rightarrow> string list option \<Rightarrow> string list list \<Rightarrow> bool" where
  "sent_ok stamp um d S p sent \<longleftrightarrow>
     (\<forall>r\<in>set sent. key_hash um r \<in> S \<and> (reflected stamp um d r \<or> p = Some r \<and> d (row_key um r) = None))"

definition committed_ok :: "(string \<Rightarrow> 'o::linorder) \<Rightarrow> environment \<Rightarrow> string list \<Rightarrow> string list list \<Rightarrow> system \<Rightarrow> bool" where
  "committed_ok stamp E fs rs s \<longleftrightarrow>
     (\<exists>sent rest. rs = sent @ rest \<and> resumable (env_lim E) (sys_segment s) (env_task E) fs rest \<and>
        sent_ok stamp (env_mask E) (sys_rows s) (seen s) None sent)"

text \<open>The query in flight, if any, was made when the keys \<open>S\<close> were known.\<close>

fun flight_ok :: "environment \<Rightarrow> system \<Rightarrow> table_state \<Rightarrow> string list list \<Rightarrow> query option \<Rightarrow> bool" where
  "flight_ok E s a sent None \<longleftrightarrow> sys_asked s = None \<and> (\<forall>r. due a = Some r \<longrightarrow> r \<in> set sent)"
| "flight_ok E s a sent (Some q) \<longleftrightarrow>
     (\<exists>u S. sys_asked s = Some u \<and> query_text (env_table E) (env_names E) (env_mask E) q = Inr u \<and>
        plain_query (env_names E) q \<and> consistent (env_mask E) S [q] \<and> key_hash (env_mask E) ` set (emitted q) \<subseteq> seen s \<and>
        (\<forall>k r. sys_rows s k = Some r \<longrightarrow> key_hash (env_mask E) r \<in> S) \<and>
        due a = (case q of Update r \<Rightarrow> Some r | _ \<Rightarrow> None) \<and>
        (\<forall>r. q = Insert_If_Absent r \<longrightarrow> r \<in> set sent))"

fun awaited :: "query option \<Rightarrow> table_state \<Rightarrow> string list option" where
  "awaited None a = due a"
| "awaited (Some (Insert_If_Absent r)) a = Some r"
| "awaited (Some q) a = None"

fun in_flight :: "query option \<Rightarrow> string list list" where
  "in_flight None = []"
| "in_flight (Some q) = emitted q"

definition running_ok ::
  "(string \<Rightarrow> 'o::linorder) \<Rightarrow> environment \<Rightarrow> string list \<Rightarrow> string list list \<Rightarrow> system \<Rightarrow> query_builder \<Rightarrow> bool" where
  "running_ok stamp E fs rs s qb \<longleftrightarrow>
     sys_segment s = segment_of qb \<and> task_of qb (env_task E) \<and> files qb = fs \<and>
     (\<exists>a q sent. represents_table (env_lim E) qb a \<and> held_seen (env_mask E) a \<and>
        rs = sent @ in_flight q @ backlog a \<and> flight_ok E s a sent q \<and>
        sent_ok stamp (env_mask E) (sys_rows s) (seen s) (awaited q a) sent)"

definition finished_ok :: "(string \<Rightarrow> 'o::linorder) \<Rightarrow> environment \<Rightarrow> string list list \<Rightarrow> system \<Rightarrow> bool" where
  "finished_ok stamp E rs s \<longleftrightarrow>
     (1 \<le> sys_finished s \<longrightarrow> (\<forall>r\<in>set rs. key_hash (env_mask E) r \<in> seen s)) \<and>
     (2 \<le> sys_finished s \<longrightarrow> (\<forall>r\<in>set rs. reflected stamp (env_mask E) (sys_rows s) r))"

definition system_ok :: "(string \<Rightarrow> 'o::linorder) \<Rightarrow> environment \<Rightarrow> string list \<Rightarrow> string list list \<Rightarrow> system \<Rightarrow> bool" where
  "system_ok stamp E fs rs s \<longleftrightarrow>
     rows_from (env_mask E) rs (sys_rows s) \<and>
     (\<forall>k r. sys_rows s k = Some r \<longrightarrow> key_hash (env_mask E) r \<in> seen s) \<and>
     committed_ok stamp E fs rs s \<and> finished_ok stamp E rs s \<and>
     (case sys_process s of None \<Rightarrow> sys_asked s = None | Some qb \<Rightarrow> running_ok stamp E fs rs s qb)"

lemma sent_ok_mono:
  assumes "sent_ok stamp um d S p sent" and "S \<subseteq> S'"
  shows "sent_ok stamp um d S' p sent"
  using assms by (auto simp: sent_ok_def)

lemma resumable_segment:
  assumes "resumable lim seg t fs rest" and "represents_table lim qb a"
    and "committed_handle_idx qb = stored_handle seg" and "committed_offset qb = stored_offset seg"
  shows "resumable lim (segment_of qb) t fs rest"
  using assms
  by (simp add: resumable_def segment_of_def stored_keys_def stored_handle_def stored_offset_def
      represents_table_def builder_ok_def)

lemma stored_segment [simp]:
  "stored_keys (segment_of qb) = inserted qb" "stored_handle (segment_of qb) = committed_handle_idx qb"
  "stored_offset (segment_of qb) = committed_offset qb"
  by (simp_all add: segment_of_def stored_keys_def stored_handle_def stored_offset_def)

lemma abs_next_seen:
  assumes "abs_next um a = (Some q, a')" and "held_seen um a"
  shows "seen_keys a \<subseteq> seen_keys a'" and "key_hash um ` set (emitted q) \<subseteq> seen_keys a'"
proof -
  have "seen_keys a \<subseteq> seen_keys a' \<and> key_hash um ` set (emitted q) \<subseteq> seen_keys a'"
  proof (cases "due a")
    case None
    note due = this
    show ?thesis
    proof (cases "held a")
      case None
      obtain b st S rest where g: "gather um 501 (seen_keys a) (remaining a) = (b, st, S, rest)"
        by (metis prod_cases4)
      show ?thesis
        using assms due None gather_keys [OF g] g
        by (cases st) (auto simp: abs_next_def split: if_splits)
    qed (use assms due in \<open>auto simp: abs_next_def held_seen_def\<close>)
  qed (use assms in \<open>auto simp: abs_next_def\<close>)
  then show "seen_keys a \<subseteq> seen_keys a'" "key_hash um ` set (emitted q) \<subseteq> seen_keys a'"
    by simp_all
qed

lemma abs_next_due:
  "abs_next um a = (Some q, a') \<Longrightarrow> due a = (case q of Insert_If_Absent r \<Rightarrow> Some r | _ \<Rightarrow> None)"
  by (auto simp: abs_next_def split: option.splits prod.splits stop.splits if_splits)

section \<open>Every step keeps the invariant\<close>

lemma start_ok:
  assumes "env_ok stamp E fs rs" and "system_ok stamp E fs rs s" and "sys_process s = None" and "state_shape raw"
    and "QueryBuilder (env_lim E) (Some raw) (env_open E) (\<lambda>_. sys_segment s) (env_task E) = Inr qb"
  shows "system_ok stamp E fs rs (s\<lparr>sys_process := Some qb, sys_segment := segment_of qb\<rparr>)"
proof -
  from assms(2) obtain sent rest where c: "rs = sent @ rest"
    "resumable (env_lim E) (sys_segment s) (env_task E) fs rest"
    "sent_ok stamp (env_mask E) (sys_rows s) (seen s) None sent"
    by (auto simp: system_ok_def committed_ok_def)
  have "opened (env_open E) (env_task E) fs" using assms(1) by (simp add: env_ok_def)
  from QueryBuilder_spec [OF this assms(4), of "env_lim E" "\<lambda>_. sys_segment s" rest] c(2) assms(5)
  have qb: "represents_table (env_lim E) qb (start_of (sys_segment s) rest)" "task_of qb (env_task E)" "files qb = fs"
    "committed_handle_idx qb = stored_handle (sys_segment s)" "committed_offset qb = stored_offset (sys_segment s)"
    by (auto split: sum.splits)
  let ?s = "s\<lparr>sys_process := Some qb, sys_segment := segment_of qb\<rparr>"
  have "members (inserted qb) = members (stored_keys (sys_segment s))"
    using qb(1) by (simp add: represents_table_def start_of_def)
  then have seen: "seen ?s = seen s" by (simp add: seen_def)
  have "committed_ok stamp E fs rs ?s"
    using c resumable_segment [OF c(2) qb(1,4,5)] seen by (auto simp: committed_ok_def)
  moreover have "running_ok stamp E fs rs ?s qb"
  proof -
    have "sys_asked s = None" using assms(2,3) by (simp add: system_ok_def)
    then have "flight_ok E ?s (start_of (sys_segment s) rest) sent None" by (simp add: start_of_def)
    then show ?thesis
      using qb c seen unfolding running_ok_def
      by (intro conjI exI [of _ "start_of (sys_segment s) rest"] exI [of _ None] exI [of _ sent]) simp_all
  qed
  ultimately show ?thesis
    using assms(2) seen by (simp add: system_ok_def finished_ok_def)
qed

text \<open>What a call of \<open>next_query\<close> does to the stored state.\<close>

lemma next_query_segment:
  assumes "system_ok stamp E fs rs s" and "running_ok stamp E fs rs s qb"
    and "represents_table (env_lim E) qb' a'" and "same_table qb qb'" and "seen s \<subseteq> members (inserted qb')"
  shows "committed_ok stamp E fs rs (s\<lparr>sys_process := p, sys_segment := segment_of qb', sys_asked := x, sys_finished := n\<rparr>)"
    (is "committed_ok stamp E fs rs ?s")
proof -
  from assms(1) obtain sent rest where c: "rs = sent @ rest"
    "resumable (env_lim E) (sys_segment s) (env_task E) fs rest"
    "sent_ok stamp (env_mask E) (sys_rows s) (seen s) None sent"
    by (auto simp: system_ok_def committed_ok_def)
  have "resumable (env_lim E) (segment_of qb') (env_task E) fs rest"
  proof (rule resumable_segment [OF c(2) assms(3)])
    have "sys_segment s = segment_of qb" using assms(2) by (simp add: running_ok_def)
    then show "committed_handle_idx qb' = stored_handle (sys_segment s)"
      "committed_offset qb' = stored_offset (sys_segment s)"
      using assms(4) by (simp_all add: same_table_def)
  qed
  moreover have "sent_ok stamp (env_mask E) (sys_rows s) (seen ?s) None sent"
    using assms(5) by (intro sent_ok_mono [OF c(3)]) (simp add: seen_def)
  ultimately show ?thesis
    unfolding committed_ok_def using c(1) by (intro exI [of _ sent] exI [of _ rest]) simp
qed

lemma next_query_cases:
  assumes "running_ok stamp E fs rs s qb" and "sys_asked s = None"
    and "next_query (env_lim E) qb = Inr (u, qb')"
  obtains a a' q sent where "represents_table (env_lim E) qb a" "held_seen (env_mask E) a"
    "rs = sent @ backlog a" "sent_ok stamp (env_mask E) (sys_rows s) (seen s) (due a) sent"
    "\<forall>r. due a = Some r \<longrightarrow> r \<in> set sent"
    "abs_next (env_mask E) a = (q, a')" "represents_table (env_lim E) qb' a'" "same_table qb qb'"
    "members (inserted qb') = seen_keys a'" "seen s = seen_keys a"
    "case q of None \<Rightarrow> u = [] | Some q \<Rightarrow> u \<noteq> [] \<and> query_text (env_table E) (env_names E) (env_mask E) q = Inr u"
proof -
  from assms(1,2) obtain a q sent where a: "represents_table (env_lim E) qb a" "held_seen (env_mask E) a"
    "rs = sent @ in_flight q @ backlog a" "flight_ok E s a sent q"
    "sent_ok stamp (env_mask E) (sys_rows s) (seen s) (awaited q a) sent"
    by (auto simp: running_ok_def)
  have q: "q = None" using a(4) assms(2) by (cases q) auto
  have t: "qb_unique_mask qb = env_mask E" "qb_field_names qb = env_names E" "qb_table qb = env_table E"
    "sys_segment s = segment_of qb"
    using assms(1) by (simp_all add: running_ok_def task_of_def)
  obtain q' a' where n: "abs_next (env_mask E) a = (q', a')" by (metis surj_pair)
  have "abs_next (qb_unique_mask qb) a = (q', a')" using n t by simp
  from next_query_step [OF a(1) this] assms(3)
  have r: "represents_table (env_lim E) qb' a'" "same_table qb qb'" and
    "case q' of None \<Rightarrow> u = []
     | Some q \<Rightarrow> u \<noteq> [] \<and> query_text (qb_table qb) (qb_field_names qb) (qb_unique_mask qb) q = Inr u"
    by auto
  then have "case q' of None \<Rightarrow> u = []
     | Some q \<Rightarrow> u \<noteq> [] \<and> query_text (env_table E) (env_names E) (env_mask E) q = Inr u"
    unfolding t by simp
  moreover have "members (inserted qb') = seen_keys a'" "seen s = seen_keys a"
    using \<open>represents_table (env_lim E) qb' a'\<close> a(1) t by (simp_all add: represents_table_def seen_def)
  moreover have "\<forall>r. due a = Some r \<longrightarrow> r \<in> set sent" using a(4) q by simp
  ultimately show ?thesis using that [of a sent q' a'] a n q r by simp
qed

lemma running_same_table:
  assumes "running_ok stamp E fs rs s qb" and "same_table qb qb'"
  shows "task_of qb' (env_task E)" and "files qb' = fs"
  using assms by (simp_all add: running_ok_def task_of_def same_table_def)

lemma ask_ok:
  assumes "env_ok stamp E fs rs" and "system_ok stamp E fs rs s" and "sys_process s = Some qb"
    and "sys_asked s = None" and "next_query (env_lim E) qb = Inr (u, qb')" and "u \<noteq> []"
  shows "system_ok stamp E fs rs (s\<lparr>sys_process := Some qb', sys_segment := segment_of qb', sys_asked := Some u\<rparr>)"
    (is "system_ok stamp E fs rs ?s")
proof -
  have run: "running_ok stamp E fs rs s qb" using assms(2,3) by (simp add: system_ok_def)
  obtain a a' q' sent where n: "represents_table (env_lim E) qb a" "held_seen (env_mask E) a"
    "rs = sent @ backlog a" "sent_ok stamp (env_mask E) (sys_rows s) (seen s) (due a) sent"
    "\<forall>r. due a = Some r \<longrightarrow> r \<in> set sent"
    "abs_next (env_mask E) a = (q', a')" "represents_table (env_lim E) qb' a'" "same_table qb qb'"
    "members (inserted qb') = seen_keys a'" "seen s = seen_keys a"
    "case q' of None \<Rightarrow> u = [] | Some q \<Rightarrow> u \<noteq> [] \<and> query_text (env_table E) (env_names E) (env_mask E) q = Inr u"
    by (rule next_query_cases [OF run assms(4,5)])
  then obtain q where q: "abs_next (env_mask E) a = (Some q, a')"
    "query_text (env_table E) (env_names E) (env_mask E) q = Inr u"
    using assms(6) by (cases q') auto
  note s = abs_next_some [OF q(1)] and k = abs_next_seen [OF q(1) n(2)]
  have seen: "seen ?s = seen_keys a'" "seen s \<subseteq> seen ?s" using n(9,10) k(1) by (simp_all add: seen_def)
  have due: "due a = (case q of Insert_If_Absent r \<Rightarrow> Some r | _ \<Rightarrow> None)"
    using q(1) by (rule abs_next_due)
  have c: "consistent (env_mask E) (seen s) [q]"
    unfolding n(10) by (rule abs_next_consistent [OF q(1) n(2)]) simp_all
  have rec: "\<forall>r\<in>set rs. plain_record r \<and> length r = length (env_names E)" using assms(1) by (simp add: env_ok_def)
  have "plain_query (env_names E) q"
    using rec n(3,5) s(1) c due by (cases q) auto
  then have "flight_ok E ?s a' sent (Some q)"
    using assms(2) q(2) c k(2) s(4) n(5) due seen(1) by (cases q) (auto simp: system_ok_def)
  moreover have "sent_ok stamp (env_mask E) (sys_rows s) (seen ?s) (awaited (Some q) a') sent"
  proof -
    have "awaited (Some q) a' = due a" using due by (cases q) simp_all
    with n(4) seen(2) show ?thesis by (simp add: sent_ok_mono)
  qed
  ultimately have "running_ok stamp E fs rs ?s qb'"
    using n(3,7) s(1) s(3) [OF n(2)] running_same_table [OF run n(8)] unfolding running_ok_def
    by (intro conjI exI [of _ a'] exI [of _ "Some q"] exI [of _ sent]) simp_all
  moreover have "committed_ok stamp E fs rs ?s"
    using next_query_segment [OF assms(2) run n(7,8), where p = "Some qb'" and x = "Some u" and n = "sys_finished s"] seen n(9) by simp
  moreover have "finished_ok stamp E rs ?s"
    using assms(2) seen(2) by (auto simp: system_ok_def finished_ok_def)
  ultimately show ?thesis
    using assms(2) seen(2) by (auto simp: system_ok_def)
qed

lemma running_flight:
  assumes "running_ok stamp E fs rs s qb" and "sys_asked s = Some u"
  obtains a q sent S where "represents_table (env_lim E) qb a" "held_seen (env_mask E) a"
    "rs = sent @ emitted q @ backlog a" "sent_ok stamp (env_mask E) (sys_rows s) (seen s) (awaited (Some q) a) sent"
    "query_text (env_table E) (env_names E) (env_mask E) q = Inr u" "plain_query (env_names E) q"
    "consistent (env_mask E) S [q]" "key_hash (env_mask E) ` set (emitted q) \<subseteq> seen s"
    "\<forall>k r. sys_rows s k = Some r \<longrightarrow> key_hash (env_mask E) r \<in> S"
    "due a = (case q of Update r \<Rightarrow> Some r | _ \<Rightarrow> None)" "\<forall>r. q = Insert_If_Absent r \<longrightarrow> r \<in> set sent"
proof -
  from assms(1) obtain a q' sent where a: "represents_table (env_lim E) qb a" "held_seen (env_mask E) a"
    "rs = sent @ in_flight q' @ backlog a" "flight_ok E s a sent q'"
    "sent_ok stamp (env_mask E) (sys_rows s) (seen s) (awaited q' a) sent"
    by (auto simp: running_ok_def)
  then obtain q where "q' = Some q" using assms(2) by (cases q') auto
  with a assms(2) that [of a sent q] show ?thesis by auto
qed

lemma running_exec:
  assumes "env_ok stamp E fs rs" and "plain_query (env_names E) q"
    and "query_text (env_table E) (env_names E) (env_mask E) q = Inr u"
  shows "env_exec E u d = run_query stamp (env_mask E) q d"
  using assms by (simp add: env_ok_def speaks_sql_def)

lemma execute_ok:
  assumes "env_ok stamp E fs rs" and "system_ok stamp E fs rs s"
    and "sys_asked s = Some u" and "env_exec E u (sys_rows s) = Some d"
  shows "system_ok stamp E fs rs (s\<lparr>sys_asked := None, sys_rows := d\<rparr>)" (is "system_ok stamp E fs rs ?s")
proof -
  obtain qb where p: "sys_process s = Some qb" and run: "running_ok stamp E fs rs s qb"
    using assms(2,3) by (auto simp: system_ok_def split: option.splits)
  obtain a q sent S where a: "represents_table (env_lim E) qb a" "held_seen (env_mask E) a"
    "rs = sent @ emitted q @ backlog a" "sent_ok stamp (env_mask E) (sys_rows s) (seen s) (awaited (Some q) a) sent"
    "query_text (env_table E) (env_names E) (env_mask E) q = Inr u" "plain_query (env_names E) q"
    "consistent (env_mask E) S [q]" "key_hash (env_mask E) ` set (emitted q) \<subseteq> seen s"
    "\<forall>k r. sys_rows s k = Some r \<longrightarrow> key_hash (env_mask E) r \<in> S"
    "due a = (case q of Update r \<Rightarrow> Some r | _ \<Rightarrow> None)" "\<forall>r. q = Insert_If_Absent r \<longrightarrow> r \<in> set sent"
    by (rule running_flight [OF run assms(3)])
  have d: "run_query stamp (env_mask E) q (sys_rows s) = Some d"
    using running_exec [OF assms(1) a(6,5)] assms(4) by simp
  have seen: "seen ?s = seen s" by (simp add: seen_def)
  have old: "reflected stamp (env_mask E) d r" if "reflected stamp (env_mask E) (sys_rows s) r" for r
    by (rule run_query_reflected [OF d that])
  have due_emitted: "r \<in> set (emitted q)" if "due a = Some r" for r
    using that a(10) by (cases q) auto
  have sent: "sent_ok stamp (env_mask E) d (seen s) (due a) (sent @ emitted q)"
    unfolding sent_ok_def
  proof
    fix r assume "r \<in> set (sent @ emitted q)"
    then consider "r \<in> set sent" | "r \<in> set (emitted q)" by auto
    then show "key_hash (env_mask E) r \<in> seen s \<and> (reflected stamp (env_mask E) d r \<or>
        due a = Some r \<and> d (row_key (env_mask E) r) = None)"
    proof cases
      case 1
      then have r: "key_hash (env_mask E) r \<in> seen s" "reflected stamp (env_mask E) (sys_rows s) r \<or>
          awaited (Some q) a = Some r \<and> sys_rows s (row_key (env_mask E) r) = None"
        using a(4) by (auto simp: sent_ok_def)
      show ?thesis
      proof (cases "reflected stamp (env_mask E) (sys_rows s) r")
        case False
        then have "q = Insert_If_Absent r" "sys_rows s (row_key (env_mask E) r) = None"
          using r(2) by (cases q, auto)+
        then show ?thesis using run_query_absent [of stamp "env_mask E" r "sys_rows s" d] d r(1) by simp
      qed (use old r(1) in simp)
    next
      case 2
      then show ?thesis using run_query_emitted [OF d 2] a(8,10) by auto
    qed
  qed
  have row: "r \<in> set rs \<and> row_key (env_mask E) r = k \<and> key_hash (env_mask E) r \<in> seen s" if dk: "d k = Some r" for k r
  proof -
    consider "sys_rows s k = Some r" | "row_key (env_mask E) r = k" "r \<in> set (sent @ emitted q)"
      using run_query_rows [OF d dk] a(11) by auto
    then show ?thesis
    proof cases
      case 1
      then show ?thesis using assms(2) by (auto simp: system_ok_def rows_from_def)
    next
      case 2
      then show ?thesis using sent a(3) by (auto simp: sent_ok_def)
    qed
  qed
  have "running_ok stamp E fs rs ?s qb"
    using run a(1,2,3) sent seen due_emitted unfolding running_ok_def
    by (intro conjI exI [of _ a] exI [of _ None] exI [of _ "sent @ emitted q"]) (simp_all add: running_ok_def)
  moreover have "committed_ok stamp E fs rs ?s"
  proof -
    from assms(2) obtain old_sent rest where "rs = old_sent @ rest"
      "resumable (env_lim E) (sys_segment s) (env_task E) fs rest"
      "sent_ok stamp (env_mask E) (sys_rows s) (seen s) None old_sent"
      by (auto simp: system_ok_def committed_ok_def)
    then show ?thesis
      unfolding committed_ok_def using old seen by (intro exI [of _ old_sent] exI [of _ rest]) (simp add: sent_ok_def)
  qed
  moreover have "finished_ok stamp E rs ?s"
    using assms(2) old seen by (auto simp: system_ok_def finished_ok_def)
  ultimately show ?thesis
    using row p seen by (auto simp: system_ok_def rows_from_def)
qed

lemma commit_ok:
  assumes "env_ok stamp E fs rs" and "system_ok stamp E fs rs s" and "sys_process s = Some qb"
    and "sys_asked s = None" and "commit qb = Inr qb'"
  shows "system_ok stamp E fs rs (s\<lparr>sys_process := Some qb', sys_segment := segment_of qb'\<rparr>)"
    (is "system_ok stamp E fs rs ?s")
proof -
  have run: "running_ok stamp E fs rs s qb" using assms(2,3) by (simp add: system_ok_def)
  then obtain a q sent where a: "represents_table (env_lim E) qb a" "held_seen (env_mask E) a"
    "rs = sent @ in_flight q @ backlog a" "flight_ok E s a sent q"
    "sent_ok stamp (env_mask E) (sys_rows s) (seen s) (awaited q a) sent"
    by (auto simp: running_ok_def)
  then have q: "q = None" using assms(4) by (cases q) auto
  have seg: "sys_segment s = segment_of qb" and t: "task_of qb (env_task E)" and f: "files qb = fs"
    using run by (auto simp: running_ok_def)
  show ?thesis
  proof (cases "due a")
    case (Some r)
    then have "qb' = qb" using commit_keeps_due [OF a(1)] assms(5) by simp
    then have "?s = s" using assms(3) seg by simp
    then show ?thesis using assms(2) by simp
  next
    case None
    have um: "qb_unique_mask qb = env_mask E" using t by (simp add: task_of_def)
    have "short_keys (qb_unique_mask qb) (backlog a)"
      using assms(1) a(3) um by (auto simp: env_ok_def short_keys_def)
    from commit_resumable [OF a(1) None this t] assms(5)
    have c: "represents_table (env_lim E) qb' a" "resumable (env_lim E) (segment_of qb') (env_task E) fs (backlog a)"
      "inserted qb' = inserted qb"
      using f by simp_all
    have same: "task_of qb' (env_task E)" "files qb' = fs"
      using assms(5) t f by (auto simp: commit_def task_of_def files_def rbind_Inr_iff split: if_splits)
    have seen: "seen ?s = seen s" using c(3) seg by (simp add: seen_def)
    have "committed_ok stamp E fs rs ?s"
      unfolding committed_ok_def using a(3,5) q None c(2) seen
      by (intro exI [of _ sent] exI [of _ "backlog a"]) simp
    moreover have "running_ok stamp E fs rs ?s qb'"
      using a q c(1) same seen assms(4) unfolding running_ok_def
      by (intro conjI exI [of _ a] exI [of _ None] exI [of _ sent]) simp_all
    ultimately show ?thesis
      using assms(2) seen by (simp add: system_ok_def finished_ok_def)
  qed
qed

text \<open>
  The end of the table.  Its records are all in statements, but for those a process collects when
  it comes to the end; that one has recorded their keys.
\<close>

lemma finish_ok:
  assumes "env_ok stamp E fs rs" and "system_ok stamp E fs rs s" and "sys_process s = Some qb"
    and "sys_asked s = None" and "next_query (env_lim E) qb = Inr ([], qb')"
  shows "system_ok stamp E fs rs
    (s\<lparr>sys_process := None, sys_segment := segment_of qb', sys_finished := Suc (sys_finished s)\<rparr>)"
    (is "system_ok stamp E fs rs ?s")
proof -
  have run: "running_ok stamp E fs rs s qb" using assms(2,3) by (simp add: system_ok_def)
  obtain a a' q sent where n: "represents_table (env_lim E) qb a" "held_seen (env_mask E) a"
    "rs = sent @ backlog a" "sent_ok stamp (env_mask E) (sys_rows s) (seen s) (due a) sent"
    "\<forall>r. due a = Some r \<longrightarrow> r \<in> set sent"
    "abs_next (env_mask E) a = (q, a')" "represents_table (env_lim E) qb' a'" "same_table qb qb'"
    "members (inserted qb') = seen_keys a'" "seen s = seen_keys a"
    "case q of None \<Rightarrow> ([] :: string) = [] | Some q \<Rightarrow> ([] :: string) \<noteq> [] \<and> query_text (env_table E) (env_names E) (env_mask E) q = Inr []"
    by (rule next_query_cases [OF run assms(4,5)])
  then have "abs_next (env_mask E) a = (None, a')" by (cases q) auto
  note e = abs_next_none [OF this]
  have backlog: "backlog a = remaining a" using e(2) by (simp add: backlog_def)
  have seen: "seen ?s = seen s \<union> key_hash (env_mask E) ` set (remaining a)"
    using n(9,10) e(9) by (simp add: seen_def)
  then have all: "\<forall>r\<in>set rs. key_hash (env_mask E) r \<in> seen ?s"
    using n(3,4) backlog by (auto simp: sent_ok_def)
  have "reflected stamp (env_mask E) (sys_rows s) r" if "1 \<le> sys_finished s" "r \<in> set rs" for r
  proof -
    have "key_hash (env_mask E) ` set (remaining a) \<subseteq> seen s"
      using assms(2) that(1) n(3) backlog by (auto simp: system_ok_def finished_ok_def)
    then have "remaining a = []" using e(8) n(10) by (cases "remaining a") auto
    then have "r \<in> set sent" using that(2) n(3) backlog by simp
    then show ?thesis using n(4) e(1) by (auto simp: sent_ok_def)
  qed
  then have "finished_ok stamp E rs ?s" using all by (simp add: finished_ok_def)
  moreover have "committed_ok stamp E fs rs ?s"
  proof -
    have "?s = s\<lparr>sys_process := None, sys_segment := segment_of qb', sys_asked := None, sys_finished := Suc (sys_finished s)\<rparr>"
      using assms(4) by simp
    moreover have "seen s \<subseteq> members (inserted qb')" using n(9,10) e(9) by auto
    ultimately show ?thesis using next_query_segment [OF assms(2) run n(7,8)] by metis
  qed
  ultimately show ?thesis
    using assms(2,4) seen by (auto simp: system_ok_def)
qed

lemma crash_ok:
  assumes "system_ok stamp E fs rs s"
  shows "system_ok stamp E fs rs (s\<lparr>sys_process := None, sys_asked := None\<rparr>)"
  using assms by (auto simp: system_ok_def committed_ok_def finished_ok_def seen_def)

text \<open>
  In the midst of \<open>next_query\<close> keys of records are stored that no statement carries; the committed
  position stays before them.
\<close>

lemma interrupted_ok:
  assumes "system_ok stamp E fs rs s" and "sys_process s = Some qb" and "sys_asked s = None"
    and "(collect_round (env_lim E))\<^sup>*\<^sup>* ([], qb) (records, qb')"
  shows "system_ok stamp E fs rs (s\<lparr>sys_process := None, sys_segment := segment_of qb'\<rparr>)"
    (is "system_ok stamp E fs rs ?s")
proof -
  have seg: "sys_segment s = segment_of qb" using assms(1,2) by (simp add: system_ok_def running_ok_def)
  from assms(1) obtain sent rest where c: "rs = sent @ rest"
    "resumable (env_lim E) (sys_segment s) (env_task E) fs rest"
    "sent_ok stamp (env_mask E) (sys_rows s) (seen s) None sent"
    by (auto simp: system_ok_def committed_ok_def)
  note r = collect_rounds_resumable [OF assms(4) c(2) [unfolded seg]]
  have seen: "seen s \<subseteq> seen ?s" using r(2) by (simp add: seen_def seg)
  have "committed_ok stamp E fs rs ?s"
    unfolding committed_ok_def using c(1) r(1) sent_ok_mono [OF c(3) seen]
    by (intro exI [of _ sent] exI [of _ rest]) simp
  moreover have "finished_ok stamp E rs ?s"
    using assms(1) seen by (auto simp: system_ok_def finished_ok_def)
  ultimately show ?thesis
    using assms(1,3) seen by (auto simp: system_ok_def)
qed

lemma not_opened_ok:
  assumes "system_ok stamp E fs rs s" and "sys_process s = None" and "constructing (env_lim E) (sys_segment s) seg"
  shows "system_ok stamp E fs rs (s\<lparr>sys_segment := seg\<rparr>)"
proof -
  from assms(1) obtain sent rest where c: "rs = sent @ rest"
    "resumable (env_lim E) (sys_segment s) (env_task E) fs rest"
    "sent_ok stamp (env_mask E) (sys_rows s) (seen s) None sent"
    by (auto simp: system_ok_def committed_ok_def)
  note r = constructing_resumable [OF assms(3) c(2)]
  have "seen (s\<lparr>sys_segment := seg\<rparr>) = seen s" using r(2) by (simp add: seen_def)
  then show ?thesis
    using assms(1,2) c(1,3) r(1) by (auto simp: system_ok_def committed_ok_def finished_ok_def)
qed

lemma step_ok:
  assumes "env_ok stamp E fs rs" and "system_ok stamp E fs rs s" and "step E s s'"
  shows "system_ok stamp E fs rs s'"
  using assms(3)
proof (cases rule: step.cases)
  case (start raw qb)
  then show ?thesis using start_ok [OF assms(1,2)] by simp
next
  case (ask qb u qb')
  then show ?thesis using ask_ok [OF assms(1,2)] by simp
next
  case (execute u d)
  then show ?thesis using execute_ok [OF assms(1,2)] by simp
next
  case (commit qb qb')
  then show ?thesis using commit_ok [OF assms(1,2)] by simp
next
  case (finish qb qb')
  then show ?thesis using finish_ok [OF assms(1,2)] by simp
next
  case crash
  then show ?thesis using crash_ok [OF assms(2)] by simp
next
  case (not_opened seg)
  then show ?thesis using not_opened_ok [OF assms(2)] by simp
next
  case (interrupted qb records qb')
  then show ?thesis using interrupted_ok [OF assms(2)] by simp
qed

lemma reachable_ok:
  assumes "env_ok stamp E fs rs" and "reachable E fs rs s"
  shows "system_ok stamp E fs rs s"
  using assms(2)
proof induction
  case (init s)
  then have "committed_ok stamp E fs rs s"
    unfolding committed_ok_def by (intro exI [of _ "[]"] exI [of _ rs]) (simp add: initial_def sent_ok_def)
  with init show ?case
    by (simp add: initial_def system_ok_def rows_from_def finished_ok_def)
qed (use assms(1) step_ok in blast)

text \<open>A statement in flight can be executed: in particular no insert meets a key that is taken.\<close>

lemma flight_executes:
  assumes "env_ok stamp E fs rs" and "system_ok stamp E fs rs s" and "sys_asked s = Some u"
  shows "\<exists>d. env_exec E u (sys_rows s) = Some d"
proof -
  obtain qb where run: "running_ok stamp E fs rs s qb"
    using assms(2,3) by (auto simp: system_ok_def split: option.splits)
  obtain a q sent S where a: "query_text (env_table E) (env_names E) (env_mask E) q = Inr u" "plain_query (env_names E) q"
    "consistent (env_mask E) S [q]" "\<forall>k r. sys_rows s k = Some r \<longrightarrow> key_hash (env_mask E) r \<in> S"
    by (rule running_flight [OF run assms(3)])
  then have "\<forall>k r. sys_rows s k = Some r \<longrightarrow> row_key (env_mask E) r = k \<and> key_hash (env_mask E) r \<in> S"
    using assms(2) by (simp add: system_ok_def rows_from_def)
  from run_query_defined [OF a(3) this] show ?thesis
    using running_exec [OF assms(1) a(2,1)] by auto
qed

section \<open>Sessions that are not interrupted\<close>

text \<open>
  A client that executes and commits every statement until there are no more; it gives up when a
  statement cannot be executed.  A session is a new process with such a client.
\<close>

fun drive :: "environment \<Rightarrow> nat \<Rightarrow> system \<Rightarrow> system res" where
  "drive E 0 s = Inr s"
| "drive E (Suc n) s =
     (case sys_process s of
        None \<Rightarrow> Inr s
      | Some qb \<Rightarrow>
          (case sys_asked s of
             None \<Rightarrow>
               rbind (next_query (env_lim E) qb) (\<lambda>(u, qb).
                 if u = []
                 then Inr (s\<lparr>sys_process := None, sys_segment := segment_of qb, sys_finished := Suc (sys_finished s)\<rparr>)
                 else drive E n (s\<lparr>sys_process := Some qb, sys_segment := segment_of qb, sys_asked := Some u\<rparr>))
           | Some u \<Rightarrow>
               (case env_exec E u (sys_rows s) of
                  None \<Rightarrow> Inl (Exits 1)
                | Some d \<Rightarrow>
                    rbind (commit qb) (\<lambda>qb.
                      drive E n (s\<lparr>sys_asked := None, sys_rows := d, sys_process := Some qb, sys_segment := segment_of qb\<rparr>)))))"

definition session :: "environment \<Rightarrow> XXH3_state \<Rightarrow> nat \<Rightarrow> system \<Rightarrow> system res" where
  "session E raw n s =
     rbind (QueryBuilder (env_lim E) (Some raw) (env_open E) (\<lambda>_. sys_segment s) (env_task E)) (\<lambda>qb.
       drive E n (s\<lparr>sys_process := Some qb, sys_segment := segment_of qb\<rparr>))"

lemma commit_total:
  assumes "represents_table lim qb a"
  shows "\<exists>qb'. commit qb = Inr qb' \<and> represents_table lim qb' a \<and> inserted qb' = inserted qb \<and>
    qb_unique_mask qb' = qb_unique_mask qb"
  using assms
  by (auto simp: commit_def represents_table_def builder_ok_def readers_ok_def feeds_def files_def holds_back_def
      split: option.splits)

definition ticks :: "system \<Rightarrow> table_state \<Rightarrow> nat" where
  "ticks s a = 2 * todo a + (if sys_asked s = None then 0 else 1)"

lemma drive_spec:
  assumes "env_ok stamp E fs rs" and "reachable E fs rs s" and "sys_process s = Some qb"
    and "represents_table (env_lim E) qb a" and "ticks s a < n"
  shows "drive E n s = Inl Throws_Bad_Alloc \<and> \<not> roomy (env_lim E) K qb (remaining a) \<or>
    (\<exists>s'. drive E n s = Inr s' \<and> reachable E fs rs s' \<and> sys_process s' = None \<and>
      sys_finished s' = Suc (sys_finished s) \<and>
      (roomy (env_lim E) K qb (remaining a) \<longrightarrow> reserved (env_lim E) K (stored_keys (sys_segment s'))))"
  using assms(2-5)
proof (induction n arbitrary: s qb a)
  case (Suc n)
  have ok: "system_ok stamp E fs rs s" by (rule reachable_ok [OF assms(1) Suc.prems(1)])
  show ?case
  proof (cases "sys_asked s")
    case None
    obtain q a' where q: "abs_next (qb_unique_mask qb) a = (q, a')" by (metis surj_pair)
    show ?thesis
    proof (cases "next_query (env_lim E) qb")
      case (Inl e)
      with next_query_step [OF Suc.prems(3) q] have "e = Throws_Bad_Alloc" "\<not> roomy (env_lim E) K qb (remaining a)"
        by auto
      with Inl show ?thesis using Suc.prems(2) None by simp
    next
      case (Inr p)
      then obtain u qb' where u: "next_query (env_lim E) qb = Inr (u, qb')" by (cases p) simp
      with next_query_step [OF Suc.prems(3) q] have r: "represents_table (env_lim E) qb' a'"
        and c: "case q of None \<Rightarrow> u = [] | Some q \<Rightarrow> u \<noteq> []"
        and room: "roomy (env_lim E) K qb (remaining a) \<Longrightarrow> roomy (env_lim E) K qb' (remaining a')"
        by (auto split: option.splits)
      show ?thesis
      proof (cases "u = []")
        case True
        let ?s = "s\<lparr>sys_process := None, sys_segment := segment_of qb', sys_finished := Suc (sys_finished s)\<rparr>"
        have "reachable E fs rs ?s"
          by (rule next_step [OF Suc.prems(1)], rule finish [OF Suc.prems(2) None]) (use u True in simp)
        then show ?thesis using Suc.prems(2) None u True room by (simp add: roomy_def)
      next
        case False
        let ?s = "s\<lparr>sys_process := Some qb', sys_segment := segment_of qb', sys_asked := Some u\<rparr>"
        have "reachable E fs rs ?s"
          by (rule next_step [OF Suc.prems(1)], rule ask [OF Suc.prems(2) None u False])
        moreover have "todo a' < todo a" using c False q abs_next_some(2) by (cases q) auto
        then have "ticks ?s a' < n" using Suc.prems(4) None by (simp add: ticks_def)
        ultimately show ?thesis using Suc.IH [of ?s qb' a'] r Suc.prems(2) None u False room by auto
      qed
    qed
  next
    case (Some u)
    obtain d where d: "env_exec E u (sys_rows s) = Some d"
      using flight_executes [OF assms(1) ok Some] by blast
    obtain qb' where qb': "commit qb = Inr qb'" "represents_table (env_lim E) qb' a"
      "inserted qb' = inserted qb" "qb_unique_mask qb' = qb_unique_mask qb"
      using commit_total [OF Suc.prems(3)] by blast
    let ?s1 = "s\<lparr>sys_asked := None, sys_rows := d\<rparr>"
    let ?s = "s\<lparr>sys_asked := None, sys_rows := d, sys_process := Some qb', sys_segment := segment_of qb'\<rparr>"
    have "reachable E fs rs ?s1"
      by (rule next_step [OF Suc.prems(1)], rule execute [OF Some d])
    then have "reachable E fs rs (?s1\<lparr>sys_process := Some qb', sys_segment := segment_of qb'\<rparr>)"
      by (rule next_step) (rule commit, use Suc.prems(2) qb' in simp_all)
    then have "reachable E fs rs ?s" by simp
    moreover have "ticks ?s a < n" using Suc.prems(4) Some by (simp add: ticks_def)
    ultimately show ?thesis using Suc.IH [of ?s qb' a] qb' Suc.prems(2) Some d by (simp add: roomy_def)
  qed
qed simp

text \<open>
  At most 24 keys and a segment of the program's size, whose table is absent, new or reserved: then no
  allocation fails.
\<close>

definition has_room :: "environment \<Rightarrow> string list list \<Rightarrow> system \<Rightarrow> bool" where
  "has_room E rs s \<longleftrightarrow> room_for (env_lim E) (key_hash (env_mask E) ` set rs) (stored_keys (sys_segment s))"

lemma has_room_new:
  assumes "length rs \<le> 24" and "18874368 \<le> env_lim E" and "seg_inserted (sys_segment s) = None"
  shows "has_room E rs s"
proof -
  have "card (key_hash (env_mask E) ` set rs) \<le> length rs"
    by (metis card_image_le card_length le_trans List.finite_set)
  then show ?thesis using assms by (simp add: has_room_def room_for_def stored_keys_def)
qed

lemma session_spec:
  assumes "env_ok stamp E fs rs" and "reachable E fs rs s" and "sys_process s = None" and "state_shape raw"
    and "4 * length rs < n"
  shows "session E raw n s = Inl Throws_Bad_Alloc \<and> \<not> has_room E rs s \<or>
    (\<exists>s'. session E raw n s = Inr s' \<and> reachable E fs rs s' \<and> sys_process s' = None \<and>
      sys_finished s' = Suc (sys_finished s) \<and> (has_room E rs s \<longrightarrow> has_room E rs s'))"
proof -
  have ok: "system_ok stamp E fs rs s" by (rule reachable_ok [OF assms(1,2)])
  then obtain sent rest where c: "rs = sent @ rest"
    "resumable (env_lim E) (sys_segment s) (env_task E) fs rest"
    by (auto simp: system_ok_def committed_ok_def)
  have asked: "sys_asked s = None" using ok assms(3) by (simp add: system_ok_def)
  have "opened (env_open E) (env_task E) fs" using assms(1) by (simp add: env_ok_def)
  note started = QueryBuilder_spec [OF this assms(4), of "env_lim E" "\<lambda>_. sys_segment s" rest]
    QueryBuilder_room [OF this assms(4), of "env_lim E" "\<lambda>_. sys_segment s" rest]
  let ?K = "key_hash (env_mask E) ` set rs"
  have "?K \<supseteq> key_hash (env_mask E) ` set rest" using c(1) by auto
  with started c(2)
  consider (oom) "QueryBuilder (env_lim E) (Some raw) (env_open E) (\<lambda>_. sys_segment s) (env_task E) = Inl Throws_Bad_Alloc"
      "\<not> has_room E rs s"
    | (ok) qb where "QueryBuilder (env_lim E) (Some raw) (env_open E) (\<lambda>_. sys_segment s) (env_task E) = Inr qb"
        "represents_table (env_lim E) qb (start_of (sys_segment s) rest)" "has_room E rs s \<Longrightarrow> roomy (env_lim E) ?K qb rest"
    unfolding has_room_def by (fastforce split: sum.splits)
  then show ?thesis
  proof cases
    case oom
    then show ?thesis by (simp add: session_def)
  next
    case (ok qb)
    let ?s = "s\<lparr>sys_process := Some qb, sys_segment := segment_of qb\<rparr>"
    have "reachable E fs rs ?s"
      by (rule next_step [OF assms(2)], rule start [OF assms(3,4) ok(1)])
    moreover have "ticks ?s (start_of (sys_segment s) rest) < n"
      using c(1) asked assms(5) by (simp add: ticks_def)
    ultimately show ?thesis
      using drive_spec [OF assms(1) _ _ ok(2), of ?s n ?K] ok(1,3) by (auto simp: session_def has_room_def room_for_def)
  qed
qed

lemma finished_twice_newest:
  assumes "env_ok stamp E fs rs" and "reachable E fs rs s" and "2 \<le> sys_finished s"
  shows "newest_rows stamp (env_mask E) rs (sys_rows s)"
  using reachable_ok [OF assms(1,2)] assms(3) by (intro newest_rowsI) (simp_all add: system_ok_def finished_ok_def)

definition two_sessions :: "environment \<Rightarrow> XXH3_state \<Rightarrow> nat \<Rightarrow> system \<Rightarrow> system res" where
  "two_sessions E raw n s = rbind (session E raw n s) (session E raw n)"

lemma sessions_complete:
  assumes "env_ok stamp E fs rs" and "reachable E fs rs s" and "sys_process s = None" and "state_shape raw"
    and "4 * length rs < n"
  shows "case two_sessions E raw n s of
      Inl e \<Rightarrow> e = Throws_Bad_Alloc \<and> \<not> has_room E rs s
    | Inr s2 \<Rightarrow> newest_rows stamp (env_mask E) rs (sys_rows s2)"
proof -
  consider "session E raw n s = Inl Throws_Bad_Alloc" "\<not> has_room E rs s"
    | s1 where "session E raw n s = Inr s1" "reachable E fs rs s1" "sys_process s1 = None"
        "sys_finished s1 = Suc (sys_finished s)" "has_room E rs s \<longrightarrow> has_room E rs s1"
    using session_spec [OF assms] by blast
  then show ?thesis
  proof cases
    case 2
    from session_spec [OF assms(1) 2(2,3) assms(4,5)] 2(4,5)
    consider "session E raw n s1 = Inl Throws_Bad_Alloc" "\<not> has_room E rs s"
      | s2 where "session E raw n s1 = Inr s2" "reachable E fs rs s2" "2 \<le> sys_finished s2"
      by fastforce
    then show ?thesis
      using 2(1) finished_twice_newest [OF assms(1)] by cases (simp_all add: two_sessions_def)
  qed (simp add: two_sessions_def)
qed

section \<open>A sample environment\<close>

text \<open>The sample table in front of a database that reads the statements, with numbers as times.\<close>

definition sample_stamp :: "string \<Rightarrow> nat" where
  "sample_stamp v = foldl (\<lambda>n c. 10 * n + of_char c) 0 v"

definition sample_env :: environment where
  "sample_env =
     \<lparr>env_lim = 18874368, env_open = sample_open, env_task = sample_task,
      env_exec = (\<lambda>u. run_query sample_stamp 1 (read_query ''t'' [''id'', ''v'', ''u''] 1 u))\<rparr>"

definition sample_system :: system where
  "sample_system =
     \<lparr>sys_process = None, sys_segment = segment_at 0 0, sys_asked = None, sys_rows = Map.empty, sys_finished = 0\<rparr>"

lemma sample_keyed: "keyed [''id'', ''v'', ''u''] (1 :: 16 word)"
  using sample_resumable [of 0 0 sample_records] sample_feeds by (simp add: resumable_def sample_task_def)

lemma sample_env_ok: "env_ok sample_stamp sample_env sample_files sample_records"
proof -
  have "speaks_sql sample_stamp ''t'' [''id'', ''v'', ''u''] 1
      (\<lambda>u. run_query sample_stamp 1 (read_query ''t'' [''id'', ''v'', ''u''] 1 u))"
    by (rule reading_speaks_sql [OF sample_keyed]) (simp add: plain_names_def)
  moreover have "short_keys 1 sample_records"
    using sample_resumable [of 0 0 sample_records] sample_feeds by (simp add: resumable_def sample_task_def)
  moreover have "\<forall>r\<in>set sample_records. plain_record r \<and> length r = 3"
    by (simp add: sample_records_def plain_record_def plain_value_def)
  ultimately show ?thesis
    using sample_opened by (simp add: env_ok_def sample_env_def sample_task_def)
qed

lemma sample_initial: "initial sample_env sample_files sample_records sample_system"
  using sample_resumable [of 0 0 sample_records] sample_feeds
  by (simp add: initial_def sample_env_def sample_system_def)

lemma sample_has_room: "has_room sample_env sample_records sample_system"
  by (rule has_room_new) (simp_all add: sample_env_def sample_records_def sample_system_def segment_at_def)

lemma raw_state_shape: "state_shape raw_state"
  by (simp add: state_shape_def raw_state_def)

lemma sample_started:
  obtains qb where "reachable sample_env sample_files sample_records
    (sample_system\<lparr>sys_process := Some qb, sys_segment := segment_of qb\<rparr>)"
proof -
  obtain ins where "reserve 18874368 empty_set_table INSERTED_TABLE_RESERVED_SIZE = Inr ins"
    using reserve_empty [of 18874368] by (auto simp: INSERTED_TABLE_RESERVED_SIZE_def)
  then obtain qb where "QueryBuilder 18874368 (Some raw_state) sample_open (\<lambda>_. segment_at 0 0) sample_task = Inr qb"
    using QueryBuilder_spec [OF sample_opened raw_state_shape, of 18874368 "\<lambda>_. segment_at 0 0" sample_records]
      sample_resumable [of 0 0 sample_records] sample_feeds
    by (auto split: sum.splits)
  then have "step sample_env sample_system (sample_system\<lparr>sys_process := Some qb, sys_segment := segment_of qb\<rparr>)"
    by (intro start [OF _ raw_state_shape]) (simp_all add: sample_system_def sample_env_def)
  then show ?thesis
    using that next_step [OF init [OF sample_initial]] by blast
qed

section \<open>Properties\<close>

text \<open>
  (C28) The texts of statements are unambiguous: a reader recovers the query, and with it the
  records, from any statement the builder makes of names and values without quotes and
  backslashes, for a table with a key and a column outside it.
\<close>

theorem statement_texts_unambiguous:
  assumes "keyed names um" and "plain_names tbl names" and "plain_query names q"
  shows "\<exists>u. query_text tbl names um q = Inr u \<and> read_query tbl names um u = q"
  using assms by (rule read_query_text)

theorem statement_texts_unambiguous_witness:
  "\<exists>u. query_text ''t'' [''id'', ''v'', ''u''] 1 (Update [''1'', ''x'', ''7'']) = Inr u \<and>
     read_query ''t'' [''id'', ''v'', ''u''] 1 u = Update [''1'', ''x'', ''7'']"
  by (rule statement_texts_unambiguous [OF sample_keyed])
     (simp_all add: plain_names_def plain_record_def plain_value_def)

text \<open>
  (C1) Crash safety: whatever sequence of starts, statements, commits and crashes, between calls, in
  the constructor or in \<open>next_query\<close> between two records, led to a state,
  the rows of the database are records of the table under their own keys; the statement in flight
  can be executed, so no insert meets a key that is taken; and every record before the committed
  position of the segment has reached the database, so a restart skips nothing.
\<close>

theorem crash_safety:
  assumes "env_ok stamp E fs rs" and "reachable E fs rs s"
  shows "rows_from (env_mask E) rs (sys_rows s) \<and>
    (\<forall>u. sys_asked s = Some u \<longrightarrow> env_exec E u (sys_rows s) \<noteq> None) \<and>
    (\<exists>sent rest. rs = sent @ rest \<and> resumable (env_lim E) (sys_segment s) (env_task E) fs rest \<and>
      (\<forall>r\<in>set sent. reflected stamp (env_mask E) (sys_rows s) r))"
proof -
  have ok: "system_ok stamp E fs rs s" by (rule reachable_ok [OF assms])
  then have "\<exists>sent rest. rs = sent @ rest \<and> resumable (env_lim E) (sys_segment s) (env_task E) fs rest \<and>
      (\<forall>r\<in>set sent. reflected stamp (env_mask E) (sys_rows s) r)"
    unfolding system_ok_def committed_ok_def sent_ok_def by fastforce
  moreover have "\<forall>u. sys_asked s = Some u \<longrightarrow> env_exec E u (sys_rows s) \<noteq> None"
    using flight_executes [OF assms(1) ok] by fastforce
  ultimately show ?thesis using ok by (simp add: system_ok_def)
qed

theorem crash_safety_witness:
  "\<exists>s. reachable sample_env sample_files sample_records s \<and> sys_process s \<noteq> None \<and>
     rows_from 1 sample_records (sys_rows s)"
proof -
  obtain qb where r: "reachable sample_env sample_files sample_records
      (sample_system\<lparr>sys_process := Some qb, sys_segment := segment_of qb\<rparr>)" (is "reachable _ _ _ ?s")
    by (rule sample_started)
  from crash_safety [OF sample_env_ok r] r show ?thesis
    by (intro exI [of _ ?s]) (simp add: sample_env_def sample_task_def)
qed

text \<open>
  (C2) Two sessions suffice: after any history of interrupted processes, two sessions that run to
  the end of the table leave for every key exactly one of its newest records, and no other row.  The
  first may drop the records it has collected at the end; the second finds their keys recorded and
  sends them as updates with conditional inserts.  The only failure is \<open>std::bad_alloc\<close>, and not with
  up to 24 keys in a segment of the program's size.
\<close>

theorem two_sessions_complete:
  assumes "env_ok stamp E fs rs" and "reachable E fs rs s" and "sys_process s = None" and "state_shape raw"
    and "4 * length rs < n"
  shows "case two_sessions E raw n s of
      Inl e \<Rightarrow> e = Throws_Bad_Alloc \<and> \<not> has_room E rs s
    | Inr s2 \<Rightarrow> newest_rows stamp (env_mask E) rs (sys_rows s2)"
  using assms by (rule sessions_complete)

theorem two_sessions_complete_witness:
  "\<exists>s2. two_sessions sample_env raw_state 13 sample_system = Inr s2 \<and>
     newest_rows sample_stamp 1 sample_records (sys_rows s2)"
  using two_sessions_complete [OF sample_env_ok init [OF sample_initial] _ raw_state_shape, of 13] sample_has_room
  by (simp add: sample_system_def sample_records_def sample_env_def sample_task_def split: sum.splits)

text \<open>
  (C8) One session is not enough: from a segment without keys, a session over a table of at most 500
  records whose key hashes are pairwise different leaves the database empty when it ends normally.
  It ends normally unless \<open>std::bad_alloc\<close> is thrown for want of room, and always for up
  to 24 records on a new segment of the program's size.  (A record whose key occurred before would
  end the batch and make \<open>next_query\<close> emit it, which is why the keys are different.)
\<close>

theorem one_session_loses:
  assumes "env_ok stamp E fs rs" and "initial E fs rs s" and "seen s = {}" and "length rs \<le> 500"
    and "distinct (map (key_hash (env_mask E)) rs)" and "rs \<noteq> []" and "state_shape raw" and "0 < n"
  shows "case session E raw n s of
      Inl e \<Rightarrow> e = Throws_Bad_Alloc \<and> \<not> has_room E rs s \<and>
        (seg_inserted (sys_segment s) = None \<and> 18874368 \<le> env_lim E \<longrightarrow> 24 < length rs)
    | Inr s1 \<Rightarrow> sys_finished s1 = 1 \<and> sys_rows s1 = Map.empty \<and> \<not> newest_rows stamp (env_mask E) rs (sys_rows s1)"
proof -
  obtain m where m: "n = Suc m" using assms(8) by (cases n) auto
  have i: "resumable (env_lim E) (sys_segment s) (env_task E) fs rs" "sys_process s = None" "sys_asked s = None"
    "sys_rows s = Map.empty" "sys_finished s = 0"
    using assms(2) by (simp_all add: initial_def)
  have room: "\<not> has_room E rs s \<Longrightarrow> seg_inserted (sys_segment s) = None \<and> 18874368 \<le> env_lim E \<longrightarrow> 24 < length rs"
    using has_room_new [of rs E s] by linarith
  have op: "opened (env_open E) (env_task E) fs" using assms(1) by (simp add: env_ok_def)
  show ?thesis
  proof (cases "QueryBuilder (env_lim E) (Some raw) (env_open E) (\<lambda>_. sys_segment s) (env_task E)")
    case (Inl e)
    then show ?thesis
      using QueryBuilder_spec [OF op assms(7), of "env_lim E" "\<lambda>_. sys_segment s" rs] i(1)
        QueryBuilder_room [OF op assms(7), of "env_lim E" "\<lambda>_. sys_segment s" rs "key_hash (env_mask E) ` set rs"]
        room
      by (auto simp: session_def has_room_def split: sum.splits)
  next
    case (Inr qb)
    let ?a = "start_of (sys_segment s) rs" and ?K = "key_hash (env_mask E) ` set rs"
    have qb: "represents_table (env_lim E) qb ?a" "task_of qb (env_task E)"
      "has_room E rs s \<Longrightarrow> roomy (env_lim E) ?K qb rs"
      using QueryBuilder_spec [OF op assms(7), of "env_lim E" "\<lambda>_. sys_segment s" rs] i(1) Inr
        QueryBuilder_room [OF op assms(7), of "env_lim E" "\<lambda>_. sys_segment s" rs ?K]
      by (auto simp: has_room_def split: sum.splits)
    have "abs_next (qb_unique_mask qb) ?a = (None, ?a\<lparr>seen_keys := seen_keys ?a \<union> ?K, remaining := []\<rparr>)"
      using abs_next_ends [of ?a "qb_unique_mask qb"] assms(3-5) qb(2)
      by (simp add: start_of_def seen_def task_of_def)
    from next_query_step [OF qb(1) this] qb(3)
    consider (oom) "next_query (env_lim E) qb = Inl Throws_Bad_Alloc" "\<not> has_room E rs s"
      | (ok) qb' where "next_query (env_lim E) qb = Inr ([], qb')" by auto
    moreover have "\<not> newest_rows stamp (env_mask E) rs Map.empty"
      using assms(6) by (cases rs) (auto simp: newest_rows_def)
    ultimately show ?thesis
      using i(3-5) Inr m room by cases (simp_all add: session_def)
  qed
qed

theorem one_session_loses_witness:
  "\<exists>s s1. reachable sample_env sample_files [[''3'', ''z'', ''8'']] s \<and>
     session sample_env raw_state 1 s = Inr s1 \<and> sys_finished s1 = 1 \<and> sys_rows s1 = Map.empty"
proof -
  let ?s = "sample_system\<lparr>sys_segment := segment_at 1 0\<rparr>" and ?rs = "[[''3'', ''z'', ''8'']]"
  have rs: "?rs = drop 2 sample_records" by (simp add: sample_records_def)
  have "env_ok sample_stamp sample_env sample_files ?rs"
    using sample_env_ok by (simp add: env_ok_def sample_records_def short_keys_def)
  moreover have i: "initial sample_env sample_files ?rs ?s"
    using sample_resumable [of 1 0 ?rs] sample_feeds(2) set_drop_subset [of 2 sample_records] unfolding rs
    by (simp add: initial_def sample_env_def sample_system_def)
  moreover have "seen ?s = {}" by (simp add: seen_def)
  moreover have "has_room sample_env ?rs ?s"
    by (rule has_room_new) (simp_all add: sample_env_def segment_at_def)
  ultimately obtain s1 where "session sample_env raw_state 1 ?s = Inr s1" "sys_finished s1 = 1" "sys_rows s1 = Map.empty"
    using one_session_loses [of sample_stamp sample_env sample_files ?rs ?s raw_state 1] raw_state_shape
    by (auto split: sum.splits)
  with init [OF i] show ?thesis by blast
qed

end
