(* ===== verification/Whole_Program.thy ===== *)
theory Whole_Program
  imports Crash_Recovery
begin

text \<open>
  From the files of the data path to the rows of the database: the tables that
  \<open>extract_table_tasks\<close> finds and \<open>parse_ddl\<close> reads, handed to query builders whose readers open
  the CSV files of the same file system.
\<close>

section \<open>Opening files and fresh segments\<close>

text \<open>\<open>fopen(path, "rb")\<close> on the file system the tasks were found in.\<close>

definition fopen_in :: "file_system \<Rightarrow> string \<Rightarrow> c_file option" where
  "fopen_in fs p = map_option (\<lambda>s. \<lparr>f_contents = s, f_pos = 0\<rparr>) (fs_file fs p)"

text \<open>The system before the first process works on a table.\<close>

definition fresh_system :: system where
  "fresh_system =
     \<lparr>sys_process = None,
      sys_segment = \<lparr>seg_inserted = None, seg_committed_handle_idx = None, seg_committed_offset = None\<rparr>,
      sys_asked = None, sys_rows = Map.empty, sys_finished = 0\<rparr>"

text \<open>The environment of a task: a segment limit, the files, and a server.\<close>

definition work_on :: "nat \<Rightarrow> file_system \<Rightarrow> TableTask \<Rightarrow> (string \<Rightarrow> database \<Rightarrow> database option) \<Rightarrow> environment" where
  "work_on lim fs t exec = \<lparr>env_lim = lim, env_open = fopen_in fs, env_task = t, env_exec = exec\<rparr>"

lemma work_on_simps [simp]:
  "env_lim (work_on lim fs t exec) = lim" "env_open (work_on lim fs t exec) = fopen_in fs"
  "env_task (work_on lim fs t exec) = t" "env_exec (work_on lim fs t exec) = exec"
  by (simp_all add: work_on_def)

section \<open>What a table has to be like\<close>

text \<open>A CREATE TABLE text with a key that does not contain \<open>updated_at\<close>, the last column.\<close>

definition merge_ddl :: "string \<Rightarrow> ddl_def list \<Rightarrow> bool" where
  "merge_ddl pre defs \<longleftrightarrow>
     plain_ddl pre defs \<and> fst (last (columns defs)) = ''`updated_at`'' \<and>
     ''`updated_at`'' \<notin> set (key_columns defs) \<and> 2 \<le> length (columns defs)"

text \<open>
  The CSV files of a table, one per source, as lists of raw records, and the records as they are
  after normalisation of their float columns.  A source other than the first must not be empty.
\<close>

definition csv_records :: "file_system \<Rightarrow> TableTask \<Rightarrow> string list list list \<Rightarrow> string list list \<Rightarrow> bool" where
  "csv_records fs t rawss rs \<longleftrightarrow>
     map (fs_file fs) (csvs t) = map (\<lambda>raws. Some (csv_text raws)) rawss \<and> rawss \<noteq> [] \<and> length rawss \<le> 255 \<and>
     (\<forall>raws\<in>set (tl rawss). raws \<noteq> []) \<and>
     (\<forall>raw\<in>set (concat rawss). raw_ok (length (field_names (ddl_info t))) raw) \<and>
     map (norm_fields (float_mask (ddl_info t)) 0) (concat rawss) = map Inr rs \<and>
     (\<forall>r\<in>set rs. plain_record r) \<and> short_keys (unique_mask (ddl_info t)) rs"

lemma merge_ddl_keyed:
  assumes "merge_ddl pre defs" and "parse_ddl (print_ddl pre defs post) = Inr info"
  shows "keyed (field_names info) (unique_mask info)" and "field_names info = map fst (columns defs)"
proof -
  let ?cs = "columns defs" and ?ks = "key_columns defs"
  have d: "plain_ddl pre defs" "fst (last ?cs) = ''`updated_at`''" "''`updated_at`'' \<notin> set ?ks" "2 \<le> length ?cs"
    using assms(1) by (auto simp: merge_ddl_def)
  from parse_ddl_print [OF d(1,2), of post] assms(2)
  have n: "field_names info = map fst ?cs" and bits: "\<forall>i<16. bit (unique_mask info) i \<longleftrightarrow>
       (if ?ks = [] then i < length ?cs - 1 else i < length ?cs \<and> fst (?cs ! i) \<in> set ?ks)"
    by auto
  have len: "length ?cs \<le> 16" "?cs \<noteq> []" using d(1) by (auto simp: plain_ddl_def)
  have "\<exists>i<length ?cs. bit (unique_mask info) i"
  proof (cases "?ks = []")
    case True
    then show ?thesis using bits len d(4) by (intro exI [of _ 0]) auto
  next
    case False
    then obtain k where "k \<in> set ?ks" by (cases ?ks) auto
    moreover have "set ?ks \<subseteq> fst ` set ?cs"
      using key_columns_declared [of "{}" defs] d(1) by (auto simp: plain_ddl_def)
    ultimately obtain i where "i < length ?cs" "fst (?cs ! i) = k" by (metis imageE in_set_conv_nth subsetD)
    then show ?thesis using bits len False \<open>k \<in> set ?ks\<close> by (intro exI [of _ i]) auto
  qed
  moreover have "\<not> bit (unique_mask info) (length ?cs - 1)"
    using bits len d(2,3) by (auto simp: last_conv_nth split: if_splits)
  then have "\<exists>i<length ?cs. \<not> bit (unique_mask info) i" using d(4) by (intro exI [of _ "length ?cs - 1"]) auto
  ultimately show "keyed (field_names info) (unique_mask info)" using len(1) n by (simp add: keyed_def)
  show "field_names info = map fst ?cs" by (rule n)
qed

lemma later_concat: "\<forall>raws\<in>set rawss. raws \<noteq> [] \<Longrightarrow> later (map csv_text rawss) (concat rawss)"
proof (induction rawss)
  case (Cons raws rawss)
  then have "raws \<noteq> []" "later (map csv_text rawss) (concat rawss)" by simp_all
  then show ?case
    unfolding list.map later.simps by (intro exI [of _ raws] exI [of _ "concat rawss"]) simp
qed simp

lemma csv_records_fed:
  assumes "csv_records fs t rawss rs"
  shows "feeds_at (float_mask (ddl_info t)) (length (field_names (ddl_info t))) (map csv_text rawss) 0 0 rs"
proof -
  obtain raws rest where r: "rawss = raws # rest" using assms by (cases rawss) (auto simp: csv_records_def)
  have "later (map csv_text rest) (concat rest)"
    using assms by (intro later_concat) (simp add: csv_records_def r)
  then have "yields (map csv_text rawss) (concat rawss)"
    unfolding r list.map yields.simps by (intro exI [of _ raws] exI [of _ "concat rest"]) simp
  moreover have "texts_at (map csv_text rawss) 0 0 = map csv_text rawss" by (simp add: texts_at_def r)
  ultimately show ?thesis
    using assms unfolding feeds_at_def csv_records_def by (intro conjI exI [of _ "concat rawss"]) simp_all
qed

lemma csv_records_opened:
  assumes "csv_records fs t rawss rs"
  shows "opened (fopen_in fs) t (map csv_text rawss)"
proof -
  have "map (fs_file fs) (csvs t) = map (\<lambda>raws. Some (csv_text raws)) rawss"
    using assms by (simp add: csv_records_def)
  then have "map (map_option (\<lambda>s. \<lparr>f_contents = s, f_pos = 0\<rparr>)) (map (fs_file fs) (csvs t)) =
      map (map_option (\<lambda>s. \<lparr>f_contents = s, f_pos = 0\<rparr>)) (map (\<lambda>raws. Some (csv_text raws)) rawss)"
    by simp
  moreover have "fopen_in fs = (\<lambda>p. map_option (\<lambda>s. \<lparr>f_contents = s, f_pos = 0\<rparr>) (fs_file fs p))"
    by (simp add: fun_eq_iff fopen_in_def)
  ultimately show ?thesis by (simp add: opened_def comp_def)
qed

lemma csv_records_lengths:
  assumes "csv_records fs t rawss rs"
  shows "\<forall>r\<in>set rs. length r = length (field_names (ddl_info t))"
proof
  fix r assume "r \<in> set rs"
  moreover have "map (norm_fields (float_mask (ddl_info t)) 0) (concat rawss) = map Inr rs"
    using assms by (simp add: csv_records_def)
  ultimately have "Inr r \<in> norm_fields (float_mask (ddl_info t)) 0 ` set (concat rawss)"
    by (metis image_eqI list.set_map)
  then obtain raw where "raw \<in> set (concat rawss)" "norm_fields (float_mask (ddl_info t)) 0 raw = Inr r"
    by (metis imageE)
  then show "length r = length (field_names (ddl_info t))"
    using norm_fields_length assms by (auto simp: csv_records_def raw_ok_def)
qed

text \<open>The tasks of the program are tables the crash-safe system can start on.\<close>

lemma extracted_tasks:
  assumes "extract_table_tasks fs path = Inr ts" and "t \<in> set ts"
  shows "parse_ddl (table_ddl t) = Inr (ddl_info t)"
proof -
  from assms(1) have "db_tasks fs (source_dirs fs path) (hd (source_dirs fs path))
      (list_dir fs (hd (source_dirs fs path))) = Inr ts"
    by (auto simp: extract_table_tasks_def source_dirs_def Let_def rbind_Inr_iff at_Inr_iff hd_conv_nth)
  from db_tasks_Inr [OF this] have "good_task fs (source_dirs fs path) (hd (source_dirs fs path)) t"
    using assms(2) by blast
  then show ?thesis unfolding good_task_def by blast
qed

lemma task_ready:
  assumes "parse_ddl (table_ddl t) = Inr (ddl_info t)" and "table_ddl t = print_ddl pre defs post"
    and "merge_ddl pre defs" and "csv_records fs t rawss rs"
    and "speaks_sql stamp (table t) (field_names (ddl_info t)) (unique_mask (ddl_info t)) exec"
    and "lim \<le> 2 ^ 62"
  shows "env_ok stamp (work_on lim fs t exec) (map csv_text rawss) rs"
    and "initial (work_on lim fs t exec) (map csv_text rawss) rs fresh_system"
proof -
  have k: "keyed (field_names (ddl_info t)) (unique_mask (ddl_info t))"
    using merge_ddl_keyed [OF assms(3)] assms(1,2) by metis
  show "env_ok stamp (work_on lim fs t exec) (map csv_text rawss) rs"
    using csv_records_opened [OF assms(4)] csv_records_lengths [OF assms(4)] assms(4,5)
    by (simp add: env_ok_def csv_records_def)
  show "initial (work_on lim fs t exec) (map csv_text rawss) rs fresh_system"
    using csv_records_fed [OF assms(4)] assms(4,6) k
    by (simp add: initial_def fresh_system_def resumable_def stored_keys_def stored_handle_def stored_offset_def
        csv_records_def set_ok_def table_ok_def)
qed

text \<open>What \<open>main2\<close> hands to the cores are extracted tasks.\<close>

lemma main2_tasks:
  assumes "main2 fs argv = Inr cores" and "t \<in> set (concat cores)"
  shows "parse_ddl (table_ddl t) = Inr (ddl_info t)"
proof -
  from assms(1) obtain path ts where e: "extract_table_tasks fs path = Inr ts" "distribute_tasks ts NUM_CPU_CORES = Inr cores"
    by (auto simp: main2_def rbind_Inr_iff split: option.splits)
  then have "cores = map (\<lambda>c. share 4 c ts) [0..<4]"
    using distribute_tasks_eq [of 4 ts] by (simp add: NUM_CPU_CORES_def)
  then have "mset (concat cores) = mset ts"
    using mset_shares [of 4 ts] by (simp only: mset_concat map_map comp_def sum_list_upt)
  then have "set (concat cores) = set ts" by (metis set_mset_mset)
  then show ?thesis using extracted_tasks [OF e(1)] assms(2) by simp
qed

section \<open>A sample data path\<close>

definition merge_defs :: "ddl_def list" where
  "merge_defs = [Column ''`id`'' ''int'' [], Column ''`updated_at`'' ''datetime'' []]"

definition merge_fs :: file_system where
  "merge_fs =
     \<lparr>fs_dir = (\<lambda>p. if p = ''/d'' then Some [''.'', ''..'', ''src_a'', ''src_b'']
        else if p = ''/d/src_a/'' then Some [''a'']
        else if p = ''/d/src_a/a/'' then Some [''1.csv'', ''1.sql''] else None),
      fs_file = (\<lambda>p. if p = ''/d/src_a/a/1.sql'' then Some (print_ddl ''t '' merge_defs [])
        else if p = ''/d/src_a/a/1.csv'' then Some (csv_text [[''1'', ''7''], [''2'', ''7'']])
        else if p = ''/d/src_b/a/1.csv'' then Some (csv_text [[''1'', ''9'']]) else None)\<rparr>"

definition merge_task :: TableTask where
  "merge_task =
     \<lparr>db = ''a'', table = ''1'', table_ddl = print_ddl ''t '' merge_defs '' '',
      ddl_info = \<lparr>field_names = [''`id`'', ''`updated_at`''], unique_mask = 1, float_mask = 0, double_mask = 0\<rparr>,
      csvs = [''/d/src_a/a/1.csv'', ''/d/src_b/a/1.csv'']\<rparr>"

definition merge_records :: "string list list" where
  "merge_records = [[''1'', ''7''], [''2'', ''7''], [''1'', ''9'']]"

definition merge_argv :: "string list" where
  "merge_argv = [''run'', ''--data_path'', ''/d'', ''--dst_ip'', ''127.0.0.1'', ''--dst_port'', dec 3306,
     ''--dst_user'', ''root'', ''--dst_password'', ''123'']"

definition merge_exec :: "string \<Rightarrow> database \<Rightarrow> database option" where
  "merge_exec u = run_query sample_stamp 1 (read_query ''1'' [''`id`'', ''`updated_at`''] 1 u)"

lemma merge_main2: "main2 merge_fs merge_argv = Inr [[merge_task], [], [], []]"
  by code_simp

lemma merge_ddl_ok: "merge_ddl ''t '' merge_defs"
  by (simp add: merge_ddl_def plain_ddl_def merge_defs_def)

lemma merge_csv: "csv_records merge_fs merge_task [[[''1'', ''7''], [''2'', ''7'']], [[''1'', ''9'']]] merge_records"
proof -
  have raw: "raw_ok (Suc (Suc 0)) [[c], [c']]" if "c \<in> {CHR ''1'', CHR ''2''}" "c' \<in> {CHR ''7'', CHR ''9''}" for c c'
    using that by (auto simp: raw_ok_def is_sep_def EOF_char_def) (code_simp+)
  have "raw_ok (Suc (Suc 0)) [''1'', ''7'']" and "raw_ok (Suc (Suc 0)) [''2'', ''7'']" and "raw_ok (Suc (Suc 0)) [''1'', ''9'']"
    by (rule raw; simp)+
  then show ?thesis
    by (simp add: csv_records_def merge_fs_def merge_task_def merge_records_def plain_record_def plain_value_def
        short_keys_def key_bytes_def string_bytes_def)
qed

lemma merge_server:
  "speaks_sql sample_stamp (table merge_task) (field_names (ddl_info merge_task)) (unique_mask (ddl_info merge_task)) merge_exec"
proof -
  have "parse_ddl (print_ddl ''t '' merge_defs '' '') = Inr (ddl_info merge_task)" by code_simp
  from merge_ddl_keyed(1) [OF merge_ddl_ok this] show ?thesis
    unfolding merge_exec_def
    using reading_speaks_sql [of "[''`id`'', ''`updated_at`'']" 1 "''1''" sample_stamp]
    by (simp add: merge_task_def plain_names_def)
qed

section \<open>Properties\<close>

text \<open>
  (C5) From files to rows: for every table \<open>main2\<close> hands to a core, with a key that does not
  contain \<open>updated_at\<close>, whole lines without quotes in its CSV files and a server that understands
  the statements, two sessions from a fresh segment leave in the database exactly one newest record
  of all sources for every key.  They fail only with \<open>std::bad_alloc\<close>, and not on up to 24 records
  in a segment of the program's size.  Every history of sessions and crashes keeps to the records of
  the files.
\<close>

theorem tables_converge:
  assumes "main2 fs argv = Inr cores" and "t \<in> set (concat cores)"
    and "table_ddl t = print_ddl pre defs post" and "merge_ddl pre defs" and "csv_records fs t rawss rs"
    and "speaks_sql stamp (table t) (field_names (ddl_info t)) (unique_mask (ddl_info t)) exec"
    and "lim \<le> 2 ^ 62" and "state_shape raw" and "4 * length rs < n"
  shows "(\<forall>s. reachable (work_on lim fs t exec) (map csv_text rawss) rs s \<longrightarrow>
      rows_from (unique_mask (ddl_info t)) rs (sys_rows s)) \<and>
    (case two_sessions (work_on lim fs t exec) raw n fresh_system of
       Inl e \<Rightarrow> e = Throws_Bad_Alloc \<and> (24 < length rs \<or> lim < 18874368)
     | Inr s2 \<Rightarrow> newest_rows stamp (unique_mask (ddl_info t)) rs (sys_rows s2))"
proof -
  let ?E = "work_on lim fs t exec" and ?fs = "map csv_text rawss"
  note ready = task_ready [OF main2_tasks [OF assms(1,2)] assms(3-7)]
  have "rows_from (unique_mask (ddl_info t)) rs (sys_rows s)" if "reachable ?E ?fs rs s" for s
    using reachable_ok [OF ready(1) that] by (simp add: system_ok_def)
  moreover have "sys_process fresh_system = None" "seg_inserted (sys_segment fresh_system) = None"
    by (simp_all add: fresh_system_def)
  ultimately show ?thesis
    using sessions_complete [OF ready(1) init [OF ready(2)] _ assms(8,9)] has_room_new [of rs ?E fresh_system]
    by (cases "length rs \<le> 24 \<and> 18874368 \<le> lim") (auto split: sum.splits)
qed

theorem tables_converge_witness:
  "\<exists>s2. two_sessions (work_on 18874368 merge_fs merge_task merge_exec) raw_state 13 fresh_system = Inr s2 \<and>
     newest_rows sample_stamp 1 merge_records (sys_rows s2)"
proof -
  have um: "unique_mask (ddl_info merge_task) = 1" and ddl: "table_ddl merge_task = print_ddl ''t '' merge_defs '' ''"
    by (simp_all add: merge_task_def)
  show ?thesis
    using tables_converge [OF merge_main2 _ ddl merge_ddl_ok merge_csv merge_server, of 18874368 raw_state 13] raw_state_shape
    unfolding um by (auto simp: merge_records_def split: sum.splits)
qed

end
