(* ===== verification/Parallel_Tables.thy ===== *)
theory Parallel_Tables
  imports Whole_Program
begin

text \<open>
  All tables at once: threads that work on different tables in any order, each with the segment named
  after its table, and a program that can be killed as a whole.  A segment belongs to one table as
  long as the names do not clash, and then every table goes through a history of its own.
\<close>

section \<open>Names of segments\<close>

lemma mem_id_prefix:
  assumes "CHR ''.'' \<notin> set (db t)" and "CHR ''.'' \<notin> set (db t')" and "mem_id t = mem_id t'"
  shows "db t = db t'" and "table t = table t'"
proof -
  have split: "takeWhile (\<lambda>c. c \<noteq> CHR ''.'') (mem_id t) = db t" if "CHR ''.'' \<notin> set (db t)" for t
  proof -
    have "\<forall>c\<in>set (db t). c \<noteq> CHR ''.''" using that by blast
    then show ?thesis by (simp add: mem_id_def takeWhile_append2)
  qed
  then show "db t = db t'" using assms by metis
  then show "table t = table t'" using assms(3) by (simp add: mem_id_def)
qed

lemma mem_id_inj:
  assumes "\<forall>t\<in>T. CHR ''.'' \<notin> set (db t)" and "inj_on (\<lambda>t. (db t, table t)) T"
  shows "inj_on mem_id T"
proof (rule inj_onI)
  fix t t' assume "t \<in> T" "t' \<in> T" "mem_id t = mem_id t'"
  then show "t = t'" using mem_id_prefix [of t t'] assms by (auto dest: inj_onD)
qed

section \<open>The world\<close>

text \<open>The shared memory by name, and for every table its process, statement, rows and finished sessions.\<close>

record world =
  w_shm :: "string \<Rightarrow> shm_segment"
  w_process :: "TableTask \<Rightarrow> query_builder option"
  w_asked :: "TableTask \<Rightarrow> string option"
  w_rows :: "TableTask \<Rightarrow> database"
  w_finished :: "TableTask \<Rightarrow> nat"

definition view :: "world \<Rightarrow> TableTask \<Rightarrow> system" where
  "view w t =
     \<lparr>sys_process = w_process w t, sys_segment = w_shm w (mem_id t), sys_asked = w_asked w t,
      sys_rows = w_rows w t, sys_finished = w_finished w t\<rparr>"

definition write_back :: "world \<Rightarrow> TableTask \<Rightarrow> system \<Rightarrow> world" where
  "write_back w t s =
     \<lparr>w_shm = (w_shm w)(mem_id t := sys_segment s), w_process = (w_process w)(t := sys_process s),
      w_asked = (w_asked w)(t := sys_asked s), w_rows = (w_rows w)(t := sys_rows s),
      w_finished = (w_finished w)(t := sys_finished s)\<rparr>"

definition fresh_world :: world where
  "fresh_world =
     \<lparr>w_shm = (\<lambda>_. \<lparr>seg_inserted = None, seg_committed_handle_idx = None, seg_committed_offset = None\<rparr>),
      w_process = (\<lambda>_. None), w_asked = (\<lambda>_. None), w_rows = (\<lambda>_. Map.empty), w_finished = (\<lambda>_. 0)\<rparr>"

text \<open>A builder only looks at the segment of its table.\<close>

lemma QueryBuilder_view:
  "QueryBuilder lim a op (w_shm w) t = QueryBuilder lim a op (\<lambda>_. sys_segment (view w t)) t"
  by (simp add: QueryBuilder_def view_def)

inductive world_step :: "(TableTask \<Rightarrow> environment) \<Rightarrow> TableTask set \<Rightarrow> world \<Rightarrow> world \<Rightarrow> bool" for E T where
  work: "t \<in> T \<Longrightarrow> step (E t) (view w t) s \<Longrightarrow> world_step E T w (write_back w t s)"
| killed: "world_step E T w (w\<lparr>w_process := (\<lambda>_. None), w_asked := (\<lambda>_. None)\<rparr>)"

inductive world_reachable :: "(TableTask \<Rightarrow> environment) \<Rightarrow> TableTask set \<Rightarrow> world \<Rightarrow> bool" for E T where
  begun: "world_reachable E T fresh_world"
| goes_on: "world_reachable E T w \<Longrightarrow> world_step E T w w' \<Longrightarrow> world_reachable E T w'"

lemma view_write_back:
  "view (write_back w t s) t = s"
  "mem_id t' \<noteq> mem_id t \<Longrightarrow> view (write_back w t s) t' = view w t'"
  by (auto simp: view_def write_back_def)

lemma view_killed:
  "view (w\<lparr>w_process := (\<lambda>_. None), w_asked := (\<lambda>_. None)\<rparr>) t =
     (view w t)\<lparr>sys_process := None, sys_asked := None\<rparr>"
  by (simp add: view_def)

lemma view_fresh: "view fresh_world t = fresh_system"
  by (simp add: view_def fresh_world_def fresh_system_def)

text \<open>What a table sees of a history of the world is a history of the table.\<close>

lemma view_reachable:
  assumes "world_reachable E T w" and "inj_on mem_id T" and "t \<in> T"
    and "initial (E t) fs rs fresh_system"
  shows "reachable (E t) fs rs (view w t)"
  using assms(1)
proof induction
  case begun
  then show ?case using init [OF assms(4)] by (simp add: view_fresh)
next
  case (goes_on w w')
  from goes_on.hyps(2) show ?case
  proof cases
    case (work u s)
    show ?thesis
    proof (cases "u = t")
      case True
      then show ?thesis using next_step [OF goes_on.IH] work by (simp add: view_write_back(1))
    next
      case False
      then have "mem_id t \<noteq> mem_id u" using assms(2,3) work(2) by (auto dest: inj_onD)
      then show ?thesis using goes_on.IH work(1) by (simp add: view_write_back(2))
    qed
  next
    case killed
    then show ?thesis using next_step [OF goes_on.IH crash] by (simp add: view_killed)
  qed
qed

section \<open>Properties\<close>

text \<open>A table of the data path whose files and statements are as the program expects.\<close>

definition table_ready ::
  "(string \<Rightarrow> 'o::linorder) \<Rightarrow> file_system \<Rightarrow> (TableTask \<Rightarrow> string \<Rightarrow> database \<Rightarrow> database option) \<Rightarrow>
   (TableTask \<Rightarrow> string list list) \<Rightarrow> TableTask \<Rightarrow> bool" where
  "table_ready stamp fs exec recs t \<longleftrightarrow>
     (\<exists>pre defs post rawss. table_ddl t = print_ddl pre defs post \<and> merge_ddl pre defs \<and>
        csv_records fs t rawss (recs t) \<and>
        speaks_sql stamp (table t) (field_names (ddl_info t)) (unique_mask (ddl_info t)) (exec t))"

text \<open>
  (C6) Threads do not interfere: whatever the interleaving of the processes of the tables that
  \<open>main2\<close> assigned, and however often a process or the whole program is killed, the rows of every
  table are records of its own files, its next statement can be executed, and a table that two
  processes have finished holds exactly one newest record for every key.  It takes that the databases
  have no dot in their names, since database and table are joined by a dot to name the segment.
\<close>

theorem parallel_tables_independent:
  assumes "main2 fs argv = Inr cores" and "T = set (concat cores)"
    and "\<forall>t\<in>T. table_ready stamp fs exec recs t"
    and "\<forall>t\<in>T. CHR ''.'' \<notin> set (db t)" and "inj_on (\<lambda>t. (db t, table t)) T"
    and "lim \<le> 2 ^ 62" and "world_reachable (\<lambda>t. work_on lim fs t (exec t)) T w"
  shows "\<forall>t\<in>T. rows_from (unique_mask (ddl_info t)) (recs t) (w_rows w t) \<and>
    (\<forall>u. w_asked w t = Some u \<longrightarrow> exec t u (w_rows w t) \<noteq> None) \<and>
    (2 \<le> w_finished w t \<longrightarrow> newest_rows stamp (unique_mask (ddl_info t)) (recs t) (w_rows w t))"
proof
  fix t assume t: "t \<in> T"
  then obtain pre defs post rawss where d: "table_ddl t = print_ddl pre defs post" "merge_ddl pre defs"
    "csv_records fs t rawss (recs t)"
    "speaks_sql stamp (table t) (field_names (ddl_info t)) (unique_mask (ddl_info t)) (exec t)"
    using assms(3) unfolding table_ready_def by blast
  let ?E = "\<lambda>t. work_on lim fs t (exec t)"
  have "t \<in> set (concat cores)" using t assms(2) by simp
  note ready = task_ready [OF main2_tasks [OF assms(1) this] d assms(6)]
  have r: "reachable (?E t) (map csv_text rawss) (recs t) (view w t)"
    by (rule view_reachable [OF assms(7) mem_id_inj [OF assms(4,5)] t ready(2)])
  have ok: "system_ok stamp (?E t) (map csv_text rawss) (recs t) (view w t)"
    by (rule reachable_ok [OF ready(1) r])
  have "exec t u (w_rows w t) \<noteq> None" if "w_asked w t = Some u" for u
    using flight_executes [OF ready(1) ok, of u] that by (auto simp: view_def)
  moreover have "newest_rows stamp (unique_mask (ddl_info t)) (recs t) (w_rows w t)" if "2 \<le> w_finished w t"
    using finished_twice_newest [OF ready(1) r] that by (simp add: view_def)
  ultimately show "rows_from (unique_mask (ddl_info t)) (recs t) (w_rows w t) \<and>
      (\<forall>u. w_asked w t = Some u \<longrightarrow> exec t u (w_rows w t) \<noteq> None) \<and>
      (2 \<le> w_finished w t \<longrightarrow> newest_rows stamp (unique_mask (ddl_info t)) (recs t) (w_rows w t))"
    using ok by (simp add: system_ok_def view_def)
qed

theorem parallel_tables_independent_witness:
  "\<exists>w qb. world_reachable (\<lambda>t. work_on 18874368 merge_fs t merge_exec) {merge_task} w \<and>
     w_process w merge_task = Some qb \<and> rows_from 1 merge_records (w_rows w merge_task)"
proof -
  let ?E = "\<lambda>t. work_on 18874368 merge_fs t merge_exec"
  have ddl: "table_ddl merge_task = print_ddl ''t '' merge_defs '' ''" and db: "CHR ''.'' \<notin> set (db merge_task)"
    and um: "unique_mask (ddl_info merge_task) = 1" and len: "length merge_records \<le> 24"
    by (simp_all add: merge_task_def merge_records_def)
  have "parse_ddl (table_ddl merge_task) = Inr (ddl_info merge_task)"
    by (rule main2_tasks [OF merge_main2]) simp
  note ready = task_ready [OF this ddl merge_ddl_ok merge_csv merge_server, of 18874368]
  let ?fs = "map csv_text [[[''1'', ''7''], [''2'', ''7'']], [[''1'', ''9'']]]"
  have op: "opened (fopen_in merge_fs) merge_task ?fs"
    and res: "resumable 18874368 (sys_segment fresh_system) merge_task ?fs merge_records"
    using ready unfolding env_ok_def initial_def work_on_simps by simp_all
  have "has_room (?E merge_task) merge_records fresh_system"
    by (rule has_room_new [OF len]) (simp_all add: fresh_system_def)
  then obtain qb where qb: "QueryBuilder 18874368 (Some raw_state) (fopen_in merge_fs)
      (\<lambda>_. sys_segment (view fresh_world merge_task)) merge_task = Inr qb"
    using QueryBuilder_room [OF op raw_state_shape, of 18874368 "\<lambda>_. sys_segment fresh_system" merge_records
        "key_hash (unique_mask (ddl_info merge_task)) ` set merge_records"] res
    unfolding has_room_def view_fresh work_on_simps by blast
  let ?s = "(view fresh_world merge_task)\<lparr>sys_process := Some qb, sys_segment := segment_of qb\<rparr>"
  let ?w = "write_back fresh_world merge_task ?s"
  have "step (?E merge_task) (view fresh_world merge_task) ?s"
    by (rule start [OF _ raw_state_shape]) (use qb in \<open>simp_all add: view_fresh fresh_system_def work_on_def\<close>)
  then have r: "world_reachable ?E {merge_task} ?w"
    by (intro goes_on [OF begun] work) simp_all
  have ready': "table_ready sample_stamp merge_fs (\<lambda>_. merge_exec) (\<lambda>_. merge_records) merge_task"
    unfolding table_ready_def using ddl merge_ddl_ok merge_csv merge_server by blast
  have "\<forall>t\<in>{merge_task}. rows_from (unique_mask (ddl_info t)) merge_records (w_rows ?w t) \<and>
    (\<forall>u. w_asked ?w t = Some u \<longrightarrow> merge_exec u (w_rows ?w t) \<noteq> None) \<and>
    (2 \<le> w_finished ?w t \<longrightarrow> newest_rows sample_stamp (unique_mask (ddl_info t)) merge_records (w_rows ?w t))"
    by (rule parallel_tables_independent [OF merge_main2, where recs = "\<lambda>_. merge_records" and exec = "\<lambda>_. merge_exec"])
       (use ready' db r in simp_all)
  then have "rows_from 1 merge_records (w_rows ?w merge_task)" using um by simp
  moreover have "w_process ?w merge_task = Some qb" by (simp add: write_back_def)
  ultimately show ?thesis using r by blast
qed

end
