(* ===== verification/Xxh3_128.thy ===== *)
theory Xxh3_128
  imports Xxh3_Kernels
begin

text \<open>
  The 128-bit variant of XXH3 of \<^verbatim>\<open>3rd/xxhash/include/xxhash.h\<close>, one-shot and streaming, the
  utilities on 128-bit hashes and the secret generators.  It shares the state, the resets,
  the update and the kernels with the 64-bit variant; only the short inputs and the last
  step differ.
\<close>

section \<open>Short inputs\<close>

definition XXH3_len_1to3_128b :: "bytes \<Rightarrow> nat \<Rightarrow> bytes \<Rightarrow> 64 word \<Rightarrow> XXH128_hash" where
  "XXH3_len_1to3_128b input len secret seed =
     (let c1 = input ! 0; c2 = input ! (len div 2); c3 = input ! (len - 1);
          combinedl = push_bit 16 (ucast c1) OR push_bit 24 (ucast c2) OR
                      push_bit 0 (ucast c3) OR push_bit 8 (of_nat len) :: 32 word;
          combinedh = XXH_rotl32 (XXH_swap32 combinedl) 13;
          bitflipl = ucast (XXH_readLE32 secret XOR XXH_readLE32 (drop 4 secret)) + seed;
          bitfliph = ucast (XXH_readLE32 (drop 8 secret) XOR XXH_readLE32 (drop 12 secret)) - seed;
          keyed_lo = ucast combinedl XOR bitflipl;
          keyed_hi = ucast combinedh XOR bitfliph
      in \<lparr>low64 = XXH64_avalanche keyed_lo, high64 = XXH64_avalanche keyed_hi\<rparr>)"

definition XXH3_len_4to8_128b :: "bytes \<Rightarrow> nat \<Rightarrow> bytes \<Rightarrow> 64 word \<Rightarrow> XXH128_hash" where
  "XXH3_len_4to8_128b input len secret seed =
     (let seed = seed XOR push_bit 32 (ucast (XXH_swap32 (ucast seed)));
          input_lo = XXH_readLE32 input;
          input_hi = XXH_readLE32 (drop (len - 4) input);
          input_64 = ucast input_lo + push_bit 32 (ucast input_hi);
          bitflip = (XXH_readLE64 (drop 16 secret) XOR XXH_readLE64 (drop 24 secret)) + seed;
          keyed = input_64 XOR bitflip;
          m128 = XXH_mult64to128 keyed (XXH_PRIME64_1 + push_bit 2 (of_nat len));
          m128 = m128\<lparr>high64 := high64 m128 + push_bit 1 (low64 m128)\<rparr>;
          m128 = m128\<lparr>low64 := low64 m128 XOR drop_bit 3 (high64 m128)\<rparr>;
          m128 = m128\<lparr>low64 := XXH_xorshift64 (low64 m128) 35\<rparr>;
          m128 = m128\<lparr>low64 := low64 m128 * 0x9FB21C651E98DF25\<rparr>;
          m128 = m128\<lparr>low64 := XXH_xorshift64 (low64 m128) 28\<rparr>
      in m128\<lparr>high64 := XXH3_avalanche (high64 m128)\<rparr>)"

text \<open>
  The step that mixes the high half in, as 32-bit targets and as 64-bit targets compile it.
\<close>

definition high_mix_32 :: "64 word \<Rightarrow> 64 word" where
  "high_mix_32 input_hi =
     (input_hi AND 0xFFFFFFFF00000000) + XXH_mult32to64 (input_hi AND 0xFFFFFFFF) (ucast XXH_PRIME32_2)"

definition high_mix_64 :: "64 word \<Rightarrow> 64 word" where
  "high_mix_64 input_hi =
     input_hi + XXH_mult32to64 (input_hi AND 0xFFFFFFFF) (ucast (XXH_PRIME32_2 - 1))"

definition XXH3_len_9to16_128b :: "(64 word \<Rightarrow> 64 word) \<Rightarrow> bytes \<Rightarrow> nat \<Rightarrow> bytes \<Rightarrow> 64 word \<Rightarrow> XXH128_hash" where
  "XXH3_len_9to16_128b high_mix input len secret seed =
     (let bitflipl = (XXH_readLE64 (drop 32 secret) XOR XXH_readLE64 (drop 40 secret)) - seed;
          bitfliph = (XXH_readLE64 (drop 48 secret) XOR XXH_readLE64 (drop 56 secret)) + seed;
          input_lo = XXH_readLE64 input;
          input_hi = XXH_readLE64 (drop (len - 8) input);
          m128 = XXH_mult64to128 (input_lo XOR input_hi XOR bitflipl) XXH_PRIME64_1;
          m128 = m128\<lparr>low64 := low64 m128 + push_bit 54 (of_nat (len - 1))\<rparr>;
          input_hi = input_hi XOR bitfliph;
          m128 = m128\<lparr>high64 := high64 m128 + high_mix input_hi\<rparr>;
          m128 = m128\<lparr>low64 := low64 m128 XOR XXH_swap64 (high64 m128)\<rparr>;
          h128 = XXH_mult64to128 (low64 m128) XXH_PRIME64_2;
          h128 = h128\<lparr>high64 := high64 h128 + high64 m128 * XXH_PRIME64_2\<rparr>;
          h128 = h128\<lparr>low64 := XXH3_avalanche (low64 h128)\<rparr>
      in h128\<lparr>high64 := XXH3_avalanche (high64 h128)\<rparr>)"

definition XXH3_len_0to16_128b :: "bytes \<Rightarrow> nat \<Rightarrow> bytes \<Rightarrow> 64 word \<Rightarrow> XXH128_hash" where
  "XXH3_len_0to16_128b input len secret seed =
     (if 8 < len then XXH3_len_9to16_128b high_mix_64 input len secret seed
      else if 4 \<le> len then XXH3_len_4to8_128b input len secret seed
      else if len \<noteq> 0 then XXH3_len_1to3_128b input len secret seed
      else
        (let bitflipl = XXH_readLE64 (drop 64 secret) XOR XXH_readLE64 (drop 72 secret);
             bitfliph = XXH_readLE64 (drop 80 secret) XOR XXH_readLE64 (drop 88 secret)
         in \<lparr>low64 = XXH64_avalanche (seed XOR bitflipl), high64 = XXH64_avalanche (seed XOR bitfliph)\<rparr>))"

definition XXH128_mix32B :: "XXH128_hash \<Rightarrow> bytes \<Rightarrow> bytes \<Rightarrow> bytes \<Rightarrow> 64 word \<Rightarrow> XXH128_hash" where
  "XXH128_mix32B acc input_1 input_2 secret seed =
     (let acc = acc\<lparr>low64 := low64 acc + XXH3_mix16B input_1 secret seed\<rparr>;
          acc = acc\<lparr>low64 := low64 acc XOR (XXH_readLE64 input_2 + XXH_readLE64 (drop 8 input_2))\<rparr>;
          acc = acc\<lparr>high64 := high64 acc + XXH3_mix16B input_2 (drop 16 secret) seed\<rparr>
      in acc\<lparr>high64 := high64 acc XOR (XXH_readLE64 input_1 + XXH_readLE64 (drop 8 input_1))\<rparr>)"

text \<open>The last lines of the two functions for inputs of 17 to 240 bytes.\<close>

definition finish_mid :: "XXH128_hash \<Rightarrow> nat \<Rightarrow> 64 word \<Rightarrow> XXH128_hash" where
  "finish_mid acc len seed =
     (let h128 = \<lparr>low64 = low64 acc + high64 acc,
                  high64 = low64 acc * XXH_PRIME64_1 + high64 acc * XXH_PRIME64_4 +
                    (of_nat len - seed) * XXH_PRIME64_2\<rparr>;
          h128 = h128\<lparr>low64 := XXH3_avalanche (low64 h128)\<rparr>
      in h128\<lparr>high64 := 0 - XXH3_avalanche (high64 h128)\<rparr>)"

definition XXH3_len_17to128_128b :: "bytes \<Rightarrow> nat \<Rightarrow> bytes \<Rightarrow> nat \<Rightarrow> 64 word \<Rightarrow> XXH128_hash" where
  "XXH3_len_17to128_128b input len secret secretSize seed =
     (let mix = (\<lambda>i j s acc. XXH128_mix32B acc (drop i input) (drop j input) (drop s secret) seed);
          acc = \<lparr>low64 = of_nat len * XXH_PRIME64_1, high64 = 0\<rparr>;
          acc = (if 32 < len then
                  (let acc = (if 64 < len then
                                (let acc = (if 96 < len then mix 48 (len - 64) 96 acc else acc)
                                 in mix 32 (len - 48) 64 acc)
                              else acc)
                   in mix 16 (len - 32) 32 acc)
                else acc);
          acc = mix 0 (len - 16) 0 acc
      in finish_mid acc len seed)"

definition XXH3_len_129to240_128b :: "bytes \<Rightarrow> nat \<Rightarrow> bytes \<Rightarrow> nat \<Rightarrow> 64 word \<Rightarrow> XXH128_hash" where
  "XXH3_len_129to240_128b input len secret secretSize seed =
     (let mix = (\<lambda>i j s sd acc. XXH128_mix32B acc (drop i input) (drop j input) (drop s secret) sd);
          acc = \<lparr>low64 = of_nat len * XXH_PRIME64_1, high64 = 0\<rparr>;
          nbRounds = len div 32;
          acc = foldl (\<lambda>acc i. mix (32 * i) (32 * i + 16) (32 * i) seed acc) acc [0..<4];
          acc = acc\<lparr>low64 := XXH3_avalanche (low64 acc)\<rparr>;
          acc = acc\<lparr>high64 := XXH3_avalanche (high64 acc)\<rparr>;
          acc = foldl (\<lambda>acc i. mix (32 * i) (32 * i + 16) (XXH3_MIDSIZE_STARTOFFSET + 32 * (i - 4)) seed acc)
                  acc [4..<nbRounds];
          acc = mix (len - 16) (len - 32) (XXH3_SECRET_SIZE_MIN - XXH3_MIDSIZE_LASTOFFSET - 16) (0 - seed) acc
      in finish_mid acc len seed)"

section \<open>Long inputs\<close>

text \<open>What the one-shot function and the digest do with the accumulators.\<close>

definition merge_128 :: "accs \<Rightarrow> bytes \<Rightarrow> nat \<Rightarrow> 64 word \<Rightarrow> XXH128_hash" where
  "merge_128 acc secret secretSize len =
     \<lparr>low64 = XXH3_mergeAccs acc (drop XXH_SECRET_MERGEACCS_START secret) (len * XXH_PRIME64_1),
      high64 = XXH3_mergeAccs acc (drop (secretSize - 64 - XXH_SECRET_MERGEACCS_START) secret)
                 (NOT (len * XXH_PRIME64_2))\<rparr>"

definition XXH3_hashLong_128b_internal ::
  "bytes \<Rightarrow> nat \<Rightarrow> bytes \<Rightarrow> nat \<Rightarrow> f_accumulate \<Rightarrow> f_scrambleAcc \<Rightarrow> XXH128_hash" where
  "XXH3_hashLong_128b_internal input len secret secretSize f_acc512 f_scramble =
     (let acc = XXH3_hashLong_internal_loop XXH3_INIT_ACC input len secret secretSize f_acc512 f_scramble
      in merge_128 acc secret secretSize (of_nat len))"

type_synonym f_hashLong128 = "bytes \<Rightarrow> nat \<Rightarrow> 64 word \<Rightarrow> bytes \<Rightarrow> nat \<Rightarrow> XXH128_hash"

definition XXH3_hashLong_128b_default :: "xxh3_kernel \<Rightarrow> f_hashLong128" where
  "XXH3_hashLong_128b_default K input len seed64 secret secretLen =
     XXH3_hashLong_128b_internal input len XXH3_kSecret XXH_SECRET_DEFAULT_SIZE
       (k_accumulate K) (k_scramble K)"

definition XXH3_hashLong_128b_withSecret :: "xxh3_kernel \<Rightarrow> f_hashLong128" where
  "XXH3_hashLong_128b_withSecret K input len seed64 secret secretLen =
     XXH3_hashLong_128b_internal input len secret secretLen (k_accumulate K) (k_scramble K)"

definition XXH3_hashLong_128b_withSeed_internal ::
  "bytes \<Rightarrow> nat \<Rightarrow> 64 word \<Rightarrow> f_accumulate \<Rightarrow> f_scrambleAcc \<Rightarrow> (bytes \<Rightarrow> 64 word \<Rightarrow> bytes) \<Rightarrow> bytes \<Rightarrow>
   XXH128_hash" where
  "XXH3_hashLong_128b_withSeed_internal input len seed64 f_acc512 f_scramble f_initSec uninit =
     (if seed64 = 0
      then XXH3_hashLong_128b_internal input len XXH3_kSecret XXH_SECRET_DEFAULT_SIZE f_acc512 f_scramble
      else XXH3_hashLong_128b_internal input len (f_initSec uninit seed64) XXH_SECRET_DEFAULT_SIZE
             f_acc512 f_scramble)"

definition XXH3_hashLong_128b_withSeed :: "xxh3_kernel \<Rightarrow> f_hashLong128" where
  "XXH3_hashLong_128b_withSeed K input len seed64 secret secretLen =
     XXH3_hashLong_128b_withSeed_internal input len seed64 (k_accumulate K) (k_scramble K) (k_init K)
       (replicate XXH_SECRET_DEFAULT_SIZE 0)"

definition XXH3_128bits_internal ::
  "bytes \<Rightarrow> nat \<Rightarrow> 64 word \<Rightarrow> bytes \<Rightarrow> nat \<Rightarrow> f_hashLong128 \<Rightarrow> XXH128_hash" where
  "XXH3_128bits_internal input len seed64 secret secretLen f_hl128 =
     (if len \<le> 16 then XXH3_len_0to16_128b input len secret seed64
      else if len \<le> 128 then XXH3_len_17to128_128b input len secret secretLen seed64
      else if len \<le> XXH3_MIDSIZE_MAX then XXH3_len_129to240_128b input len secret secretLen seed64
      else f_hl128 input len seed64 secret secretLen)"

definition XXH3_128bits :: "xxh3_kernel \<Rightarrow> bytes \<Rightarrow> nat \<Rightarrow> XXH128_hash" where
  "XXH3_128bits K input len =
     XXH3_128bits_internal input len 0 XXH3_kSecret XXH_SECRET_DEFAULT_SIZE (XXH3_hashLong_128b_default K)"

definition XXH3_128bits_withSecret :: "xxh3_kernel \<Rightarrow> bytes \<Rightarrow> nat \<Rightarrow> bytes \<Rightarrow> nat \<Rightarrow> XXH128_hash" where
  "XXH3_128bits_withSecret K input len secret secretSize =
     XXH3_128bits_internal input len 0 secret secretSize (XXH3_hashLong_128b_withSecret K)"

definition XXH3_128bits_withSeed :: "xxh3_kernel \<Rightarrow> bytes \<Rightarrow> nat \<Rightarrow> 64 word \<Rightarrow> XXH128_hash" where
  "XXH3_128bits_withSeed K input len seed =
     XXH3_128bits_internal input len seed XXH3_kSecret XXH_SECRET_DEFAULT_SIZE (XXH3_hashLong_128b_withSeed K)"

text \<open>As for 64 bits, the null function pointer is not called: \<open>len\<close> is small.\<close>

definition XXH3_128bits_withSecretandSeed ::
  "xxh3_kernel \<Rightarrow> bytes \<Rightarrow> nat \<Rightarrow> bytes \<Rightarrow> nat \<Rightarrow> 64 word \<Rightarrow> XXH128_hash" where
  "XXH3_128bits_withSecretandSeed K input len secret secretSize seed =
     (if len \<le> XXH3_MIDSIZE_MAX
      then XXH3_128bits_internal input len seed XXH3_kSecret XXH_SECRET_DEFAULT_SIZE undefined
      else XXH3_hashLong_128b_withSecret K input len seed secret secretSize)"

definition XXH128 :: "xxh3_kernel \<Rightarrow> bytes \<Rightarrow> nat \<Rightarrow> 64 word \<Rightarrow> XXH128_hash" where
  "XXH128 K input len seed = XXH3_128bits_withSeed K input len seed"

section \<open>Streaming\<close>

definition XXH3_128bits_reset :: "XXH3_state option \<Rightarrow> reset_result" where
  "XXH3_128bits_reset statePtr = XXH3_64bits_reset statePtr"

definition XXH3_128bits_reset_withSecret :: "XXH3_state option \<Rightarrow> bytes option \<Rightarrow> nat \<Rightarrow> reset_result" where
  "XXH3_128bits_reset_withSecret statePtr secret secretSize =
     XXH3_64bits_reset_withSecret statePtr secret secretSize"

definition XXH3_128bits_reset_withSeed :: "xxh3_kernel \<Rightarrow> XXH3_state option \<Rightarrow> 64 word \<Rightarrow> reset_result" where
  "XXH3_128bits_reset_withSeed K statePtr seed = XXH3_64bits_reset_withSeed K statePtr seed"

definition XXH3_128bits_reset_withSecretandSeed ::
  "XXH3_state option \<Rightarrow> bytes option \<Rightarrow> nat \<Rightarrow> 64 word \<Rightarrow> reset_result" where
  "XXH3_128bits_reset_withSecretandSeed statePtr secret secretSize seed =
     XXH3_64bits_reset_withSecretandSeed statePtr secret secretSize seed"

definition XXH3_128bits_update ::
  "xxh3_kernel \<Rightarrow> XXH3_state \<Rightarrow> bytes option \<Rightarrow> nat \<Rightarrow> XXH_errorcode \<times> XXH3_state" where
  "XXH3_128bits_update K state input len =
     XXH3_update state input len (k_accumulate K) (k_scramble K)"

text \<open>Unlike the 64-bit digest, this one decides by the seed itself, not by \<open>useSeed\<close>.\<close>

definition XXH3_128bits_digest :: "xxh3_kernel \<Rightarrow> XXH3_state \<Rightarrow> XXH128_hash" where
  "XXH3_128bits_digest K state =
     (let secret = st_secret state in
      if 240 < st_totalLen state
      then merge_128 (XXH3_digest_long K state secret) secret (st_secretLimit state + XXH_STRIPE_LEN)
             (st_totalLen state)
      else if st_seed state \<noteq> 0
      then XXH3_128bits_withSeed K (st_buffer state) (unat (st_totalLen state)) (st_seed state)
      else XXH3_128bits_withSecret K (st_buffer state) (unat (st_totalLen state)) secret
             (st_secretLimit state + XXH_STRIPE_LEN))"

section \<open>Utilities and secret generators\<close>

text \<open>\<open>memcmp\<close> over two hashes: they have no padding, so it compares the two halves.\<close>

definition XXH128_isEqual :: "XXH128_hash \<Rightarrow> XXH128_hash \<Rightarrow> bool" where
  "XXH128_isEqual h1 h2 \<longleftrightarrow> low64 h1 = low64 h2 \<and> high64 h1 = high64 h2"

definition less_int :: "64 word \<Rightarrow> 64 word \<Rightarrow> int" where
  "less_int a b = (if b < a then 1 else 0) - (if a < b then 1 else 0)"

definition XXH128_cmp :: "XXH128_hash \<Rightarrow> XXH128_hash \<Rightarrow> int" where
  "XXH128_cmp h1 h2 =
     (let hcmp = less_int (high64 h1) (high64 h2)
      in if hcmp \<noteq> 0 then hcmp else less_int (low64 h1) (low64 h2))"

definition XXH128_canonicalFromHash :: "bool \<Rightarrow> XXH128_hash \<Rightarrow> bytes" where
  "XXH128_canonicalFromHash little_endian hash =
     XXH64_canonicalFromHash little_endian (high64 hash) @ XXH64_canonicalFromHash little_endian (low64 hash)"

definition XXH128_hashFromCanonical :: "bytes \<Rightarrow> XXH128_hash" where
  "XXH128_hashFromCanonical src = \<lparr>low64 = XXH_readBE64 (drop 8 src), high64 = XXH_readBE64 src\<rparr>"

definition XXH3_combine16 :: "nat \<Rightarrow> XXH128_hash \<Rightarrow> bytes \<Rightarrow> bytes" where
  "XXH3_combine16 off h128 dst =
     (let dst = XXH_writeLE64 off (XXH_readLE64 (drop off dst) XOR low64 h128) dst
      in XXH_writeLE64 (off + 8) (XXH_readLE64 (drop (off + 8) dst) XOR high64 h128) dst)"

text \<open>The loop that fills the buffer with copies of the seed; the seed is not empty.\<close>

function fill_secret :: "nat \<Rightarrow> nat \<Rightarrow> bytes \<Rightarrow> nat \<Rightarrow> bytes \<Rightarrow> bytes" where
  "fill_secret pos secretSize customSeed customSeedSize buf =
     (if pos < secretSize \<and> 0 < customSeedSize
      then let toCopy = min (secretSize - pos) customSeedSize
           in fill_secret (pos + toCopy) secretSize customSeed customSeedSize
                (memcpy_at pos (take toCopy customSeed) buf)
      else buf)"
  by pat_completeness auto
termination
  by (relation "measure (\<lambda>(pos, secretSize, _). secretSize - pos)") auto

declare fill_secret.simps [simp del]

definition XXH3_generateSecret ::
  "xxh3_kernel \<Rightarrow> bool \<Rightarrow> bytes option \<Rightarrow> nat \<Rightarrow> bytes option \<Rightarrow> nat \<Rightarrow> XXH_errorcode \<times> bytes option" where
  "XXH3_generateSecret K little_endian secretBuffer secretSize customSeed customSeedSize =
     (case secretBuffer of
        None \<Rightarrow> (XXH_ERROR, None)
      | Some buf \<Rightarrow>
          if secretSize < XXH3_SECRET_SIZE_MIN then (XXH_ERROR, Some buf)
          else
            (case (if customSeedSize = 0 then (Some XXH3_kSecret, XXH_SECRET_DEFAULT_SIZE)
                   else (customSeed, customSeedSize)) of
               (None, _) \<Rightarrow> (XXH_ERROR, Some buf)
             | (Some customSeed, customSeedSize) \<Rightarrow>
                 (let buf = fill_secret 0 secretSize customSeed customSeedSize buf;
                      nbSeg16 = secretSize div 16;
                      scrambler = XXH128_canonicalFromHash little_endian (XXH128 K customSeed customSeedSize 0);
                      buf = foldl (\<lambda>buf n. XXH3_combine16 (n * 16) (XXH128 K scrambler 16 (of_nat n)) buf)
                              buf [0..<nbSeg16]
                  in (XXH_OK, Some (XXH3_combine16 (secretSize - 16) (XXH128_hashFromCanonical scrambler) buf)))))"

definition XXH3_generateSecret_fromSeed :: "xxh3_kernel \<Rightarrow> bytes \<Rightarrow> bytes \<Rightarrow> 64 word \<Rightarrow> bytes" where
  "XXH3_generateSecret_fromSeed K uninit secretBuffer seed =
     memcpy_at 0 (take XXH_SECRET_DEFAULT_SIZE (k_init K uninit seed)) secretBuffer"

section \<open>Short inputs are read within their length\<close>

lemma XXH128_mix32B_append:
  "i + 16 \<le> length p \<Longrightarrow> j + 16 \<le> length p \<Longrightarrow>
   XXH128_mix32B acc (drop i (p @ q)) (drop j (p @ q)) s seed = XXH128_mix32B acc (drop i p) (drop j p) s seed"
  using XXH_readLE64_append [of i p q] XXH_readLE64_append [of "i + 8" p q]
    XXH_readLE64_append [of j p q] XXH_readLE64_append [of "j + 8" p q]
    XXH3_mix16B_append [of i p q] XXH3_mix16B_append [of j p q]
  by (simp add: XXH128_mix32B_def add.commute del: drop_append)

lemma XXH3_len_1to3_128b_append:
  "1 \<le> length p \<Longrightarrow> XXH3_len_1to3_128b (p @ q) (length p) s seed = XXH3_len_1to3_128b p (length p) s seed"
  by (auto simp: XXH3_len_1to3_128b_def nth_append)

lemma XXH3_len_4to8_128b_append:
  "4 \<le> length p \<Longrightarrow> XXH3_len_4to8_128b (p @ q) (length p) s seed = XXH3_len_4to8_128b p (length p) s seed"
  using XXH_readLE32_append [of 0 p q] XXH_readLE32_append [of "length p - 4" p q]
  by (simp add: XXH3_len_4to8_128b_def del: drop_append)

lemma XXH3_len_9to16_128b_append:
  "8 \<le> length p \<Longrightarrow>
   XXH3_len_9to16_128b hm (p @ q) (length p) s seed = XXH3_len_9to16_128b hm p (length p) s seed"
  using XXH_readLE64_append [of 0 p q] XXH_readLE64_append [of "length p - 8" p q]
  by (simp add: XXH3_len_9to16_128b_def del: drop_append)

lemma XXH3_len_0to16_128b_append:
  "XXH3_len_0to16_128b (p @ q) (length p) s seed = XXH3_len_0to16_128b p (length p) s seed"
proof -
  consider "8 < length p" | "4 \<le> length p" "length p \<le> 8" | "1 \<le> length p" "length p < 4" | "p = []"
    by (cases p) (auto, linarith)
  then show ?thesis
    by cases (simp_all add: XXH3_len_0to16_128b_def XXH3_len_9to16_128b_append
        XXH3_len_4to8_128b_append XXH3_len_1to3_128b_append)
qed

lemma XXH3_len_17to128_128b_append:
  assumes "17 \<le> length p"
  shows "XXH3_len_17to128_128b (p @ q) (length p) s n seed = XXH3_len_17to128_128b p (length p) s n seed"
proof -
  note m = XXH128_mix32B_append [of _ p _ _ q]
  have m0: "XXH128_mix32B acc (p @ q) (drop j (p @ q)) t seed = XXH128_mix32B acc p (drop j p) t seed"
    if "j + 16 \<le> length p" for acc j t using m [of 0 j acc t seed] assms that by simp
  show ?thesis using assms
    by (simp add: XXH3_len_17to128_128b_def Let_def m m0 del: drop_append)
qed

lemma XXH3_len_129to240_128b_append:
  assumes "129 \<le> length p"
  shows "XXH3_len_129to240_128b (p @ q) (length p) s n seed = XXH3_len_129to240_128b p (length p) s n seed"
proof -
  note m = XXH128_mix32B_append [of _ p _ _ q]
  have f: "foldl (\<lambda>acc i. XXH128_mix32B acc (drop (32 * i) (p @ q)) (drop (32 * i + 16) (p @ q)) (drop (g i) s) seed)
        a [k..<r] =
      foldl (\<lambda>acc i. XXH128_mix32B acc (drop (32 * i) p) (drop (32 * i + 16) p) (drop (g i) s) seed) a [k..<r]"
    if "32 * r \<le> length p" for a k r g
  proof (rule foldl_cong)
    fix acc i assume "i \<in> set [k..<r]"
    then have "32 * i + 32 \<le> length p" using that by simp
    then show "XXH128_mix32B acc (drop (32 * i) (p @ q)) (drop (32 * i + 16) (p @ q)) (drop (g i) s) seed =
        XXH128_mix32B acc (drop (32 * i) p) (drop (32 * i + 16) p) (drop (g i) s) seed"
      by (intro m) simp_all
  qed simp_all
  have "32 * (length p div 32) \<le> length p" "32 * 4 \<le> length p" using assms by simp_all
  then show ?thesis using assms
    by (simp add: XXH3_len_129to240_128b_def Let_def m f del: drop_append)
qed

lemma XXH3_128bits_internal_append:
  "length p \<le> 240 \<Longrightarrow>
   XXH3_128bits_internal (p @ q) (length p) seed s n f = XXH3_128bits_internal p (length p) seed s n g"
  by (simp add: XXH3_128bits_internal_def XXH3_len_0to16_128b_append XXH3_len_17to128_128b_append
      XXH3_len_129to240_128b_append)

lemma XXH3_128bits_internal_long:
  "240 < len \<Longrightarrow> XXH3_128bits_internal input len seed s n f = f input len seed s n"
  by (simp add: XXH3_128bits_internal_def)

section \<open>The one-shot hash a configuration stands for\<close>

definition XXH3_128_of :: "xxh3_kernel \<Rightarrow> bytes \<Rightarrow> nat \<Rightarrow> 64 word \<Rightarrow> bytes \<Rightarrow> XXH128_hash" where
  "XXH3_128_of K secret secretSize seed data =
     (if 240 < length data
      then merge_128 (long_accs (k_accumulate K) (k_scramble K) secret secretSize XXH3_INIT_ACC data)
             secret secretSize (of_nat (length data))
      else if seed \<noteq> 0 then XXH3_128bits_withSeed K data (length data) seed
      else XXH3_128bits_withSecret K data (length data) secret secretSize)"

context configured_kernel
begin

lemma digest_fed_128:
  assumes fed: "XXH3_fed fa fs secret secretSize seed useSeed s data" and len: "length data < 2 ^ 64"
  shows "XXH3_128bits_digest K s = XXH3_128_of K secret secretSize seed data"
proof -
  from fed obtain k where b: "buffered s k data" and tot: "st_totalLen s = of_nat (length data)"
    and conf: "configured s secret secretSize seed useSeed"
    by (auto simp: XXH3_fed_def)
  have u: "unat (st_totalLen s) = length data" using tot len by simp
  then have big: "(240 < st_totalLen s) = (240 < length data)" by (simp add: word_less_nat_alt)
  have c: "st_secret s = secret" "st_secretLimit s + 64 = secretSize" "st_seed s = seed"
    using conf size by (auto simp: configured_def)
  show ?thesis
  proof (cases "240 < length data")
    case True
    then show ?thesis
      using digest_long_eq [OF fed True size K] big c tot K
      by (simp add: XXH3_128bits_digest_def XXH3_128_of_def)
  next
    case False
    then have "k = 0" using b by (auto simp: buffered_def)
    with b have "take (length data) (st_buffer s) = data" by (simp add: buffered_def)
    then obtain rest where buf: "st_buffer s = data @ rest" by (metis append_take_drop_id)
    have short: "length data \<le> 240" using False by simp
    have "XXH3_128bits_internal (data @ rest) (length data) sd sec n f =
        XXH3_128bits_internal data (length data) sd sec n f" for sd sec n f
      by (rule XXH3_128bits_internal_append [OF short])
    then show ?thesis
      using False big c u
      by (simp add: XXH3_128bits_digest_def XXH3_128_of_def Let_def buf XXH3_128bits_withSeed_def
          XXH3_128bits_withSecret_def)
  qed
qed

lemma hashLong_128:
  assumes "240 < length data"
  shows "XXH3_hashLong_128b_internal (data @ rest) (length data) secret secretSize fa fs =
    XXH3_128_of K secret secretSize seed data"
  using assms internal_loop_eq [OF _ size, of data] K
  by (simp add: XXH3_hashLong_128b_internal_def XXH3_128_of_def)

end

text \<open>The 128-bit digest fits the streaming interface, whatever \<open>useSeed\<close> says.\<close>

sublocale configured_kernel \<subseteq> stream128: streaming_hash
  "XXH3_fed fa fs secret secretSize seed useSeed"
  "\<lambda>s x. snd (XXH3_128bits_update K s (Some x) (length x))"
  "XXH3_128bits_digest K" "XXH3_128_of K secret secretSize seed" "2 ^ 64"
  using K_update_fed
  by unfold_locales (simp_all add: digest_fed_128 XXH3_128bits_update_def XXH3_64bits_update_def)

context configured_kernel
begin

lemma chunks_digest_128:
  "XXH3_fed fa fs secret secretSize seed useSeed s [] \<Longrightarrow> length (concat xs) < 2 ^ 64 \<Longrightarrow>
   XXH3_128bits_digest K (foldl (\<lambda>s x. snd (XXH3_128bits_update K s (Some x) (length x))) s xs) =
   XXH3_128_of K secret secretSize seed (concat xs)"
  by (rule stream128.digest_of_chunks)

end

section \<open>The one-shot functions\<close>

lemma XXH3_128_of_kernel:
  assumes "K \<in> kernels" "K' \<in> kernels"
  shows "XXH3_128_of K secret n seed data = XXH3_128_of K' secret n seed data"
proof -
  have "XXH3_128bits_internal data (length data) sd sec k f = XXH3_128bits_internal data (length data) sd sec k g"
    if "length data \<le> 240" for sd sec k f g
    using that by (simp add: XXH3_128bits_internal_def)
  then have "XXH3_128bits_withSeed K data (length data) seed = XXH3_128bits_withSeed K' data (length data) seed"
    "XXH3_128bits_withSecret K data (length data) secret n = XXH3_128bits_withSecret K' data (length data) secret n"
    if "length data \<le> 240"
    using that by (simp_all add: XXH3_128bits_withSeed_def XXH3_128bits_withSecret_def)
  then show ?thesis
    using long_accs_kernel [OF assms(1)] long_accs_kernel [OF assms(2)] by (simp add: XXH3_128_of_def)
qed

fun one_shot_128_by :: "xxh3_kernel \<Rightarrow> config_kind \<Rightarrow> bytes \<Rightarrow> nat \<Rightarrow> XXH128_hash" where
  "one_shot_128_by K Default p len = XXH3_128bits K p len"
| "one_shot_128_by K (Secret secret n) p len = XXH3_128bits_withSecret K p len secret n"
| "one_shot_128_by K (Seed seed) p len = XXH3_128bits_withSeed K p len seed"
| "one_shot_128_by K (Secret_and_Seed secret n seed) p len =
     XXH3_128bits_withSecretandSeed K p len secret n seed"

fun reset_128_by :: "xxh3_kernel \<Rightarrow> config_kind \<Rightarrow> XXH3_state option \<Rightarrow> reset_result" where
  "reset_128_by K Default s = XXH3_128bits_reset s"
| "reset_128_by K (Secret secret n) s = XXH3_128bits_reset_withSecret s (Some secret) n"
| "reset_128_by K (Seed seed) s = XXH3_128bits_reset_withSeed K s seed"
| "reset_128_by K (Secret_and_Seed secret n seed) s =
     XXH3_128bits_reset_withSecretandSeed s (Some secret) n seed"

lemma reset_128_by_eq: "reset_128_by K c s = reset_by K c s"
  by (cases c) (simp_all add: XXH3_128bits_reset_def XXH3_128bits_reset_withSecret_def
      XXH3_128bits_reset_withSeed_def XXH3_128bits_reset_withSecretandSeed_def)

definition feed_128 :: "xxh3_kernel \<Rightarrow> bytes list \<Rightarrow> XXH3_state \<Rightarrow> XXH3_state" where
  "feed_128 K xs s = foldl (\<lambda>s x. snd (XXH3_128bits_update K s (Some x) (length x))) s xs"

lemma feed_128_eq: "feed_128 K xs s = feed K xs s"
  by (simp add: feed_128_def feed_def XXH3_128bits_update_def XXH3_64bits_update_def)

lemma hashLong_128_kernel:
  assumes "K \<in> kernels" "136 \<le> n" "240 < length data"
  shows "XXH3_hashLong_128b_internal (data @ rest) (length data) secret n (k_accumulate K) (k_scramble K) =
    XXH3_128_of K secret n seed data"
  using configured_kernel.hashLong_128 [OF kernel_configured [OF assms(1,2)] assms(3)] by simp

text \<open>
  The configuration whose one-shot function the digest computes: a secret given together with the
  seed 0 counts as a secret alone, because the digest looks at the seed instead of \<open>useSeed\<close>.
\<close>

fun digested_as :: "config_kind \<Rightarrow> config_kind" where
  "digested_as (Secret_and_Seed secret n seed) = (if seed = 0 then Secret secret n else Secret_and_Seed secret n seed)"
| "digested_as c = c"

lemma one_shot_128_by_eq:
  assumes K: "K \<in> kernels" and c: "config_secret c = (secret, n, seed, u)" and n: "136 \<le> n"
  shows "one_shot_128_by K (digested_as c) (data @ rest) (length data) = XXH3_128_of K secret n seed data"
proof (cases "240 < length data")
  case True
  note h = hashLong_128_kernel [OF K _ True]
  show ?thesis
    using h [of n rest secret seed] n c True h [of 192 rest "secret_lanes seed 0 24" seed] h [of 192 rest XXH3_kSecret 0]
      kernels_lanes(3) [OF K]
    by (cases c)
       (auto simp: XXH3_128bits_def XXH3_128bits_withSecret_def XXH3_128bits_withSeed_def
          XXH3_128bits_withSecretandSeed_def XXH3_128bits_internal_long XXH3_hashLong_128b_default_def
          XXH3_hashLong_128b_withSecret_def XXH3_hashLong_128b_withSeed_def
          XXH3_hashLong_128b_withSeed_internal_def split: if_splits)
next
  case False
  then have short: "length data \<le> 240" by simp
  show ?thesis
    using c False XXH3_128bits_internal_append [OF short]
    by (cases c)
       (auto simp: XXH3_128_of_def XXH3_128bits_def XXH3_128bits_withSecret_def XXH3_128bits_withSeed_def
          XXH3_128bits_withSecretandSeed_def split: if_splits)
qed

lemma streaming_128:
  assumes "usable K s" "K \<in> kernels" "K' \<in> kernels"
    and "reset_128_by K c (Some s) = (XXH_OK, Some t)" "length (concat xs) < 2 ^ 64"
  shows "XXH3_128bits_digest K (feed_128 K xs t) =
    one_shot_128_by K' (digested_as c) (concat xs @ rest) (length (concat xs))"
proof -
  obtain secret n seed u where c: "config_secret c = (secret, n, seed, u)" by (metis prod_cases4)
  from usable_invariant [OF assms(1,2)] have s: "state_shape s" "\<And>seed. secret_current seed s"
    by auto
  note fed = reset_by_fed [OF assms(2) s assms(4) [unfolded reset_128_by_eq] c, of "k_accumulate K" "k_scramble K"]
  have "XXH3_128bits_digest K (feed_128 K xs t) = XXH3_128_of K secret n seed (concat xs)"
    using configured_kernel.chunks_digest_128 [OF kernel_configured [OF assms(2)], of n secret seed u t xs] fed assms(5)
    by (simp add: feed_128_def)
  also have "\<dots> = XXH3_128_of K' secret n seed (concat xs)"
    by (rule XXH3_128_of_kernel [OF assms(2,3)])
  also have "\<dots> = one_shot_128_by K' (digested_as c) (concat xs @ rest) (length (concat xs))"
    using one_shot_128_by_eq [OF assms(3) c] fed by simp
  finally show ?thesis .
qed

lemma XXH128_test_vector:
  "XXH3_128bits scalar_kernel [0x61, 0x62, 0x63] 3 = \<lparr>low64 = 0x78AF5F94892F3950, high64 = 0x06B05AB6733A6185\<rparr>"
  by code_simp

section \<open>The two mixing steps\<close>

lemma high_mix_eq: "high_mix_32 x = high_mix_64 x"
proof -
  let ?A = "0xFFFFFFFF00000000 :: 64 word" and ?B = "0xFFFFFFFF :: 64 word"
  have "(x AND ?A) AND (x AND ?B) = x AND (?A AND ?B)" by (simp only: ac_simps and.left_idem)
  also have "\<dots> = 0" by simp
  finally have "(x AND ?A) + (x AND ?B) = (x AND ?A) OR (x AND ?B)"
    using word_plus_and_or [of "x AND ?A" "x AND ?B"] by simp
  also have "\<dots> = x AND (?A OR ?B)" by (simp only: bit.conj_disj_distrib)
  also have "?A OR ?B = -1" by code_simp
  finally have "x AND ?A = x - (x AND ?B)" by (simp add: eq_diff_eq)
  then have split: "(x AND ?A) + (x AND ?B) = x" by simp
  have p: "(ucast XXH_PRIME32_2 AND ?B :: 64 word) = 0x85EBCA76 + 1"
    "(ucast (XXH_PRIME32_2 - 1) AND ?B :: 64 word) = 0x85EBCA76"
    by (simp_all add: XXH_PRIME32_2_def)
  have "high_mix_32 x = ((x AND ?A) + (x AND ?B)) + (x AND ?B) * 0x85EBCA76"
    by (simp only: high_mix_32_def XXH_mult32to64_def p and.assoc and.idem distrib_left mult_1_right add.assoc add.commute add.left_commute)
  then show ?thesis
    unfolding split by (simp only: high_mix_64_def XXH_mult32to64_def p and.assoc and.idem)
qed

section \<open>Canonical representation and order\<close>

lemma XXH128_canonical_bytes:
  "XXH128_canonicalFromHash le h = rev (le_bytes 8 (high64 h)) @ rev (le_bytes 8 (low64 h))"
  by (simp add: XXH128_canonicalFromHash_def XXH64_canonical_bytes)

lemma XXH128_canonical_inverse: "XXH128_hashFromCanonical (XXH128_canonicalFromHash le h) = h"
  by (simp add: XXH128_canonical_bytes XXH128_hashFromCanonical_def XXH_readBE64_eq le_word_le_bytes)

definition hash_value :: "XXH128_hash \<Rightarrow> int" where
  "hash_value h = 2 ^ 64 * uint (high64 h) + uint (low64 h)"

lemma sgn_pair:
  assumes "0 \<le> (l :: int)" "l < 2 ^ 64" "0 \<le> l'" "l' < 2 ^ 64"
  shows "sgn ((2 ^ 64 * h + l) - (2 ^ 64 * h' + l')) = (if h = h' then sgn (l - l') else sgn (h - h'))"
  using assms by (auto simp: sgn_if)

lemma less_int_sgn: "less_int v w = sgn (uint v - uint w)"
  by (auto simp: less_int_def word_less_def sgn_if)

lemma XXH128_cmp_sgn: "XXH128_cmp h1 h2 = sgn (hash_value h1 - hash_value h2)"
proof -
  have b: "0 \<le> uint w" "uint w < 2 ^ 64" for w :: "64 word"
    using unsigned_greater_eq [of w] unsigned_less [of w] by auto
  show ?thesis
    unfolding hash_value_def sgn_pair [OF b [of "low64 h1"] b [of "low64 h2"]]
    by (simp add: XXH128_cmp_def less_int_sgn Let_def sgn_0_0)
qed

section \<open>Secret generation\<close>

lemma length_XXH_writeLE64 [simp]: "off + 8 \<le> length dst \<Longrightarrow> length (XXH_writeLE64 off v dst) = length dst"
  by (simp add: XXH_writeLE64_def)

lemma length_XXH3_combine16 [simp]: "off + 16 \<le> length dst \<Longrightarrow> length (XXH3_combine16 off h dst) = length dst"
  by (simp add: XXH3_combine16_def Let_def)

lemma fill_secret_overwrites:
  assumes "length b = n" "length b' = n" "pos \<le> n" "take pos b = take pos b'" "0 < k" "k \<le> length seed"
  shows "fill_secret pos n seed k b = fill_secret pos n seed k b' \<and> length (fill_secret pos n seed k b) = n"
  using assms
proof (induction pos n seed k b arbitrary: b' rule: fill_secret.induct)
  case (1 pos n seed k b)
  show ?case
  proof (cases "pos < n")
    case True
    define m where "m = min (n - pos) k"
    have m: "m \<le> length seed" "pos + m \<le> n" "length (take m seed) = m"
      using 1(6,7) True by (auto simp: m_def)
    have "take (pos + m) (memcpy_at pos (take m seed) b) = take (pos + m) (memcpy_at pos (take m seed) b')"
      using take_memcpy_at [of pos b "take m seed"] take_memcpy_at [of pos b' "take m seed"] m 1(2-5) by simp
    moreover have "length (memcpy_at pos (take m seed) b) = n" "length (memcpy_at pos (take m seed) b') = n"
      using m 1(2,3) by simp_all
    ultimately have "fill_secret (pos + m) n seed k (memcpy_at pos (take m seed) b) =
        fill_secret (pos + m) n seed k (memcpy_at pos (take m seed) b') \<and>
        length (fill_secret (pos + m) n seed k (memcpy_at pos (take m seed) b)) = n"
      by (intro 1(1)) (use True m(2) 1(6,7) in \<open>simp_all add: m_def\<close>)
    then have "fill_secret (pos + m) n seed k (memcpy_at pos (take m seed) b) =
        fill_secret (pos + m) n seed k (memcpy_at pos (take m seed) b')"
      "length (fill_secret (pos + m) n seed k (memcpy_at pos (take m seed) b')) = n"
      by auto
    then show ?thesis
      using True 1(6) by (simp add: fill_secret.simps [of pos] Let_def flip: m_def)
  next
    case False
    then have "pos = n" "b = b'" using 1(2-5) by simp_all
    with 1(2) show ?thesis by (simp add: fill_secret.simps [of n n])
  qed
qed

lemma XXH128_kernel:
  assumes "K \<in> kernels" "K' \<in> kernels" "k \<le> length p"
  shows "XXH128 K p k seed = XXH128 K' p k seed"
proof -
  obtain s n sd u where c: "config_secret (Seed seed) = (s, n, sd, u)" "136 \<le> n" by (cases "seed = 0") auto
  have "one_shot_128_by L (Seed seed) (take k p @ drop k p) (length (take k p)) = XXH3_128_of L s n sd (take k p)"
    if "L \<in> kernels" for L using one_shot_128_by_eq [OF that c, of "take k p" "drop k p"] by simp
  from this [OF assms(1)] this [OF assms(2)] show ?thesis
    using XXH3_128_of_kernel [OF assms(1,2), of s n sd "take k p"] assms(3) by (simp add: XXH128_def)
qed

lemma combine_loop_length:
  "16 * m \<le> length b \<Longrightarrow> length (foldl (\<lambda>b i. XXH3_combine16 (i * 16) (h i) b) b [0..<m]) = length b"
  by (induction m) (simp_all add: mult.commute)

lemma generateSecret_result:
  assumes K: "K \<in> kernels" "K' \<in> kernels" and n: "136 \<le> n" "length b = n" "length b' = n"
    and k: "k \<le> length seed"
  shows "\<exists>r. XXH3_generateSecret K le (Some b) n (Some seed) k = (XXH_OK, Some r) \<and> length r = n \<and>
    XXH3_generateSecret K' le' (Some b') n (Some seed) k = (XXH_OK, Some r)"
proof -
  define sd where "sd = (if k = 0 then XXH3_kSecret else seed)"
  define sz where "sz = (if k = 0 then 192 else k)"
  have "length XXH3_kSecret = 192" by (simp add: XXH3_kSecret_def)
  then have sz: "0 < sz" "sz \<le> length sd" using k by (auto simp: sz_def sd_def)
  define sc where "sc = XXH128_canonicalFromHash le (XXH128 K sd sz 0)"
  have sc: "XXH128_canonicalFromHash le' (XXH128 K' sd sz 0) = sc" "length sc = 16"
    using XXH128_kernel [OF K sz(2)] by (simp_all add: sc_def XXH128_canonical_bytes)
  have x: "XXH128 K' sc 16 j = XXH128 K sc 16 j" for j
    by (rule XXH128_kernel [OF K(2,1)]) (simp add: sc(2))
  have "fill_secret 0 n sd sz b = fill_secret 0 n sd sz b' \<and> length (fill_secret 0 n sd sz b) = n"
    by (rule fill_secret_overwrites [OF n(2,3)]) (use sz in simp_all)
  then have f: "fill_secret 0 n sd sz b = fill_secret 0 n sd sz b'" "length (fill_secret 0 n sd sz b) = n"
    by blast+
  let ?l = "foldl (\<lambda>b i. XXH3_combine16 (i * 16) (XXH128 K sc 16 (of_nat i)) b) (fill_secret 0 n sd sz b) [0..<n div 16]"
  have l: "length ?l = n" using combine_loop_length [of "n div 16" "fill_secret 0 n sd sz b"] f(2) by simp
  let ?r = "XXH3_combine16 (n - 16) (XXH128_hashFromCanonical sc) ?l"
  have "XXH3_generateSecret K le (Some b) n (Some seed) k = (XXH_OK, Some ?r)"
    "XXH3_generateSecret K' le' (Some b') n (Some seed) k = (XXH_OK, Some ?r)"
    using n(1) sc(1) x f(1)
    by (auto simp: XXH3_generateSecret_def sd_def sz_def sc_def Let_def)
  moreover have "length ?r = n" using l n(1) by simp
  ultimately show ?thesis by blast
qed

section \<open>Properties\<close>

text \<open>
  (C38) The streaming 128-bit XXH3 is the one-shot function, after any history of the state, for any
  way of cutting the input and any kernels: for the state configured by default, with a secret, with
  a seed, and with a secret and a seed that is not 0.  Configured with a secret and the seed 0, it is
  the one-shot function of the secret alone, which on short inputs is not the one-shot function
  of the secret and that seed (\<open>XXH128_digest_ignores_useSeed\<close>).
\<close>

theorem XXH128_streaming:
  assumes "usable K s" "K \<in> kernels" "K' \<in> kernels"
    and "reset_128_by K c (Some s) = (XXH_OK, Some t)" "length (concat xs) < 2 ^ 64"
  shows "XXH3_128bits_digest K (feed_128 K xs t) =
    (case c of
       Default \<Rightarrow> XXH3_128bits K' (concat xs @ rest) (length (concat xs))
     | Secret secret n \<Rightarrow> XXH3_128bits_withSecret K' (concat xs @ rest) (length (concat xs)) secret n
     | Seed seed \<Rightarrow> XXH3_128bits_withSeed K' (concat xs @ rest) (length (concat xs)) seed
     | Secret_and_Seed secret n seed \<Rightarrow>
         if seed = 0 then XXH3_128bits_withSecret K' (concat xs @ rest) (length (concat xs)) secret n
         else XXH3_128bits_withSecretandSeed K' (concat xs @ rest) (length (concat xs)) secret n seed)"
  unfolding streaming_128 [OF assms, of rest] by (cases c) simp_all

theorem XXH128_streaming_witness:
  "XXH3_128bits_digest sse2_kernel (feed_128 sse2_kernel [[0x61], [], [0x62, 0x63]]
     (XXH3_reset_internal raw_state 0 (Some XXH3_kSecret) 192)) =
   \<lparr>low64 = 0x78AF5F94892F3950, high64 = 0x06B05AB6733A6185\<rparr>"
  using XXH128_streaming [OF raw_state_usable, of sse2_kernel scalar_kernel Default
      "XXH3_reset_internal raw_state 0 (Some XXH3_kSecret) 192" "[[0x61], [], [0x62, 0x63]]" "[]"]
    XXH128_test_vector
  by (simp add: kernels_def XXH3_128bits_reset_def XXH3_64bits_reset_def numeral_3_eq_3)

text \<open>
  With a secret and the seed 0 the two differ on short inputs: the one-shot function hashes them with
  the built-in secret, the digest with the given one, because it looks at the seed instead of
  \<open>useSeed\<close>.  Here on the empty input and a secret of zeros.
\<close>

theorem XXH128_digest_ignores_useSeed:
  "XXH3_128bits_digest K ((XXH3_reset_internal s 0 (Some (replicate 136 0)) 136)\<lparr>st_useSeed := 1\<rparr>) \<noteq>
   XXH3_128bits_withSecretandSeed K [] 0 (replicate 136 0) 136 0"
proof -
  have "low64 (XXH3_128bits_withSecret K buf 0 (replicate 136 0) 136) = XXH64_avalanche 0" for buf
    by (simp add: XXH3_128bits_withSecret_def XXH3_128bits_internal_def XXH3_len_0to16_128b_def
        XXH_readLE64_eq)
  moreover have "low64 (XXH3_128bits_withSecretandSeed K [] 0 (replicate 136 0) 136 0) =
      low64 (XXH3_len_0to16_128b [] 0 XXH3_kSecret 0)"
    by (simp add: XXH3_128bits_withSecretandSeed_def XXH3_128bits_internal_def)
  moreover have "low64 (XXH3_len_0to16_128b [] 0 XXH3_kSecret 0) \<noteq> XXH64_avalanche 0" by code_simp
  moreover have "XXH3_128bits_digest K ((XXH3_reset_internal s 0 (Some (replicate 136 0)) 136)\<lparr>st_useSeed := 1\<rparr>) =
      XXH3_128bits_withSecret K (st_buffer s) 0 (replicate 136 0) 136"
    by (simp add: XXH3_128bits_digest_def XXH3_reset_internal_def st_secret_def size_sub_def Let_def)
  ultimately show ?thesis by metis
qed

text \<open>
  The secret generator succeeds on a buffer of at least 136 bytes, fills exactly the buffer, and
  what it writes depends neither on what the buffer held, nor on the kernel, nor on the byte
  order of the machine.
\<close>

theorem generateSecret_deterministic:
  assumes "K \<in> kernels" "K' \<in> kernels" and "136 \<le> n" "length b = n" "length b' = n"
    and "k \<le> length seed"
  shows "\<exists>r. XXH3_generateSecret K le (Some b) n (Some seed) k = (XXH_OK, Some r) \<and> length r = n \<and>
    XXH3_generateSecret K' le' (Some b') n (Some seed) k = (XXH_OK, Some r)"
  using assms by (rule generateSecret_result)

theorem generateSecret_deterministic_witness:
  "\<exists>r. XXH3_generateSecret sse2_kernel True (Some (replicate 136 1)) 136 (Some [5, 6]) 2 = (XXH_OK, Some r) \<and>
    length r = 136 \<and>
    XXH3_generateSecret scalar_kernel False (Some (replicate 136 9)) 136 (Some [5, 6]) 2 = (XXH_OK, Some r)"
  by (rule generateSecret_deterministic) (simp_all add: kernels_def)

text \<open>The 32-bit and the 64-bit form of the mixing step of 9 to 16 bytes compute the same.\<close>

theorem XXH3_len_9to16_variants:
  "XXH3_len_9to16_128b high_mix_32 = XXH3_len_9to16_128b high_mix_64"
  using high_mix_eq by (simp add: fun_eq_iff XXH3_len_9to16_128b_def)

text \<open>
  The canonical form of a 128-bit hash reads back, and the comparison orders the hashes as 128-bit
  numbers, with 0 for equal ones.
\<close>

theorem XXH128_utilities:
  "XXH128_hashFromCanonical (XXH128_canonicalFromHash le h) = h \<and>
   XXH128_cmp h1 h2 = sgn (hash_value h1 - hash_value h2) \<and>
   (XXH128_isEqual h1 h2 \<longleftrightarrow> h1 = h2)"
  by (auto simp: XXH128_canonical_inverse XXH128_cmp_sgn XXH128_isEqual_def)

end
