(* ===== verification/Aligned_Memory.thy ===== *)
theory Aligned_Memory
  imports Xxh_Base
begin

text \<open>
  The aligned allocation of XXH3 states (\<open>XXH_alignedMalloc\<close>, \<open>XXH_alignedFree\<close> in \<^verbatim>\<open>xxhash.h\<close>): more is
  allocated than asked for, the pointer is moved up to a multiple of the alignment, and the byte in
  front of it says by how much.  The memory is a function of addresses with the list of the live
  blocks; an access outside them and freeing what is not the start of one are faults.
\<close>

record memory =
  byte_at :: "64 word \<Rightarrow> 8 word"
  live_blocks :: "(64 word \<times> nat) list"

definition in_block :: "64 word \<Rightarrow> 64 word \<times> nat \<Rightarrow> bool" where
  "in_block a = (\<lambda>(b, n). unat b \<le> unat a \<and> unat a < unat b + n)"

definition load :: "memory \<Rightarrow> 64 word \<Rightarrow> 8 word res" where
  "load m a = (if list_ex (in_block a) (live_blocks m) then Inr (byte_at m a) else Inl Out_Of_Bounds)"

definition store :: "memory \<Rightarrow> 64 word \<Rightarrow> 8 word \<Rightarrow> memory res" where
  "store m a v =
     (if list_ex (in_block a) (live_blocks m) then Inr (m\<lparr>byte_at := (byte_at m)(a := v)\<rparr>) else Inl Out_Of_Bounds)"

text \<open>\<open>malloc\<close> returns null or the address of a new block, \<open>free\<close> takes one.\<close>

definition malloc :: "64 word option \<Rightarrow> memory \<Rightarrow> nat \<Rightarrow> 64 word option \<times> memory" where
  "malloc chosen m n =
     (case chosen of None \<Rightarrow> (None, m) | Some b \<Rightarrow> (Some b, m\<lparr>live_blocks := (b, n) # live_blocks m\<rparr>))"

definition free :: "memory \<Rightarrow> 64 word \<Rightarrow> memory res" where
  "free m b =
     (if b \<in> fst ` set (live_blocks m)
      then Inr (m\<lparr>live_blocks := filter (\<lambda>x. fst x \<noteq> b) (live_blocks m)\<rparr>) else Inl Out_Of_Bounds)"

definition XXH_alignedMalloc :: "64 word option \<Rightarrow> memory \<Rightarrow> 64 word \<Rightarrow> 64 word \<Rightarrow> (64 word option \<times> memory) res" where
  "XXH_alignedMalloc chosen m s align =
     (case malloc chosen m (unat (s + align)) of
        (None, m) \<Rightarrow> Inr (None, m)
      | (Some base, m) \<Rightarrow>
          let offset = align - (base AND (align - 1)); ptr = base + offset
          in rbind (store m (ptr - 1) (ucast offset)) (\<lambda>m. Inr (Some ptr, m)))"

definition XXH_alignedFree :: "memory \<Rightarrow> 64 word option \<Rightarrow> memory res" where
  "XXH_alignedFree m p =
     (case p of
        None \<Rightarrow> Inr m
      | Some ptr \<Rightarrow> rbind (load m (ptr - 1)) (\<lambda>offset. free m (ptr - ucast offset)))"

definition XXH3_freeState :: "memory \<Rightarrow> 64 word option \<Rightarrow> (XXH_errorcode \<times> memory) res" where
  "XXH3_freeState m p = rbind (XXH_alignedFree m p) (\<lambda>m. Inr (XXH_OK, m))"

text \<open>What the owner of a pointer may do: change the bytes it asked for, and nothing else.\<close>

definition used :: "64 word \<Rightarrow> 64 word \<Rightarrow> memory \<Rightarrow> memory \<Rightarrow> bool" where
  "used ptr s m m' \<longleftrightarrow> live_blocks m' = live_blocks m \<and>
     (\<forall>a. \<not> in_block a (ptr, unat s) \<longrightarrow> byte_at m' a = byte_at m a)"

lemma aligned_offset:
  fixes base :: "64 word"
  assumes "k \<le> 7"
  shows "unat (2 ^ k - (base AND (2 ^ k - 1))) = 2 ^ k - unat base mod 2 ^ k"
proof -
  have p: "unat (2 ^ k :: 64 word) = 2 ^ k"
  proof -
    have "k \<in> {0, 1, 2, 3, 4, 5, 6, 7}" using assms by auto
    then show ?thesis by auto
  qed
  have "base AND (2 ^ k - 1) = take_bit k base" by (simp add: take_bit_eq_mask mask_eq_exp_minus_1)
  then have "unat (base AND (2 ^ k - 1)) = unat base mod 2 ^ k"
    using p by (simp add: take_bit_eq_mod unat_mod)
  then show ?thesis using p by (simp add: unat_sub word_le_nat_alt)
qed

text \<open>The pointer: above the base by one byte at least and the alignment at most.\<close>

lemma aligned_pointer:
  fixes base s :: "64 word" and k :: nat
  defines "offset \<equiv> 2 ^ k - (base AND (2 ^ k - 1))"
  assumes "k \<le> 7" and "0 < s" and "unat base + unat s + 2 ^ k \<le> 2 ^ 64" and "base \<noteq> 0"
  shows "unat (base + offset) = unat base + unat offset" and "1 \<le> unat offset" and "unat offset \<le> 2 ^ k"
    and "(base + offset) AND (2 ^ k - 1) = 0" and "unat (base + offset - 1) = unat base + unat offset - 1"
    and "unat (s + 2 ^ k) = unat s + 2 ^ k" and "ucast (ucast offset :: 8 word) = offset"
proof -
  have o: "unat offset = 2 ^ k - unat base mod 2 ^ k"
    unfolding offset_def by (rule aligned_offset [OF assms(2)])
  have k: "(2::nat) ^ k \<le> 2 ^ 7" by (rule power_increasing [OF assms(2)]) simp
  have p: "unat (2 ^ k :: 64 word) = 2 ^ k"
  proof -
    have "k \<in> {0, 1, 2, 3, 4, 5, 6, 7}" using assms(2) by auto
    then show ?thesis by auto
  qed
  have s: "0 < unat s" using assms(3) by (simp add: word_less_nat_alt)
  show one: "1 \<le> unat offset" and le: "unat offset \<le> 2 ^ k" unfolding o by (simp_all add: Suc_leI)
  then have "unat base + unat offset < 2 ^ 64" using assms(4) s by linarith
  then show ptr: "unat (base + offset) = unat base + unat offset"
    using unat_add_lem [of base offset] by simp
  have "1 \<le> base + offset" using ptr one by (simp add: word_le_nat_alt)
  then show "unat (base + offset - 1) = unat base + unat offset - 1"
    using ptr by (simp add: unat_sub)
  show "unat (s + 2 ^ k) = unat s + 2 ^ k"
  proof -
    have "0 < unat base" using assms(5) by (simp add: unat_gt_0)
    then have "unat s + unat (2 ^ k :: 64 word) < 2 ^ 64" using assms(4) p by linarith
    then show ?thesis using unat_add_lem [of s "2 ^ k"] p by simp
  qed
  have "2 ^ k dvd unat (base + offset)"
  proof -
    have "unat base + unat offset = 2 ^ k * (unat base div 2 ^ k) + 2 ^ k"
    proof -
      have "unat base mod 2 ^ k < 2 ^ k" by simp
      then show ?thesis using mult_div_mod_eq [of "2 ^ k" "unat base"] o by linarith
    qed
    then show ?thesis unfolding ptr by simp
  qed
  then show "(base + offset) AND (2 ^ k - 1) = 0"
    using and_mask_dvd_nat [of k "base + offset"] by (simp add: mask_eq_exp_minus_1)
  show "ucast (ucast offset :: 8 word) = offset"
  proof -
    have "unat offset < 2 ^ 8" using le k by simp
    then have "unat (ucast (ucast offset :: 8 word) :: 64 word) = unat offset"
      by (simp add: unsigned_ucast_eq unsigned_take_bit_eq take_bit_nat_eq_self)
    then show ?thesis by (rule unsigned_word_eqI)
  qed
qed

section \<open>Properties\<close>

text \<open>
  Aligned allocation and release: in a new block of the size \<open>XXH_alignedMalloc\<close> asks for, the
  pointer it returns is a multiple of the alignment and the bytes behind it are inside the block; its
  only store is inside the block too; and after any use of these bytes \<open>XXH_alignedFree\<close> finds the start
  of the block and releases exactly it.
\<close>

theorem aligned_malloc_free:
  assumes "3 \<le> k" and "k \<le> 7" and "0 < s" and "base \<noteq> 0" and "unat base + unat s + 2 ^ k \<le> 2 ^ 64"
    and "base \<notin> fst ` set (live_blocks m)"
  shows "\<exists>ptr m'. XXH_alignedMalloc (Some base) m s (2 ^ k) = Inr (Some ptr, m') \<and>
    ptr AND (2 ^ k - 1) = 0 \<and> live_blocks m' = (base, unat s + 2 ^ k) # live_blocks m \<and>
    (\<forall>a. in_block a (ptr, unat s) \<longrightarrow> in_block a (base, unat s + 2 ^ k)) \<and>
    (\<forall>m''. used ptr s m' m'' \<longrightarrow>
       (\<exists>m3. XXH3_freeState m'' (Some ptr) = Inr (XXH_OK, m3) \<and> live_blocks m3 = live_blocks m))"
proof -
  define offset where "offset = 2 ^ k - (base AND (2 ^ k - 1))"
  note p = aligned_pointer [OF assms(2,3,5,4), folded offset_def]
  let ?ptr = "base + offset"
  define m1 where "m1 = m\<lparr>live_blocks := (base, unat s + 2 ^ k) # live_blocks m\<rparr>"
  define m' where "m' = m1\<lparr>byte_at := (byte_at m1)(?ptr - 1 := ucast offset)\<rparr>"
  have inside: "in_block (?ptr - 1) (base, unat s + 2 ^ k)"
    using p(2,3,5) assms(3) unfolding in_block_def word_less_nat_alt by auto
  then have "store m1 (?ptr - 1) (ucast offset) = Inr m'" by (simp add: store_def m1_def m'_def)
  then have "XXH_alignedMalloc (Some base) m s (2 ^ k) = Inr (Some ?ptr, m')"
    by (simp add: XXH_alignedMalloc_def malloc_def p(6) Let_def flip: offset_def m1_def)
  moreover have "\<forall>a. in_block a (?ptr, unat s) \<longrightarrow> in_block a (base, unat s + 2 ^ k)"
    using p(1,3) by (auto simp: in_block_def)
  moreover have "\<exists>m3. XXH3_freeState m'' (Some ?ptr) = Inr (XXH_OK, m3) \<and> live_blocks m3 = live_blocks m"
    if u: "used ?ptr s m' m''" for m''
  proof -
    have l: "live_blocks m'' = (base, unat s + 2 ^ k) # live_blocks m" using u by (simp add: used_def m'_def m1_def)
    have "\<not> in_block (?ptr - 1) (?ptr, unat s)" using p(1,2,5) by (simp add: in_block_def)
    then have "byte_at m'' (?ptr - 1) = ucast offset" using u by (simp add: used_def m'_def)
    then have "load m'' (?ptr - 1) = Inr (ucast offset)" using inside l by (simp add: load_def)
    moreover have "filter (\<lambda>x. fst x \<noteq> base) (live_blocks m) = live_blocks m"
      using assms(6) by (auto intro!: filter_True)
    ultimately show ?thesis
      using l p(7) by (simp add: XXH3_freeState_def XXH_alignedFree_def free_def)
  qed
  moreover have "live_blocks m' = (base, unat s + 2 ^ k) # live_blocks m" by (simp add: m'_def m1_def)
  ultimately show ?thesis using p(4) by blast
qed

theorem aligned_malloc_free_witness:
  "\<exists>ptr m'. XXH_alignedMalloc (Some 4100) \<lparr>byte_at = (\<lambda>_. 0), live_blocks = []\<rparr> 576 64 = Inr (Some ptr, m') \<and>
     ptr AND 63 = 0 \<and> (\<exists>m3. XXH3_freeState m' (Some ptr) = Inr (XXH_OK, m3) \<and> live_blocks m3 = [])"
  using aligned_malloc_free [of 6 576 4100 "\<lparr>byte_at = (\<lambda>_. 0), live_blocks = []\<rparr>"]
  by (fastforce simp: used_def)

end
