(* ===== verification/Spec2Isabelle.thy ===== *)
theory Spec2Isabelle
  imports Prelude Buffered_Reader Ddl Cli Tasks Main_Program
    Sql Flat_Hash Hash_Room Flat_Hash_Ops Flat_Hash_Ranges Flat_Hash_Programs Flat_Hash_Map Hash_Interrupted
    Hash_Policies Floats Float_Rounding Query_Builder Query_Refinement Interrupted_Calls
    Statement_Meaning Crash_Recovery Whole_Program Parallel_Tables
    Xxh_Base Xxh32 Xxh64 Xxh3 Xxh3_Stream Xxh3_Simd Xxh3_Vsx Xxh3_Mult Xxh3_Kernels Xxh3_128
    Aligned_Memory
begin

text \<open>
  \<^bold>\<open>A verification library for change_sql.\<close>

  The program (own code under \<^verbatim>\<open>src/src\<close>) moves tables of several source databases, each a directory
  of CSV files with the CREATE TABLE texts, into one MySQL database: of the records with the same
  key, the one with the newest \<open>updated_at\<close> shall survive.  It discovers the tables and gives them
  to the cores (\<^verbatim>\<open>utils.cpp\<close>), parses their DDL, reads the CSV files through a buffer
  (\<^verbatim>\<open>buffered_reader.cpp\<close>), and turns the records into SQL statements (\<^verbatim>\<open>query_builder.cpp\<close>); the
  hashes of the keys it has seen, and the position up to which statements were executed, live in a
  shared memory segment, so that a new process can resume.  The two libraries it rests on for that,
  the hash function XXH3 and the Robin Hood hash table, are vendored as headers and modelled too.

  \<^bold>\<open>Conventions.\<close>  A function that can fail in C++ (index out of range, uninitialised read, null
  pointer, exception, \<open>exit\<close>) returns \<open>'a res\<close>, a sum of a \<open>fault\<close> and a result (theory \<open>Prelude\<close>);
  a method takes the state of its object and returns the changed state.  Integers are words of their
  width where the code computes with them; offsets and sizes that only count are \<open>nat\<close> or \<open>int\<close>.
  Loops are recursive functions with the loop variables as arguments.  Definitions keep the names of
  the code.

  \<^bold>\<open>Theories.\<close>
  \<^item> \<open>Prelude\<close>: faults and results, checked indexing, the bit masks of the columns, joined texts.
  \<^item> \<open>Buffered_Reader\<close> (class \<open>BufferedReader\<close>): the record \<open>reader\<close> is the object, \<open>c_file\<close> a
    \<open>FILE *\<close>.  The locale \<open>value_source\<close> is what the query builder relies on; its interpretation
    \<open>csv\<close> is the model of the class.  Shown: values are the bytes between separators across refills,
    \<open>seek\<close> resumes at an \<open>offset\<close>, and what happens at the end of a file.
  \<^item> \<open>Ddl\<close> (\<open>parse_ddl\<close>), \<open>Cli\<close> (\<open>parse_argv\<close>, \<open>serialize_datetime\<close>, the constants of
    \<^verbatim>\<open>config.h\<close>), \<open>Tasks\<close> (\<open>list_dir\<close>, \<open>extract_table_tasks\<close>, \<open>distribute_tasks\<close>, \<open>main2\<close>),
    \<open>Main_Program\<close> (\<open>main\<close> over the functions of the MySQL client), \<open>Floats\<close> (\<open>normalize_float\<close>,
    \<open>represent_float\<close>), \<open>Sql\<close> (the four \<open>make_\<dots>\<close> functions of the query builder): functional
    correctness on well-formed inputs against printers or readers, and the faults on the others.
    \<open>Float_Rounding\<close>: over the real numbers, \<open>normalize_float\<close> of a decimal text rounds to the nearest
    binary32 number and prints that to 18 decimals.
  \<^item> \<open>Flat_Hash\<close> (the table \<open>ska::detailv3::sherwood_v3_table\<close> as a set of 64-bit hashes, with the
    fibonacci policy): the record \<open>flat_hash_set\<close> and the invariant \<open>table_ok\<close>; look-up, insertion
    with displacement, growing.  The locale \<open>recorded_keys\<close> is what the query builder relies on, its
    interpretation \<open>flat\<close> the table.  \<open>Hash_Room\<close>: a table with as many keys as a look-up may probe
    never grows, wherever the hashes fall, which extends the interface to the locale \<open>roomy_keys\<close>
    (interpretation \<open>flat_room\<close>).  \<open>Flat_Hash_Ops\<close>: erasing, iteration, comparison, copies.
    \<open>Flat_Hash_Ranges\<close>: erasing ranges.  \<open>Flat_Hash_Programs\<close>: constructors, moves, and any sequence of
    operations on two tables against sets.  \<open>Hash_Policies\<close>: the policies with primes, powers of two
    and the rest of the fibonacci policy.
  \<^item> \<open>Flat_Hash_Map\<close> (\<open>ska::flat_hash_map\<close>): the record \<open>flat_hash_map\<close> is the same table with pairs as
    values.  Forgetting the second components (\<open>keys_of\<close>) commutes with every operation, faults
    included, so the theorems of the set carry over; that no pair is lost or changed is a statement on
    multisets.  The locale \<open>dictionary\<close> is what a client of a map relies on, its interpretation \<open>hm\<close> the
    table; from it, any program of map operations against partial functions.
  \<^item> \<open>Hash_Interrupted\<close>, \<open>Interrupted_Calls\<close>: what the segment holds when a process dies inside \<open>insert\<close>, in the
    constructor, in \<open>next_query\<close> between two records, and between the two stores of \<open>commit\<close>.  Each is cut
    by a relation for one round, with a lemma that the code goes on from where the round ends.
  \<^item> \<open>Query_Builder\<close> (class \<open>QueryBuilder\<close>): the record \<open>query_builder\<close> is the object,
    \<open>shm_segment\<close> what survives the process.  \<open>Query_Refinement\<close>: the class refines a machine on
    lists of records (\<open>abs_next\<close>); from that, what a run emits and loses, its termination, and how
    \<open>commit\<close> and the constructor resume.
  \<^item> \<open>Statement_Meaning\<close>: what the three kinds of statement do to the rows of a table (\<open>run_query\<close>),
    what it is to hold the newest record of every key (\<open>newest_rows\<close>), and a reader that recovers a
    query from its text.  \<open>Crash_Recovery\<close>: a step relation in which processes start from the segment,
    take statements, have them executed, commit, finish, crash between calls, in the constructor and
    in \<open>next_query\<close> between two records; an invariant of all reachable states, and sessions that are
    not interrupted.  \<open>Whole_Program\<close>: the same from \<open>main2\<close> on, with the tables and CSV files found in
    the file system.  \<open>Parallel_Tables\<close>: all tables at once, each with the segment named after it, under any interleaving.
  \<^item> \<open>Xxh_Base\<close>, \<open>Xxh32\<close>, \<open>Xxh64\<close>, \<open>Xxh3\<close>, \<open>Xxh3_Mult\<close>, \<open>Xxh3_Stream\<close>, \<open>Xxh3_Simd\<close>, \<open>Xxh3_Vsx\<close>,
    \<open>Xxh3_Kernels\<close>, \<open>Xxh3_128\<close> (\<^verbatim>\<open>xxhash.h\<close>): one-shot and streaming hashes of all widths, with the
    scalar and the vector kernels; \<open>Aligned_Memory\<close>: the allocation of the states.  The locale
    \<open>streaming_hash\<close> says that a state represents the input fed so far; \<open>stripe_kernel\<close>,
    \<open>configured_kernel\<close> is what the streaming code relies on of a kernel.  Shown: streaming in any
    pieces is the one-shot hash of their concatenation (except the 128-bit hash with a secret and the
    seed 0, which is that of the secret alone), all kernels and both multiplications agree, canonical forms read back.

  \<^bold>\<open>How the parts meet.\<close>  \<open>main2\<close> calls \<open>parse_argv\<close>, \<open>extract_table_tasks\<close> (which calls \<open>parse_ddl\<close>)
  and \<open>distribute_tasks\<close>; a task is the input of \<open>QueryBuilder\<close>, whose \<open>next_query\<close> reads values
  (\<open>get_value\<close>, \<open>normalize_float\<close>), hashes the key columns (streaming XXH3, shown equal to the
  one-shot hash \<open>key_hash\<close>), looks the hash up and inserts it in the table of the segment, and makes
  statements.  The proofs follow these calls: the lemmas about \<open>collect\<close> and \<open>next_query\<close> rest on the
  interpretations \<open>csv\<close> and \<open>flat\<close> and on the streaming theorem, not on the insides of the readers,
  the table or the hash.

  \<^bold>\<open>Bounds.\<close>  \<open>emplace\<close> and \<open>grow\<close> call each other; the model allows 64 nested calls and then
  returns \<open>Stack_Overflow\<close>.  Each nested call doubles the table, and the allocator of the segment
  refuses more than \<open>lim\<close> slots; for \<open>lim \<le> 2 ^ 62\<close> it is proved that the bound is never reached
  (\<open>Flat_Hash.emplace_correct\<close> and \<open>table_ok\<close>).  A table has at most 255 CSV files, since
  \<open>handle_idx\<close> is an \<open>unsigned char\<close>, at most 16 columns when a mask of keys is to be exact, and key
  texts shorter than \<open>2 ^ 64\<close> bytes.  Files are complete lines whose records do not begin with the
  byte 0xFF, which \<open>peek\<close> takes for the end; other files are the subject of the error theorems.

  \<^bold>\<open>The environment.\<close>  The client that sends the statements is commented out in the code; what
  \<open>Crash_Recovery\<close> assumes of it is its protocol: a statement is executed before the next call of
  \<open>commit\<close> or \<open>next_query\<close>, and a process dies between calls, in the constructor once the table has
  been reserved, in \<open>next_query\<close> between two records, or in \<open>commit\<close> while the position stays in one file
  (where the first store changes nothing, \<open>half_commit_same_file\<close>).  Killed in \<open>commit\<close> when a new file has
  been begun, or inside \<open>insert\<close>, it can leave a segment for which the theorems on crashes do not
  hold (theories \<open>Interrupted_Calls\<close>, \<open>Hash_Interrupted\<close>).  The server is any function on texts that
  gives the statements of plain values the meaning \<open>run_query\<close> (hypothesis
  \<open>speaks_sql\<close>, satisfied by the reader of \<open>Statement_Meaning\<close>); \<open>stamp\<close> is its order of \<open>updated_at\<close>
  values.  Allocation fails only with \<open>Throws_Bad_Alloc\<close>; \<open>has_room\<close> says when it cannot: up to 24 keys
  in a segment of 18,874,368 entries, the bound a table of \<open>2 ^ 24\<close> slots guarantees for every hash.

  \<^bold>\<open>Not modelled.\<close>  Thread affinity, logging and the destructors only call the system.  Boost's
  shared memory, spdlog and fmt are vendored code the program calls; what it relies on of them is the
  segment record, the limit \<open>lim\<close> and the text of a float.  The thread bodies of \<open>main2\<close> are
  commented out in the code.  Of the hash table: the getters and the setter of the load factor, which
  stays at 0.5, and types of keys other than 64-bit numbers with the identity as their hash.
  Headers, scripts and the experiments of \<^verbatim>\<open>src/lab\<close> hold no logic of the program.
\<close>

end
